(* ===== verification/Transitions.thy ===== *)
theory Transitions
  imports Main
begin

text \<open>
  Concurrent components are step relations: one rule per atomic operation of one thread, the threads
  interleaved in any order.  This theory holds what they share: reachable states, the contract of an
  inductive invariant, of a system that comes to rest, and of one that refines an abstract machine; and the compare-and-swap
  loops of the code, which justify taking such a loop as one step.
\<close>

section \<open>Reachable states and invariants\<close>

inductive reachable :: "'s \<Rightarrow> ('s \<Rightarrow> 's \<Rightarrow> bool) \<Rightarrow> 's \<Rightarrow> bool" for init step where
  start: "reachable init step init"
| next_step: "reachable init step s \<Longrightarrow> step s t \<Longrightarrow> reachable init step t"

lemma steps_reachable: "step\<^sup>*\<^sup>* s t \<Longrightarrow> reachable init step s \<Longrightarrow> reachable init step t"
  by (induction rule: rtranclp_induct) (auto intro: reachable.next_step)

locale inductive_invariant =
  fixes init :: 's and step :: "'s \<Rightarrow> 's \<Rightarrow> bool" and inv :: "'s \<Rightarrow> bool"
  assumes inv_init: "inv init"
    and inv_step: "inv s \<Longrightarrow> step s t \<Longrightarrow> inv t"
begin

lemma reachable_inv: "reachable init step s \<Longrightarrow> inv s"
  by (induction rule: reachable.induct) (auto intro: inv_init inv_step)

lemma steps_inv: "step\<^sup>*\<^sup>* s t \<Longrightarrow> inv s \<Longrightarrow> inv t"
  by (induction rule: rtranclp_induct) (auto intro: inv_step)

end

text \<open>
  A system comes to rest under a set of \<open>internal\<close> steps when a measure decreases with each of them:
  then every run of internal steps ends, and ends in a state without one.
\<close>

locale comes_to_rest = inductive_invariant +
  fixes internal :: "'a \<Rightarrow> 'a \<Rightarrow> bool" and weight :: "'a \<Rightarrow> nat"
  assumes internal_step: "internal s t \<Longrightarrow> step s t"
    and weight_less: "inv s \<Longrightarrow> internal s t \<Longrightarrow> weight t < weight s"
begin

lemma internal_inv: "internal\<^sup>*\<^sup>* s t \<Longrightarrow> inv s \<Longrightarrow> inv t"
  by (induction rule: rtranclp_induct) (auto intro: inv_step internal_step)

lemma run_bounded: "(internal ^^ n) s t \<Longrightarrow> inv s \<Longrightarrow> n \<le> weight s"
proof (induction n arbitrary: s)
  case (Suc n)
  then obtain u where u: "internal s u" "(internal ^^ n) u t"
    by (metis relpowp_Suc_D2)
  then have "n \<le> weight u" using Suc by (auto intro: inv_step internal_step)
  with weight_less [OF Suc.prems(2) u(1)] show ?case by simp
qed simp

lemma rests: "inv s \<Longrightarrow> \<exists>t. internal\<^sup>*\<^sup>* s t \<and> (\<nexists>u. internal t u)"
proof (induction "weight s" arbitrary: s rule: less_induct)
  case less
  show ?case
  proof (cases "\<exists>u. internal s u")
    case True
    then obtain u where u: "internal s u" by blast
    with less.prems have "inv u" "weight u < weight s"
      by (auto intro: inv_step internal_step weight_less)
    with less.hyps obtain t where "internal\<^sup>*\<^sup>* u t" "\<nexists>v. internal t v" by blast
    with u show ?thesis by (meson converse_rtranclp_into_rtranclp)
  next
    case False
    then show ?thesis by blast
  qed
qed

end

text \<open>A measure that is a sum over threads, when one of them moves.\<close>

lemma sum_list_upd:
  fixes f :: "'a \<Rightarrow> nat"
  assumes "k < length xs"
  shows "sum_list (map f (xs[k := x])) + f (xs ! k) = sum_list (map f xs) + f x"
  using assms by (induction xs arbitrary: k) (auto split: nat.split)

section \<open>Refinement of an abstract machine\<close>

text \<open>
  An abstract machine accepts or refuses events; a system whose steps are observed as events refines it when each step is
  not observed or is one step of the machine, along a relation between the states.  \<open>within\<close> is a condition that later
  states can only lose.
\<close>

fun accepts :: "('e \<Rightarrow> 'a \<Rightarrow> 'a option) \<Rightarrow> 'e list \<Rightarrow> 'a \<Rightarrow> 'a option" where
  "accepts machine [] a = Some a"
| "accepts machine (e # es) a = (case machine e a of Some b \<Rightarrow> accepts machine es b | None \<Rightarrow> None)"

lemma accepts_append: "accepts machine (es @ fs) a = Option.bind (accepts machine es a) (accepts machine fs)"
  by (induction es arbitrary: a) (simp_all split: option.split)

locale refines_machine =
  fixes init :: 's and step :: "'s \<Rightarrow> 's \<Rightarrow> bool" and observed :: "'s \<Rightarrow> 'e list" and within :: "'s \<Rightarrow> bool"
    and machine :: "'e \<Rightarrow> 'a \<Rightarrow> 'a option" and start_state :: 'a and related :: "'s \<Rightarrow> 'a \<Rightarrow> bool"
  assumes starts_related: "observed init = []" "related init start_state"
    and within_before: "step s t \<Longrightarrow> within t \<Longrightarrow> within s"
    and step_simulated: "reachable init step s \<Longrightarrow> step s t \<Longrightarrow> within s \<Longrightarrow> within t \<Longrightarrow> related s a \<Longrightarrow>
      observed t = observed s \<and> related t a
      \<or> (\<exists>e b. observed t = observed s @ [e] \<and> machine e a = Some b \<and> related t b)"
begin

lemma reachable_accepted:
  "reachable init step s \<Longrightarrow> within s \<Longrightarrow> \<exists>a. accepts machine (observed s) start_state = Some a \<and> related s a"
proof (induction rule: reachable.induct)
  case start
  then show ?case using starts_related by simp
next
  case (next_step s t)
  then have s: "within s" using within_before by blast
  with next_step obtain a where a: "accepts machine (observed s) start_state = Some a" "related s a" by blast
  from step_simulated [OF next_step.hyps s next_step.prems a(2)] show ?case
    using a by (auto simp: accepts_append)
qed

end

section \<open>A resource with one owner\<close>

text \<open>
  A state variable that threads claim by a compare-exchange and give back by a store: each step leaves it alone, claims
  it for one thread while it is free, or gives it back.  Then it has one owner at a time, and it is taken exactly when
  it has an owner.
\<close>

definition owner_change :: "('i \<Rightarrow> bool) \<Rightarrow> bool \<Rightarrow> ('i \<Rightarrow> bool) \<Rightarrow> bool \<Rightarrow> bool" where
  "owner_change f taken g taken' \<longleftrightarrow> g = f \<and> taken' = taken
     \<or> (\<exists>i. \<not> taken \<and> taken' \<and> g = f(i := True)) \<or> (\<exists>i. f i \<and> \<not> taken' \<and> g = f(i := False))"

definition one_owner :: "('i \<Rightarrow> bool) \<Rightarrow> bool \<Rightarrow> bool" where
  "one_owner f taken \<longleftrightarrow> (\<forall>i j. f i \<and> f j \<longrightarrow> i = j) \<and> (taken \<longleftrightarrow> (\<exists>i. f i))"

lemma one_owner_change: "one_owner f taken \<Longrightarrow> owner_change f taken g taken' \<Longrightarrow> one_owner g taken'"
proof -
  assume one: "one_owner f taken" and "owner_change f taken g taken'"
  from this(2) consider "g = f" "taken' = taken" | i where "\<not> taken" "taken'" "g = f(i := True)"
    | i where "f i" "\<not> taken'" "g = f(i := False)"
    unfolding owner_change_def by blast
  then show ?thesis
  proof cases
    case 2
    then have "g j \<longleftrightarrow> j = i" for j using one by (simp add: one_owner_def)
    then show ?thesis using 2 by (auto simp: one_owner_def)
  next
    case 3
    then have "\<not> g j" for j using one by (auto simp: one_owner_def)
    then show ?thesis using 3 by (auto simp: one_owner_def)
  qed (use one in simp)
qed

locale exclusive_owner =
  fixes init :: 's and step :: "'s \<Rightarrow> 's \<Rightarrow> bool" and owns :: "'s \<Rightarrow> 'i \<Rightarrow> bool" and taken :: "'s \<Rightarrow> bool"
  assumes free_init: "\<not> taken init" "\<not> owns init i"
    and owner_step: "step s t \<Longrightarrow> owner_change (owns s) (taken s) (owns t) (taken t)"
begin

sublocale inductive_invariant init step "\<lambda>s. one_owner (owns s) (taken s)"
  by unfold_locales (auto simp: one_owner_def [of "owns init"] free_init intro: one_owner_change owner_step)

lemma unique_owner: "reachable init step s \<Longrightarrow> owns s i \<Longrightarrow> owns s j \<Longrightarrow> i = j"
  using reachable_inv by (simp add: one_owner_def)

lemma taken_owned: "reachable init step s \<Longrightarrow> taken s \<longleftrightarrow> (\<exists>i. owns s i)"
  using reachable_inv by (simp add: one_owner_def)

end

section \<open>Compare-and-swap loops\<close>

text \<open>
  The loops of the code have the shape
  \<^verbatim>\<open>
    state = x.load();
    do { if (...state...) return; } while (!x.compare_exchange_weak(state, f(state)));
  \<close>
  \<open>cas_loop f seen env\<close> runs such a loop from the loaded value \<open>seen\<close> against an adversary: each element
  of \<open>env\<close> is the value the variable has when the next compare-exchange executes, and whether it fails
  spuriously.  \<^term>\<open>f v = None\<close> is the early return.  The result is \<^term>\<open>None\<close> when the adversary's list
  ends first.
\<close>

datatype 'a cas_result = Stopped 'a | Swapped 'a 'a

fun cas_loop :: "('a \<Rightarrow> 'a option) \<Rightarrow> 'a \<Rightarrow> ('a \<times> bool) list \<Rightarrow> 'a cas_result option" where
  "cas_loop f seen [] = (case f seen of None \<Rightarrow> Some (Stopped seen) | Some _ \<Rightarrow> None)"
| "cas_loop f seen ((mem, spurious) # env) =
     (case f seen of
        None \<Rightarrow> Some (Stopped seen)
      | Some new \<Rightarrow> if mem = seen \<and> \<not> spurious then Some (Swapped seen new) else cas_loop f mem env)"

text \<open>
  Whatever the other threads do, the loop acts at one instant: a swap replaces the very value the
  variable holds then by \<open>f\<close> of it, and a return saw a value the variable held during the loop.
\<close>

lemma cas_loop_Swapped:
  "cas_loop f seen env = Some (Swapped old new) \<Longrightarrow> f old = Some new \<and> (old, False) \<in> set env"
  by (induction f seen env rule: cas_loop.induct) (auto split: option.splits if_splits)

lemma cas_loop_Stopped:
  "cas_loop f seen env = Some (Stopped v) \<Longrightarrow> f v = None \<and> v \<in> insert seen (fst ` set env)"
  by (induction f seen env rule: cas_loop.induct) (auto split: option.splits if_splits)

text \<open>The loop is lock-free: left alone for two rounds it ends.\<close>

lemma cas_loop_alone: "\<exists>r. cas_loop f seen ((m, False) # (m, False) # env) = Some r"
  by (auto split: option.split)

end
