(* ===== verification/Service_Pool.thy ===== *)
theory Service_Pool
  imports Transitions "HOL-Library.Word"
begin

text \<open>
  The shared services behind \<open>Http\<close> and \<open>HttpStream\<close>: \<open>start_service\<close>, \<open>shutdown\<close> and \<open>run_service_thread\<close> of
  \<open>http.cpp\<close> and \<open>http_stream.cpp\<close>.  Both sources follow one protocol over \<open>service_state_\<close>; they differ in what is done
  between its states, which a \<open>service_code\<close> lists.  Any number of application threads call \<open>start_service\<close> and
  \<open>shutdown\<close>, one atomic operation at a time, while the service threads run handlers.  Creating a thread is assumed to
  succeed, and \<open>shutdown\<close> is not called on a service thread, as its documentation demands.
\<close>

section \<open>The code between the states\<close>

datatype service_state = Svc_stopped | Svc_starting | Svc_running | Svc_stopping

datatype service_context = Io_context | Callback_context

datatype service_action =
    Restart service_context
  | Load_count               \<comment> \<open>the number of threads the service will have\<close>
  | Set_inline
  | Bump_epoch
  | Stop service_context

text \<open>The threads created for a count, by the context each of them runs.\<close>

record service_code =
  start_actions :: "service_action list"
  stop_actions :: "service_action list"
  thread_plan :: "nat \<Rightarrow> service_context list"
  counted :: "nat \<Rightarrow> nat"               \<comment> \<open>the count that is stored for a wanted one\<close>

text \<open>\<open>Http::set_callback_threads\<close> stores its argument, \<open>HttpStream::set_service_threads\<close> at least 1.\<close>

definition stream_thread_count :: "nat \<Rightarrow> nat" where
  "stream_thread_count n = max n 1"

definition http_code :: service_code where
  "http_code = \<lparr>start_actions = [Restart Io_context, Restart Callback_context, Load_count, Set_inline],
     stop_actions = [Bump_epoch, Stop Io_context, Stop Callback_context],
     thread_plan = (\<lambda>n. Io_context # replicate n Callback_context), counted = (\<lambda>n. n)\<rparr>"

definition stream_code :: service_code where
  "stream_code = \<lparr>start_actions = [Restart Io_context, Load_count], stop_actions = [Stop Io_context],
     thread_plan = (\<lambda>n. replicate n Io_context), counted = stream_thread_count\<rparr>"

section \<open>State\<close>

text \<open>A thread of the service: in \<open>run()\<close> between handlers, in a handler, finished, or joined.\<close>

datatype 'h service_thread = Serving | Handling 'h | Ended | Joined

text \<open>Where an application thread is.\<close>

datatype service_pc =
    Away
  | Preparing "service_action list"     \<comment> \<open>\<open>start_service\<close> after its compare-exchange\<close>
  | Creating "service_context list"     \<comment> \<open>the threads still to create\<close>
  | Started                             \<comment> \<open>\<open>start_service\<close> has returned\<close>
  | Checking service_state              \<comment> \<open>\<open>shutdown\<close>: the value of \<open>state\<close>\<close>
  | Shutting "service_action list"      \<comment> \<open>after its compare-exchange\<close>
  | Joining nat                         \<comment> \<open>the index of the thread to join\<close>
  | Finishing                           \<comment> \<open>after \<open>service_threads_.clear()\<close>\<close>

record 'h pool =
  service_state :: service_state
  thread_count :: nat
  count :: nat                          \<comment> \<open>the count \<open>start_service\<close> loaded\<close>
  inline_callbacks :: bool
  service_epoch :: "64 word"
  bumps :: nat                          \<comment> \<open>history: how often the epoch was bumped\<close>
  stopped :: "service_context \<Rightarrow> bool"   \<comment> \<open>\<open>io_context::stopped()\<close>\<close>
  service_threads :: "(service_context \<times> 'h service_thread) list"
  callers :: "service_pc list"
  terminated :: bool                    \<comment> \<open>a joinable thread was destroyed or one was joined twice\<close>

definition pool_init :: "nat \<Rightarrow> 'h pool" where
  "pool_init n = \<lparr>service_state = Svc_stopped, thread_count = 1, count = 1, inline_callbacks = False, service_epoch = 0,
     bumps = 0, stopped = (\<lambda>_. False), service_threads = [], callers = replicate n Away, terminated = False\<rparr>"

section \<open>Steps\<close>

fun run_action :: "service_action \<Rightarrow> 'h pool \<Rightarrow> 'h pool" where
  "run_action (Restart c) s = s\<lparr>stopped := (stopped s)(c := False)\<rparr>"
| "run_action Load_count s = s\<lparr>count := thread_count s\<rparr>"
| "run_action Set_inline s = s\<lparr>inline_callbacks := (count s = 0)\<rparr>"
| "run_action Bump_epoch s = s\<lparr>service_epoch := service_epoch s + 1, bumps := bumps s + 1\<rparr>"
| "run_action (Stop c) s = s\<lparr>stopped := (stopped s)(c := True)\<rparr>"

definition caller_at :: "nat \<Rightarrow> service_pc \<Rightarrow> 'h pool \<Rightarrow> 'h pool" where
  "caller_at i pc s = s\<lparr>callers := (callers s)[i := pc]\<rparr>"

definition thread_at :: "nat \<Rightarrow> 'h service_thread \<Rightarrow> 'h pool \<Rightarrow> 'h pool" where
  "thread_at k w s = s\<lparr>service_threads := (service_threads s)[k := (fst (service_threads s ! k), w)]\<rparr>"

text \<open>\<open>start_service\<close>: its compare-exchange, which is a strong one.\<close>

definition start_swap :: "service_code \<Rightarrow> nat \<Rightarrow> 'h pool \<Rightarrow> 'h pool" where
  "start_swap code i s =
     (if service_state s = Svc_stopped then caller_at i (Preparing (start_actions code)) (s\<lparr>service_state := Svc_starting\<rparr>)
      else caller_at i Started s)"

text \<open>One turn of the loop of \<open>shutdown\<close>; a failed compare-exchange loads the state again.\<close>

definition shutdown_turn :: "service_code \<Rightarrow> nat \<Rightarrow> service_state \<Rightarrow> 'h pool \<Rightarrow> 'h pool" where
  "shutdown_turn code i seen s =
     (if seen = Svc_starting then caller_at i (Checking (service_state s)) s
      else if seen \<noteq> Svc_running then caller_at i Away s
      else if service_state s = seen then caller_at i (Shutting (stop_actions code)) (s\<lparr>service_state := Svc_stopping\<rparr>)
      else caller_at i (Checking (service_state s)) s)"

text \<open>
  \<open>join\<close> waits for a thread that has not finished, and fails for one that is joined; \<open>clear\<close> destroys the thread
  objects.
\<close>

definition join_next :: "nat \<Rightarrow> nat \<Rightarrow> 'h pool \<Rightarrow> 'h pool option" where
  "join_next i k s =
     (if k < length (service_threads s)
      then case snd (service_threads s ! k) of
          Ended \<Rightarrow> Some (caller_at i (Joining (Suc k)) (thread_at k Joined s))
        | Joined \<Rightarrow> Some (s\<lparr>terminated := True\<rparr>)
        | _ \<Rightarrow> None
      else Some (caller_at i Finishing (s\<lparr>service_threads := [],
             terminated := terminated s \<or> (\<exists>w \<in> snd ` set (service_threads s). w \<noteq> Joined)\<rparr>)))"

fun caller_goes :: "service_code \<Rightarrow> nat \<Rightarrow> service_pc \<Rightarrow> 'h pool \<Rightarrow> 'h pool option" where
  "caller_goes code i Away s = None"
| "caller_goes code i (Preparing (a # as)) s = Some (caller_at i (Preparing as) (run_action a s))"
| "caller_goes code i (Preparing []) s = Some (caller_at i (Creating (thread_plan code (count s))) s)"
| "caller_goes code i (Creating (c # cs)) s =
     Some (caller_at i (Creating cs) (s\<lparr>service_threads := service_threads s @ [(c, Serving)]\<rparr>))"
| "caller_goes code i (Creating []) s = Some (caller_at i Started (s\<lparr>service_state := Svc_running\<rparr>))"
| "caller_goes code i Started s = Some (caller_at i Away s)"
| "caller_goes code i (Checking seen) s = Some (shutdown_turn code i seen s)"
| "caller_goes code i (Shutting (a # as)) s = Some (caller_at i (Shutting as) (run_action a s))"
| "caller_goes code i (Shutting []) s = Some (caller_at i (Joining 0) s)"
| "caller_goes code i (Joining k) s = join_next i k s"
| "caller_goes code i Finishing s = Some (caller_at i Away (s\<lparr>service_state := Svc_stopped\<rparr>))"

text \<open>
  A service thread: while its context is not stopped, \<open>run()\<close> takes handlers; once it is stopped, \<open>run()\<close> returns after
  the handler it is in.  A handler that throws a \<open>std::exception\<close> ends like one that returns: the loop calls \<open>run()\<close>
  again.
\<close>

fun thread_goes :: "'h service_thread \<Rightarrow> bool \<Rightarrow> 'h service_thread \<Rightarrow> bool" where
  "thread_goes Serving halted (Handling h) = (\<not> halted)"
| "thread_goes (Handling h) halted (Handling h') = True"
| "thread_goes (Handling h) halted Serving = True"
| "thread_goes Serving halted Ended = halted"
| "thread_goes _ _ _ = False"

datatype 'h pool_move =
    Starts nat                       \<comment> \<open>\<open>start_service()\<close> is called\<close>
  | Shuts nat                        \<comment> \<open>\<open>shutdown()\<close> is called\<close>
  | Goes nat                         \<comment> \<open>the application thread goes on\<close>
  | Fails_spuriously nat             \<comment> \<open>the compare-exchange of \<open>shutdown\<close>\<close>
  | Sets_count nat
  | Thread nat "'h service_thread"   \<comment> \<open>a service thread goes on\<close>

fun pool_moved :: "service_code \<Rightarrow> 'h pool_move \<Rightarrow> 'h pool \<Rightarrow> 'h pool option" where
  "pool_moved code (Starts i) s =
     (if i < length (callers s) \<and> callers s ! i = Away then Some (start_swap code i s) else None)"
| "pool_moved code (Shuts i) s =
     (if i < length (callers s) \<and> callers s ! i = Away then Some (caller_at i (Checking (service_state s)) s) else None)"
| "pool_moved code (Goes i) s = (if i < length (callers s) then caller_goes code i (callers s ! i) s else None)"
| "pool_moved code (Fails_spuriously i) s =
     (if i < length (callers s) \<and> callers s ! i = Checking Svc_running then Some (caller_at i (Checking (service_state s)) s)
      else None)"
| "pool_moved code (Sets_count n) s = Some (s\<lparr>thread_count := counted code n\<rparr>)"
| "pool_moved code (Thread k w) s =
     (if k < length (service_threads s)
         \<and> thread_goes (snd (service_threads s ! k)) (stopped s (fst (service_threads s ! k))) w
      then Some (thread_at k w s) else None)"

text \<open>What the pool does on its own: not the return of \<open>start_service\<close>, nor a handler.\<close>

fun pool_alone :: "'h pool_move \<Rightarrow> 'h pool \<Rightarrow> bool" where
  "pool_alone (Goes i) p \<longleftrightarrow> callers p ! i \<noteq> Started"
| "pool_alone (Thread k w) p \<longleftrightarrow> w = Ended"
| "pool_alone m p \<longleftrightarrow> True"

inductive pool_step :: "service_code \<Rightarrow> 'h pool \<Rightarrow> 'h pool \<Rightarrow> bool" for code where
  move: "pool_moved code m s = Some t \<Longrightarrow> pool_step code s t"

inductive_cases pool_stepE: "pool_step code s t"

fun pool_schedule :: "service_code \<Rightarrow> 'h pool_move list \<Rightarrow> 'h pool \<Rightarrow> 'h pool option" where
  "pool_schedule code [] s = Some s"
| "pool_schedule code (m # ms) s = (case pool_moved code m s of None \<Rightarrow> None | Some t \<Rightarrow> pool_schedule code ms t)"

lemma pool_schedule_steps: "pool_schedule code ms s = Some t \<Longrightarrow> (pool_step code)\<^sup>*\<^sup>* s t"
proof (induction ms arbitrary: s)
  case (Cons m ms)
  then obtain u where "pool_moved code m s = Some u" "pool_schedule code ms u = Some t"
    by (auto simp del: pool_moved.simps split: option.splits)
  with Cons.IH show ?case by (meson converse_rtranclp_into_rtranclp pool_step.move)
qed simp

lemma pool_schedule_reaches: "pool_schedule code ms (pool_init n) = Some t \<Longrightarrow> reachable (pool_init n) (pool_step code) t"
  by (rule steps_reachable [OF pool_schedule_steps reachable.start])

text \<open>Everything a schedule evaluates.\<close>

lemmas run_pool_defs = pool_init_def http_code_def stream_code_def start_swap_def shutdown_turn_def join_next_def
  caller_at_def thread_at_def eval_nat_numeral

section \<open>One owner of the threads\<close>

fun owner_pc :: "service_pc \<Rightarrow> bool" where
  "owner_pc (Preparing as) = True"
| "owner_pc (Creating cs) = True"
| "owner_pc (Shutting as) = True"
| "owner_pc (Joining k) = True"
| "owner_pc Finishing = True"
| "owner_pc _ = False"

definition owns_service :: "'h pool \<Rightarrow> nat \<Rightarrow> bool" where
  "owns_service s i \<longleftrightarrow> i < length (callers s) \<and> owner_pc (callers s ! i)"

definition service_taken :: "'h pool \<Rightarrow> bool" where
  "service_taken s \<longleftrightarrow> service_state s = Svc_starting \<or> service_state s = Svc_stopping"

lemma caller_at_simps [simp]:
  "callers (caller_at i pc s) = (callers s)[i := pc]" "service_state (caller_at i pc s) = service_state s"
  "service_threads (caller_at i pc s) = service_threads s" "stopped (caller_at i pc s) = stopped s"
  "count (caller_at i pc s) = count s" "thread_count (caller_at i pc s) = thread_count s"
  "terminated (caller_at i pc s) = terminated s" "inline_callbacks (caller_at i pc s) = inline_callbacks s"
  "service_epoch (caller_at i pc s) = service_epoch s" "bumps (caller_at i pc s) = bumps s"
  by (simp_all add: caller_at_def)

lemma thread_at_simps [simp]:
  "callers (thread_at k w s) = callers s" "service_state (thread_at k w s) = service_state s"
  "service_threads (thread_at k w s) = (service_threads s)[k := (fst (service_threads s ! k), w)]"
  "stopped (thread_at k w s) = stopped s" "count (thread_at k w s) = count s" "thread_count (thread_at k w s) = thread_count s"
  "terminated (thread_at k w s) = terminated s" "inline_callbacks (thread_at k w s) = inline_callbacks s"
  "service_epoch (thread_at k w s) = service_epoch s" "bumps (thread_at k w s) = bumps s"
  by (simp_all add: thread_at_def)

lemma run_action_simps [simp]:
  "callers (run_action a s) = callers s" "service_state (run_action a s) = service_state s"
  "service_threads (run_action a s) = service_threads s" "thread_count (run_action a s) = thread_count s"
  "terminated (run_action a s) = terminated s"
  by (cases a; simp)+

lemma owns_caller_at: "i < length (callers s) \<Longrightarrow> owns_service (caller_at i pc s) = (owns_service s)(i := owner_pc pc)"
  by (auto simp: owns_service_def fun_eq_iff nth_list_update)

lemma owns_cong: "callers t = callers s \<Longrightarrow> owns_service t = owns_service s"
  by (simp add: owns_service_def fun_eq_iff)

lemma service_taken_simps [simp]:
  "service_taken (caller_at i pc s) = service_taken s" "service_taken (thread_at k w s) = service_taken s"
  "service_taken (run_action a s) = service_taken s" "service_taken (s\<lparr>service_threads := ws\<rparr>) = service_taken s"
  "service_taken (s\<lparr>service_threads := ws, terminated := b\<rparr>) = service_taken s"
  "service_taken (s\<lparr>service_state := x\<rparr>) \<longleftrightarrow> x = Svc_starting \<or> x = Svc_stopping"
  by (simp_all add: service_taken_def)

lemma service_free: "service_state s = Svc_stopped \<Longrightarrow> \<not> service_taken s" "service_state s = Svc_running \<Longrightarrow> \<not> service_taken s"
  by (simp_all add: service_taken_def)

text \<open>An application thread goes from one place to another.\<close>

definition owner_moves :: "'h pool \<Rightarrow> 'h pool \<Rightarrow> bool" where
  "owner_moves s t \<longleftrightarrow> owner_change (owns_service s) (service_taken s) (owns_service t) (service_taken t)"

lemma owner_moves_caller:
  assumes "i < length (callers s)" "callers u = callers s"
    and "owner_pc (callers s ! i) = owner_pc pc \<and> service_taken u = service_taken s
      \<or> \<not> service_taken s \<and> service_taken u \<and> owner_pc pc \<or> owner_pc (callers s ! i) \<and> \<not> service_taken u \<and> \<not> owner_pc pc"
  shows "owner_moves s (caller_at i pc u)"
proof -
  have "owns_service (caller_at i pc u) = (owns_service s)(i := owner_pc pc)"
    using owns_caller_at [of i u pc] owns_cong [of u s] assms(1,2) by simp
  moreover have "owns_service s i = owner_pc (callers s ! i)" using assms(1) by (simp add: owns_service_def)
  ultimately show ?thesis using assms(3) unfolding owner_moves_def owner_change_def by (auto simp: fun_upd_idem_iff)
qed

lemma owner_moves_same: "callers t = callers s \<Longrightarrow> service_state t = service_state s \<Longrightarrow> owner_moves s t"
  by (simp add: owner_moves_def owner_change_def owns_cong [of t s] service_taken_def)

lemma caller_goes_owner:
  assumes "caller_goes code i (callers s ! i) s = Some t" "i < length (callers s)"
  shows "owner_moves s t"
proof (cases "callers s ! i")
  case (Preparing as)
  then show ?thesis using assms by (cases as) (auto intro!: owner_moves_caller)
next
  case (Creating cs)
  then show ?thesis using assms by (cases cs) (auto intro!: owner_moves_caller)
next
  case (Shutting as)
  then show ?thesis using assms by (cases as) (auto intro!: owner_moves_caller)
next
  case (Joining k)
  then show ?thesis using assms
    by (auto intro!: owner_moves_caller intro: owner_moves_same simp: join_next_def split: if_splits service_thread.splits)
qed (use assms in \<open>auto intro!: owner_moves_caller simp: shutdown_turn_def service_free\<close>)

lemma pool_moved_owner:
  assumes "pool_moved code m s = Some t"
  shows "owner_moves s t"
  using assms
  by (cases m) (auto intro!: owner_moves_caller intro: owner_moves_same caller_goes_owner
      simp: start_swap_def service_free split: if_splits)

interpretation pool_owner: exclusive_owner "pool_init n" "pool_step code" owns_service service_taken for n code
proof unfold_locales
  show "owner_change (owns_service s) (service_taken s) (owns_service t) (service_taken t)"
    if "pool_step code s t" for s t :: "'a pool"
    using that by (auto elim!: pool_stepE dest: pool_moved_owner simp: owner_moves_def)
qed (auto simp: service_taken_def owns_service_def pool_init_def)

end
