(* ===== verification/Service_Pool_Safety.thy ===== *)
theory Service_Pool_Safety
  imports Service_Pool
begin

text \<open>
  What the owner of \<open>service_threads_\<close> finds and leaves behind: the invariant of the service pool, proved once for every
  \<open>service_code\<close> that restarts and stops the contexts its threads run, and given for \<open>http.cpp\<close> and \<open>http_stream.cpp\<close>.
\<close>

section \<open>The invariant\<close>

definition used_context :: "service_code \<Rightarrow> service_context \<Rightarrow> bool" where
  "used_context code c \<longleftrightarrow> (\<exists>n. c \<in> set (thread_plan code n))"

fun alive :: "'h service_thread \<Rightarrow> bool" where
  "alive Serving = True"
| "alive (Handling h) = True"
| "alive _ = False"

definition threads_of :: "'h pool \<Rightarrow> service_context list" where
  "threads_of s = map fst (service_threads s)"

text \<open>The first threads of the plan are up; \<open>cs\<close> are to come.\<close>

definition threads_up :: "service_code \<Rightarrow> service_context list \<Rightarrow> 'h pool \<Rightarrow> bool" where
  "threads_up code cs s \<longleftrightarrow> threads_of s @ cs = thread_plan code (count s) \<and> (\<forall>w \<in> snd ` set (service_threads s). alive w)
     \<and> (\<forall>c. used_context code c \<longrightarrow> \<not> stopped s c)"

fun owner_ok :: "service_code \<Rightarrow> service_pc \<Rightarrow> 'h pool \<Rightarrow> bool" where
  "owner_ok code (Preparing as) s \<longleftrightarrow> service_state s = Svc_starting \<and> service_threads s = []
     \<and> set as \<subseteq> set (start_actions code) \<and> (\<forall>c. used_context code c \<and> stopped s c \<longrightarrow> Restart c \<in> set as)"
| "owner_ok code (Creating cs) s \<longleftrightarrow> service_state s = Svc_starting \<and> threads_up code cs s"
| "owner_ok code (Shutting as) s \<longleftrightarrow> service_state s = Svc_stopping \<and> threads_of s = thread_plan code (count s)
     \<and> (\<forall>w \<in> snd ` set (service_threads s). w \<noteq> Joined) \<and> set as \<subseteq> set (stop_actions code)
     \<and> (\<forall>c. used_context code c \<and> \<not> stopped s c \<longrightarrow> Stop c \<in> set as)"
| "owner_ok code (Joining k) s \<longleftrightarrow> service_state s = Svc_stopping \<and> threads_of s = thread_plan code (count s)
     \<and> k \<le> length (service_threads s) \<and> (\<forall>j < length (service_threads s). snd (service_threads s ! j) = Joined \<longleftrightarrow> j < k)
     \<and> (\<forall>c. used_context code c \<longrightarrow> stopped s c)"
| "owner_ok code Finishing s \<longleftrightarrow> service_state s = Svc_stopping \<and> service_threads s = []"
| "owner_ok code pc s \<longleftrightarrow> True"

definition free_ok :: "service_code \<Rightarrow> 'h pool \<Rightarrow> bool" where
  "free_ok code s \<longleftrightarrow> (service_state s = Svc_stopped \<longrightarrow> service_threads s = [])
     \<and> (service_state s = Svc_running \<longrightarrow> threads_up code [] s)"

definition pool_inv :: "service_code \<Rightarrow> 'h pool \<Rightarrow> bool" where
  "pool_inv code s \<longleftrightarrow> one_owner (owns_service s) (service_taken s)
     \<and> (\<forall>i < length (callers s). owner_ok code (callers s ! i) s) \<and> free_ok code s \<and> \<not> terminated s"

lemma owner_ok_other: "\<not> owner_pc pc \<Longrightarrow> owner_ok code pc s"
  by (cases pc) auto

lemma owner_ok_caller_at [simp]: "owner_ok code pc (caller_at i pc' s) = owner_ok code pc s"
  by (cases pc) (simp_all add: threads_up_def threads_of_def)

lemma free_ok_caller_at [simp]: "free_ok code (caller_at i pc s) = free_ok code s"
  by (simp add: free_ok_def threads_up_def threads_of_def)

lemma owner_ok_count [simp]: "owner_ok code pc (s\<lparr>thread_count := n\<rparr>) = owner_ok code pc s"
  by (cases pc) (simp_all add: threads_up_def threads_of_def)

lemma free_ok_count [simp]: "free_ok code (s\<lparr>thread_count := n\<rparr>) = free_ok code s"
  by (simp add: free_ok_def threads_up_def threads_of_def)

lemma pool_invD:
  assumes "pool_inv code s"
  shows "one_owner (owns_service s) (service_taken s)" "i < length (callers s) \<Longrightarrow> owner_ok code (callers s ! i) s"
    "free_ok code s" "\<not> terminated s"
  using assms by (simp_all add: pool_inv_def)

text \<open>An application thread moves; what it changes concerns only an owner.\<close>

lemma pool_inv_caller:
  assumes inv: "pool_inv code s" and i: "i < length (callers s)" and u: "callers u = callers s"
    and moves: "owner_moves s (caller_at i pc u)"
    and others: "u = s \<or> owner_pc (callers s ! i) \<or> owner_pc pc"
    and ok: "owner_ok code pc u" "free_ok code u" "\<not> terminated u"
  shows "pool_inv code (caller_at i pc u)"
proof -
  have one: "one_owner (owns_service (caller_at i pc u)) (service_taken (caller_at i pc u))"
    using one_owner_change pool_invD(1) [OF inv] moves by (simp only: owner_moves_def)
  have "owner_ok code (callers s ! j) u" if j: "j < length (callers s)" "j \<noteq> i" for j
  proof (cases "owner_pc (callers s ! j)")
    case True
    then have "owns_service s j" "owns_service (caller_at i pc u) j"
      using j u by (simp_all add: owns_service_def)
    then have "\<not> owns_service s i" "\<not> owns_service (caller_at i pc u) i"
      using one pool_invD(1) [OF inv] j(2) by (auto simp: one_owner_def)
    then have "\<not> owner_pc (callers s ! i)" "\<not> owner_pc pc" using i u by (simp_all add: owns_service_def)
    then show ?thesis using others pool_invD(2) [OF inv j(1)] by simp
  qed (rule owner_ok_other)
  then have "owner_ok code (callers (caller_at i pc u) ! j) u" if "j < length (callers s)" for j
    using that ok(1) i u by (cases "j = i") simp_all
  then show ?thesis unfolding pool_inv_def using one ok u by simp
qed

text \<open>The contract of the code between the states.\<close>

locale service_protocol =
  fixes code :: service_code
  assumes restarts: "used_context code c \<Longrightarrow> Restart c \<in> set (start_actions code)"
    and stops: "used_context code c \<Longrightarrow> Stop c \<in> set (stop_actions code)"
    and start_only: "Stop c \<notin> set (start_actions code)"
    and stop_only: "Restart c \<notin> set (stop_actions code)" "Load_count \<notin> set (stop_actions code)"
begin

lemma prepare_ok:
  assumes "owner_ok code (Preparing (a # as)) s"
  shows "owner_ok code (Preparing as) (run_action a s)"
  using assms start_only by (cases a) auto

lemma shut_ok:
  assumes "owner_ok code (Shutting (a # as)) s"
  shows "owner_ok code (Shutting as) (run_action a s)"
  using assms stop_only by (cases a) (auto simp: threads_of_def)

lemma caller_goes_inv:
  assumes inv: "pool_inv code s" and i: "i < length (callers s)" and goes: "caller_goes code i (callers s ! i) s = Some t"
  shows "pool_inv code t"
proof -
  note ok = pool_invD(2) [OF inv i]
  note moves = caller_goes_owner [OF goes i]
  show ?thesis
  proof (cases "callers s ! i")
    case (Preparing as)
    show ?thesis
    proof (cases as)
      case Nil
      then have t: "t = caller_at i (Creating (thread_plan code (count s))) s" using goes Preparing by simp
      moreover have "owner_ok code (Creating (thread_plan code (count s))) s"
        using ok Preparing Nil by (auto simp: threads_up_def threads_of_def)
      ultimately show ?thesis using pool_inv_caller [OF inv i refl] moves pool_invD(3,4) [OF inv] by simp
    next
      case (Cons a as')
      then have t: "t = caller_at i (Preparing as') (run_action a s)" using goes Preparing by simp
      have "owner_ok code (Preparing as') (run_action a s)" using ok unfolding Preparing Cons by (rule prepare_ok)
      moreover from this have "free_ok code (run_action a s)" by (simp add: free_ok_def)
      ultimately show ?thesis
        using pool_inv_caller [OF inv i, of "run_action a s"] moves pool_invD(4) [OF inv] Preparing t by simp
    qed
  next
    case (Creating cs)
    show ?thesis
    proof (cases cs)
      case Nil
      let ?u = "s\<lparr>service_state := Svc_running\<rparr>"
      have t: "t = caller_at i Started ?u" using goes Creating Nil by simp
      have "free_ok code ?u" using ok Creating Nil by (simp add: free_ok_def threads_up_def threads_of_def)
      then show ?thesis using pool_inv_caller [OF inv i, of ?u] moves pool_invD(4) [OF inv] Creating t by simp
    next
      case (Cons c cs')
      let ?u = "s\<lparr>service_threads := service_threads s @ [(c, Serving)]\<rparr>"
      have t: "t = caller_at i (Creating cs') ?u" using goes Creating Cons by simp
      have "owner_ok code (Creating cs') ?u" using ok Creating Cons by (auto simp: threads_up_def threads_of_def)
      moreover from this have "free_ok code ?u" by (simp add: free_ok_def)
      ultimately show ?thesis using pool_inv_caller [OF inv i, of ?u] moves pool_invD(4) [OF inv] Creating t by simp
    qed
  next
    case (Checking seen)
    show ?thesis
    proof (cases "seen = Svc_running \<and> service_state s = Svc_running")
      case True
      let ?u = "s\<lparr>service_state := Svc_stopping\<rparr>"
      have t: "t = caller_at i (Shutting (stop_actions code)) ?u"
        using goes Checking True by (simp add: shutdown_turn_def)
      have "threads_up code [] s" using pool_invD(3) [OF inv] True by (simp add: free_ok_def)
      then have "owner_ok code (Shutting (stop_actions code)) ?u"
        using stops by (auto simp: threads_up_def threads_of_def)
      moreover from this have "free_ok code ?u" by (simp add: free_ok_def)
      ultimately show ?thesis
        using pool_inv_caller [OF inv i, of ?u] moves pool_invD(4) [OF inv] t by (simp del: owner_ok.simps)
    next
      case False
      then obtain pc where "t = caller_at i pc s" "\<not> owner_pc pc"
        using goes Checking by (auto simp: shutdown_turn_def split: if_splits)
      then show ?thesis
        using pool_inv_caller [OF inv i refl] moves pool_invD(3,4) [OF inv] owner_ok_other by blast
    qed
  next
    case (Shutting as)
    show ?thesis
    proof (cases as)
      case Nil
      have t: "t = caller_at i (Joining 0) s" using goes Shutting Nil by simp
      have "owner_ok code (Joining 0) s" using ok Shutting Nil by auto
      then show ?thesis using pool_inv_caller [OF inv i refl] moves pool_invD(3,4) [OF inv] t by (simp del: owner_ok.simps)
    next
      case (Cons a as')
      have t: "t = caller_at i (Shutting as') (run_action a s)" using goes Shutting Cons by simp
      have "owner_ok code (Shutting as') (run_action a s)" using ok unfolding Shutting Cons by (rule shut_ok)
      moreover from this have "free_ok code (run_action a s)" by (simp add: free_ok_def)
      ultimately show ?thesis
        using pool_inv_caller [OF inv i, of "run_action a s"] moves pool_invD(4) [OF inv] Shutting t
        by (simp del: owner_ok.simps)
    qed
  next
    case (Joining k)
    note ok' = ok [unfolded Joining, simplified]
    show ?thesis
    proof (cases "k < length (service_threads s)")
      case True
      then have "snd (service_threads s ! k) \<noteq> Joined" using ok' by simp
      then have ended: "snd (service_threads s ! k) = Ended" and t: "t = caller_at i (Joining (Suc k)) (thread_at k Joined s)"
        using goes Joining True by (simp_all add: join_next_def split: service_thread.splits)
      have "threads_of (thread_at k Joined s) = threads_of s" using True by (simp add: threads_of_def map_update list_update_same_conv)
      then have "owner_ok code (Joining (Suc k)) (thread_at k Joined s)"
        using ok' True by (auto simp: nth_list_update)
      moreover from this have "free_ok code (thread_at k Joined s)" by (simp add: free_ok_def)
      ultimately show ?thesis
        using pool_inv_caller [OF inv i, of "thread_at k Joined s"] moves pool_invD(4) [OF inv] Joining t
        by (simp del: owner_ok.simps)
    next
      case False
      then have "k = length (service_threads s)" using ok' by simp
      then have joined: "\<not> (\<exists>w \<in> snd ` set (service_threads s). w \<noteq> Joined)" using ok' by (auto simp: in_set_conv_nth) (metis snd_conv)
      let ?u = "s\<lparr>service_threads := [], terminated := terminated s \<or> (\<exists>w \<in> snd ` set (service_threads s). w \<noteq> Joined)\<rparr>"
      have t: "t = caller_at i Finishing ?u" using goes Joining False by (simp add: join_next_def)
      have "owner_ok code Finishing ?u" "free_ok code ?u" "\<not> terminated ?u"
        using ok' joined pool_invD(4) [OF inv] by (simp_all add: free_ok_def)
      then show ?thesis using pool_inv_caller [OF inv i, of ?u] moves Joining t by (simp del: owner_ok.simps)
    qed
  next
    case Finishing
    let ?u = "s\<lparr>service_state := Svc_stopped\<rparr>"
    have t: "t = caller_at i Away ?u" using goes Finishing by simp
    have "free_ok code ?u" using ok Finishing by (simp add: free_ok_def)
    then show ?thesis using pool_inv_caller [OF inv i, of ?u] moves pool_invD(4) [OF inv] Finishing t by simp
  qed (use goes moves pool_inv_caller [OF inv i refl] pool_invD(3,4) [OF inv] in auto)
qed

text \<open>A service thread moves.\<close>

lemma thread_goes_alive: "thread_goes w halted w' \<Longrightarrow> (w \<noteq> Joined \<and> w' \<noteq> Joined) \<and> (alive w \<and> \<not> halted \<longrightarrow> alive w')"
  by (cases w; cases w') auto

lemma threads_of_thread_at [simp]: "k < length (service_threads s) \<Longrightarrow> threads_of (thread_at k w s) = threads_of s"
  by (simp add: threads_of_def map_update list_update_same_conv)

lemma thread_moves_up:
  assumes up: "threads_up code cs s" and k: "k < length (service_threads s)"
    and goes: "thread_goes (snd (service_threads s ! k)) (stopped s (fst (service_threads s ! k))) w"
  shows "threads_up code cs (thread_at k w s)"
proof -
  have "fst (service_threads s ! k) \<in> set (threads_of s)" using k by (simp add: threads_of_def)
  moreover have "set (threads_of s) \<subseteq> set (thread_plan code (count s))" using up
    by (metis threads_up_def set_append Un_upper1)
  ultimately have "\<not> stopped s (fst (service_threads s ! k))" using up by (auto simp: threads_up_def used_context_def)
  moreover have "alive (snd (service_threads s ! k))" using up k by (auto simp: threads_up_def)
  ultimately have "alive w" using thread_goes_alive [OF goes] by simp
  then show ?thesis using up k by (auto simp: threads_up_def dest!: set_update_subset_insert [THEN subsetD])
qed

lemma thread_moves_ok:
  assumes ok: "owner_ok code pc s" and k: "k < length (service_threads s)"
    and goes: "thread_goes (snd (service_threads s ! k)) (stopped s (fst (service_threads s ! k))) w"
  shows "owner_ok code pc (thread_at k w s)"
proof (cases pc)
  case (Creating cs)
  then show ?thesis using ok thread_moves_up [OF _ k goes] by simp
next
  case (Shutting as)
  then show ?thesis using ok k thread_goes_alive [OF goes]
    by (auto dest!: set_update_subset_insert [THEN subsetD])
next
  case (Joining n)
  then show ?thesis using ok k thread_goes_alive [OF goes] by (auto simp: nth_list_update)
qed (use ok k in auto)

lemma pool_inv_moved:
  assumes inv: "pool_inv code s" and moved: "pool_moved code m s = Some t"
  shows "pool_inv code t"
proof (cases m)
  case (Starts i)
  then have i: "i < length (callers s)" using moved by (simp split: if_splits)
  note moves = pool_moved_owner [OF moved]
  show ?thesis
  proof (cases "service_state s = Svc_stopped")
    case True
    let ?u = "s\<lparr>service_state := Svc_starting\<rparr>"
    have t: "t = caller_at i (Preparing (start_actions code)) ?u"
      using moved Starts True by (simp add: start_swap_def split: if_splits)
    have "owner_ok code (Preparing (start_actions code)) ?u"
      using pool_invD(3) [OF inv] True restarts by (simp add: free_ok_def)
    moreover from this have "free_ok code ?u" by (simp add: free_ok_def)
    ultimately show ?thesis
      using pool_inv_caller [OF inv i, of ?u] moves pool_invD(4) [OF inv] t by (simp del: owner_ok.simps)
  next
    case False
    then have "t = caller_at i Started s" using moved Starts by (simp add: start_swap_def split: if_splits)
    then show ?thesis using pool_inv_caller [OF inv i refl] moves pool_invD(3,4) [OF inv] by simp
  qed
next
  case (Goes i)
  then show ?thesis using moved caller_goes_inv [OF inv] by (simp split: if_splits)
next
  case (Thread k w)
  then have k: "k < length (service_threads s)" and t: "t = thread_at k w s"
    and goes: "thread_goes (snd (service_threads s ! k)) (stopped s (fst (service_threads s ! k))) w"
    using moved by (simp_all split: if_splits)
  have "one_owner (owns_service t) (service_taken t)"
    using pool_invD(1) [OF inv] t owns_cong [of t s] by simp
  moreover have "free_ok code t"
    using pool_invD(3) [OF inv] thread_moves_up [OF _ k goes] k t by (auto simp: free_ok_def)
  ultimately show ?thesis
    using pool_invD(2,4) [OF inv] thread_moves_ok [OF _ k goes] t by (simp add: pool_inv_def)
next
  case (Sets_count n)
  then have t: "t = s\<lparr>thread_count := counted code n\<rparr>" using moved by simp
  then have "one_owner (owns_service t) (service_taken t)"
    using pool_invD(1) [OF inv] owns_cong [of t s] by (simp add: service_taken_def)
  then show ?thesis using inv t by (simp add: pool_inv_def)
qed (use moved pool_moved_owner [OF moved] pool_invD(3,4) [OF inv] in
    \<open>auto intro!: pool_inv_caller [OF inv] split: if_splits\<close>)

lemma pool_inv_init: "pool_inv code (pool_init n)"
proof -
  have "one_owner (owns_service (pool_init n)) (service_taken (pool_init n))"
    by (auto simp: one_owner_def owns_service_def service_taken_def pool_init_def)
  then show ?thesis by (simp add: pool_inv_def pool_init_def free_ok_def)
qed

sublocale inductive_invariant "pool_init n" "pool_step code" "pool_inv code" for n
  by unfold_locales (auto elim!: pool_stepE intro: pool_inv_init pool_inv_moved)

end

interpretation http_pool: service_protocol http_code
proof unfold_locales
  show "Restart c \<in> set (start_actions http_code)" "Stop c \<in> set (stop_actions http_code)" for c
    by (cases c; simp add: http_code_def)+
qed (simp_all add: http_code_def)

interpretation stream_pool: service_protocol stream_code
proof unfold_locales
  have used: "c = Io_context" if "used_context stream_code c" for c
    using that by (auto simp: used_context_def stream_code_def)
  show "Restart c \<in> set (start_actions stream_code)" "Stop c \<in> set (stop_actions stream_code)"
    if "used_context stream_code c" for c
    using used [OF that] by (simp_all add: stream_code_def)
qed (simp_all add: stream_code_def)

end
