(* ===== verification/Service_Pool_Ends.thy ===== *)
theory Service_Pool_Ends
  imports Service_Pool_Safety
begin

text \<open>
  A start or a shutdown that has begun ends: the steps of the owner and of the service threads come to rest, and then
  the service is running with the planned threads or stopped without any.  And what is counted over the handlers that
  run changes only with them.
\<close>

section \<open>The measure\<close>

fun thread_weight :: "'h service_thread \<Rightarrow> nat" where
  "thread_weight (Handling h) = 2"
| "thread_weight Serving = 1"
| "thread_weight _ = 0"

definition threads_weight :: "'h pool \<Rightarrow> nat" where
  "threads_weight s = sum_list (map (thread_weight \<circ> snd) (service_threads s))"

text \<open>The threads a start will create; the count is still to be loaded while \<^const>\<open>Load_count\<close> is to be done.\<close>

definition planned :: "service_code \<Rightarrow> service_action list \<Rightarrow> 'h pool \<Rightarrow> nat" where
  "planned code as s = length (thread_plan code (if Load_count \<in> set as then thread_count s else count s))"

fun owner_weight :: "service_code \<Rightarrow> 'h pool \<Rightarrow> service_pc \<Rightarrow> nat" where
  "owner_weight code s (Preparing as) = length as + 2 * planned code as s + 2"
| "owner_weight code s (Creating cs) = 2 * length cs + 1"
| "owner_weight code s (Shutting as) = length as + length (service_threads s) + 4"
| "owner_weight code s (Joining k) = length (service_threads s) - k + 3"
| "owner_weight code s Finishing = 1"
| "owner_weight code s pc = 0"

definition pool_weight :: "service_code \<Rightarrow> 'h pool \<Rightarrow> nat" where
  "pool_weight code s = sum_list (map (owner_weight code s) (callers s)) + threads_weight s"

lemma owner_weight_other: "\<not> owner_pc pc \<Longrightarrow> owner_weight code s pc = 0"
  by (cases pc) simp_all

lemma sum_list_one:
  fixes f :: "'a \<Rightarrow> nat"
  assumes "i < length xs" "\<And>j. j < length xs \<Longrightarrow> j \<noteq> i \<Longrightarrow> f (xs ! j) = 0"
  shows "sum_list (map f xs) = f (xs ! i)"
proof -
  have "sum_list (map f xs) = (\<Sum>j<length xs. f (xs ! j))" by (simp add: sum_list_sum_nth atLeast0LessThan)
  also have "\<dots> = f (xs ! i)" using assms by (subst sum.remove [of _ i]) auto
  finally show ?thesis .
qed

text \<open>A quantity summed over the handlers that run; what the pool does alone does not change it.\<close>

definition pool_sum :: "('h service_thread \<Rightarrow> nat) \<Rightarrow> 'h pool \<Rightarrow> nat" where
  "pool_sum f s = sum_list (map (f \<circ> snd) (service_threads s))"

lemma pool_sum_caller_at [simp]: "pool_sum f (caller_at i pc s) = pool_sum f s"
  by (simp add: pool_sum_def)

lemma pool_sum_run_action [simp]: "pool_sum f (run_action a s) = pool_sum f s"
  by (simp add: pool_sum_def)

lemma pool_sum_thread_at:
  assumes "k < length (service_threads s)"
  shows "pool_sum f (thread_at k w s) + f (snd (service_threads s ! k)) = pool_sum f s + f w"
  using sum_list_upd [OF assms, of "f \<circ> snd" "(fst (service_threads s ! k), w)"] by (simp add: pool_sum_def)

text \<open>The owner alone counts.\<close>

lemma pool_weight_owner:
  assumes "one_owner (owns_service s) taken" "i < length (callers s)" "owner_pc (callers s ! i)"
  shows "pool_weight code s = owner_weight code s (callers s ! i) + threads_weight s"
proof -
  have "\<not> owner_pc (callers s ! j)" if "j < length (callers s)" "j \<noteq> i" for j
    using assms that by (auto simp: one_owner_def owns_service_def)
  then have "sum_list (map (owner_weight code s) (callers s)) = owner_weight code s (callers s ! i)"
    using assms(2) by (intro sum_list_one) (auto intro: owner_weight_other)
  then show ?thesis by (simp add: pool_weight_def)
qed

lemma pool_weight_free:
  assumes "one_owner (owns_service s) False"
  shows "pool_weight code s = threads_weight s"
proof -
  have "\<forall>pc \<in> set (callers s). owner_weight code s pc = 0"
    using assms by (auto simp: one_owner_def owns_service_def in_set_conv_nth intro!: owner_weight_other)
  then show ?thesis by (simp add: pool_weight_def)
qed

section \<open>Steps of the owner and of the service threads\<close>

definition pool_internal :: "service_code \<Rightarrow> 'h pool \<Rightarrow> 'h pool \<Rightarrow> bool" where
  "pool_internal code s t \<longleftrightarrow> (\<exists>i. owns_service s i \<and> pool_moved code (Goes i) s = Some t)
     \<or> (\<exists>k. pool_moved code (Thread k Serving) s = Some t \<or> pool_moved code (Thread k Ended) s = Some t)"

context service_protocol
begin

lemma owner_goes_less:
  assumes inv: "pool_inv code s" and own: "owns_service s i" and goes: "pool_moved code (Goes i) s = Some t"
  shows "pool_weight code t < pool_weight code s"
proof -
  have i: "i < length (callers s)" "owner_pc (callers s ! i)" using own by (simp_all add: owns_service_def)
  have goes: "caller_goes code i (callers s ! i) s = Some t" and moved: "pool_moved code (Goes i) s = Some t"
    using goes i by simp_all
  note ws = pool_weight_owner [OF pool_invD(1) [OF inv] i, of code]
  have t: "one_owner (owns_service t) (service_taken t)" using pool_inv_moved [OF inv moved] pool_invD(1) by blast
  have wt: "pool_weight code t = owner_weight code t (callers t ! i) + threads_weight t" if "i < length (callers t)"
  proof (cases "owner_pc (callers t ! i)")
    case False
    then have "\<not> owns_service t j" for j
      using pool_moved_owner [OF moved] pool_invD(1) [OF inv] own
      by (cases "j = i") (auto simp: owner_moves_def owner_change_def one_owner_def owns_service_def fun_eq_iff split: if_splits)
    then have "one_owner (owns_service t) False" by (simp add: one_owner_def)
    then show ?thesis using pool_weight_free [of t code] False by (simp add: owner_weight_other)
  qed (use that pool_weight_owner [OF t] in simp)
  note ok = pool_invD(2) [OF inv i(1)]
  show ?thesis
  proof (cases "callers s ! i")
    case (Preparing as)
    show ?thesis
    proof (cases as)
      case Nil
      then show ?thesis using ws wt goes Preparing i by (auto simp: planned_def threads_weight_def)
    next
      case (Cons a as')
      have "planned code as' (run_action a s) = planned code as s" if "a = Load_count"
        using Cons that by (auto simp: planned_def)
      moreover have "planned code as' (run_action a s) = planned code as s" if "a \<noteq> Load_count"
        using Cons that by (cases a) (auto simp: planned_def)
      ultimately have "planned code as' (run_action a s) = planned code as s" by blast
      moreover have "planned code as' (caller_at i pc (run_action a s)) = planned code as' (run_action a s)" for pc
        by (simp add: planned_def)
      ultimately show ?thesis using ws wt goes Preparing Cons i by (auto simp: threads_weight_def)
    qed
  next
    case (Creating cs)
    then show ?thesis using ws wt goes i by (cases cs) (auto simp: threads_weight_def)
  next
    case (Shutting as)
    then show ?thesis using ws wt goes i by (cases as) (auto simp: threads_weight_def)
  next
    case (Joining k)
    then have "\<not> (k < length (service_threads s) \<and> snd (service_threads s ! k) = Joined)" using ok by simp
    then show ?thesis using ws wt goes i Joining sum_list_upd [of k "service_threads s" "thread_weight \<circ> snd"]
      by (auto simp: threads_weight_def join_next_def split: if_splits service_thread.splits)
  next
    case Finishing
    then show ?thesis using ws wt goes i by (auto simp: threads_weight_def)
  qed (use i in auto)
qed

lemma thread_goes_less:
  assumes "pool_moved code (Thread k w) s = Some t" "w = Serving \<or> w = Ended"
  shows "pool_weight code t < pool_weight code s"
proof -
  have k: "k < length (service_threads s)" and t: "t = thread_at k w s"
    and goes: "thread_goes (snd (service_threads s ! k)) (stopped s (fst (service_threads s ! k))) w"
    using assms by (simp_all split: if_splits)
  have "owner_weight code t pc = owner_weight code s pc" for pc
    using t by (cases pc) (simp_all add: planned_def)
  then have "sum_list (map (owner_weight code t) (callers t)) = sum_list (map (owner_weight code s) (callers s))"
    using t by (simp cong: map_cong)
  moreover have "thread_weight w < thread_weight (snd (service_threads s ! k))"
    using goes assms(2) by (cases "snd (service_threads s ! k)") auto
  ultimately show ?thesis using sum_list_upd [OF k, of "thread_weight \<circ> snd" "(fst (service_threads s ! k), w)"] t
    by (simp add: pool_weight_def threads_weight_def)
qed

sublocale rest: comes_to_rest "pool_init n" "pool_step code" "pool_inv code" "pool_internal code" "pool_weight code" for n
proof unfold_locales
  show "pool_step code s t" if "pool_internal code s t" for s t :: "'a pool"
    using that by (auto simp: pool_internal_def simp del: pool_moved.simps intro: pool_step.move)
  show "pool_weight code t < pool_weight code s" if "pool_inv code s" "pool_internal code s t" for s t :: "'a pool"
    using that unfolding pool_internal_def by (elim disjE exE conjE) (blast intro: owner_goes_less thread_goes_less)+
qed

lemma pool_alone_sum:
  assumes inv: "pool_inv code p" and alone: "pool_alone m p" and moved: "pool_moved code m p = Some q"
    and idle: "f Serving = 0" "f Ended = 0" "f Joined = 0"
  shows "pool_sum f q = pool_sum f p"
proof (cases m)
  case (Goes i)
  then have i: "i < length (callers p)" and goes: "caller_goes code i (callers p ! i) p = Some q"
    using moved by (simp_all split: if_splits)
  show ?thesis
  proof (cases "callers p ! i")
    case (Preparing as)
    then show ?thesis using goes by (cases as) auto
  next
    case (Creating cs)
    then show ?thesis using goes idle by (cases cs) (auto simp: pool_sum_def)
  next
    case (Shutting as)
    then show ?thesis using goes by (cases as) auto
  next
    case (Checking seen)
    then show ?thesis using goes by (auto simp: shutdown_turn_def pool_sum_def)
  next
    case (Joining k)
    have ok: "\<forall>j < length (service_threads p). snd (service_threads p ! j) = Joined \<longleftrightarrow> j < k" "k \<le> length (service_threads p)"
      using pool_invD(2) [OF inv i] Joining by simp_all
    show ?thesis
    proof (cases "k < length (service_threads p)")
      case True
      then have "snd (service_threads p ! k) = Ended" "q = caller_at i (Joining (Suc k)) (thread_at k Joined p)"
        using goes Joining ok by (simp_all add: join_next_def split: service_thread.splits)
      then show ?thesis using pool_sum_thread_at [OF True, of f Joined] idle by simp
    next
      case False
      then have "\<forall>w \<in> set (service_threads p). snd w = Joined" using ok by (auto simp: in_set_conv_nth) (metis snd_conv)
      then have "pool_sum f p = 0" using idle by (simp add: pool_sum_def)
      then show ?thesis using goes Joining False by (auto simp: join_next_def pool_sum_def)
    qed
  qed (use goes in \<open>auto simp: pool_sum_def\<close>)
next
  case (Thread k w)
  then have "w = Ended" "k < length (service_threads p)" "q = thread_at k w p" "f (snd (service_threads p ! k)) = 0"
    using alone moved idle by (cases "snd (service_threads p ! k)"; simp split: if_splits)+
  then show ?thesis using pool_sum_thread_at [of k p f Ended] idle by simp
qed (use moved in \<open>auto simp: start_swap_def pool_sum_def split: if_splits\<close>)

text \<open>Nothing can stop an owner: the thread it waits for can go on.\<close>

lemma owner_can_go:
  assumes inv: "pool_inv code s" and own: "owns_service s i"
  shows "\<exists>t. pool_internal code s t"
proof (cases "\<exists>t. pool_moved code (Goes i) s = Some t")
  case True
  then show ?thesis using own unfolding pool_internal_def by blast
next
  case False
  have i: "i < length (callers s)" "owner_pc (callers s ! i)" using own by (simp_all add: owns_service_def)
  then have stuck: "caller_goes code i (callers s ! i) s = None" using False by simp
  obtain k where pc: "callers s ! i = Joining k"
  proof (cases "callers s ! i")
    case (Preparing as) then show ?thesis using stuck by (cases as) simp_all
  next
    case (Creating cs) then show ?thesis using stuck by (cases cs) simp_all
  next
    case (Shutting as) then show ?thesis using stuck by (cases as) simp_all
  qed (use i stuck that in simp_all)
  then have k: "k < length (service_threads s)" using stuck by (simp add: join_next_def split: if_splits)
  have ok: "threads_of s = thread_plan code (count s)" "\<forall>c. used_context code c \<longrightarrow> stopped s c"
    using pool_invD(2) [OF inv i(1)] pc by simp_all
  have "fst (service_threads s ! k) \<in> set (threads_of s)" using k by (simp add: threads_of_def)
  then have halted: "stopped s (fst (service_threads s ! k))" using ok by (auto simp: used_context_def)
  consider "snd (service_threads s ! k) = Serving" | h where "snd (service_threads s ! k) = Handling h"
    using stuck pc k by (auto simp: join_next_def split: service_thread.splits)
  then show ?thesis
  proof cases
    case 1
    then have "pool_moved code (Thread k Ended) s = Some (thread_at k Ended s)" using k halted by simp
    then show ?thesis unfolding pool_internal_def by blast
  next
    case 2
    then have "pool_moved code (Thread k Serving) s = Some (thread_at k Serving s)" using k by simp
    then show ?thesis unfolding pool_internal_def by blast
  qed
qed

lemma at_rest_free:
  assumes "pool_inv code s" "\<nexists>t. pool_internal code s t"
  shows "service_state s = Svc_stopped \<and> service_threads s = [] \<or> service_state s = Svc_running \<and> threads_up code [] s"
proof -
  have "\<not> service_taken s"
    using pool_invD(1) [OF assms(1)] owner_can_go [OF assms(1)] assms(2) by (auto simp: one_owner_def)
  then show ?thesis using pool_invD(3) [OF assms(1)] by (cases "service_state s") (auto simp: service_taken_def free_ok_def)
qed

end

end
