(* ===== verification/Prelude.thy ===== *)
theory Prelude
  imports Main "HOL-Library.Sublist" "HOL-Library.Word"
begin

text \<open>
  Shared vocabulary of the development: the bytes and the \<open>std::string_view\<close> operations the sources
  use, an outcome that distinguishes a normal return from an exception, and the interface of a
  consumer that is fed its input in pieces.

  Strings are byte strings (\<^typ>\<open>char\<close> is one byte).  \<open>std::string_view::npos\<close> is the value
  \<^term>\<open>None\<close> of an optional position.
\<close>

named_theorems sview_simps \<open>closed forms of the string_view operations\<close>

section \<open>Bytes and string views\<close>

abbreviation LF :: char where "LF \<equiv> CHR 0x0A"
abbreviation CR :: char where "CR \<equiv> CHR 0x0D"
abbreviation SP :: char where "SP \<equiv> CHR 0x20"

text \<open>\<open>find_first_of(set)\<close>: the position of the first byte that is in the set.\<close>

fun find_first_of :: "string \<Rightarrow> string \<Rightarrow> nat option" where
  "find_first_of [] cs = None"
| "find_first_of (x # xs) cs =
     (if x \<in> set cs then Some 0 else map_option Suc (find_first_of xs cs))"

text \<open>\<open>find(ch)\<close> and \<open>find(ch, from)\<close>.\<close>

definition find_char :: "string \<Rightarrow> char \<Rightarrow> nat option" where
  "find_char xs c = find_first_of xs [c]"

definition find_char_from :: "string \<Rightarrow> char \<Rightarrow> nat \<Rightarrow> nat option" where
  "find_char_from xs c from = map_option (\<lambda>i. from + i) (find_char (drop from xs) c)"

text \<open>\<open>find(str)\<close>: the position of the first occurrence of a string.\<close>

fun find_str :: "string \<Rightarrow> string \<Rightarrow> nat option" where
  "find_str [] ys = (if ys = [] then Some 0 else None)"
| "find_str (x # xs) ys =
     (if prefix ys (x # xs) then Some 0 else map_option Suc (find_str xs ys))"

text \<open>\<open>substr(0, pos)\<close> and \<open>substr(pos)\<close> with \<open>pos\<close> possibly \<open>npos\<close>.\<close>

definition substr_to :: "string \<Rightarrow> nat option \<Rightarrow> string" where
  "substr_to xs p = (case p of None \<Rightarrow> xs | Some n \<Rightarrow> take n xs)"

text \<open>\<open>a < b\<close> on positions, where \<open>npos\<close> is the largest value.\<close>

fun pos_less :: "nat option \<Rightarrow> nat option \<Rightarrow> bool" where
  "pos_less None _ = False"
| "pos_less (Some a) None = True"
| "pos_less (Some a) (Some b) = (a < b)"

lemma find_first_of_None_iff [sview_simps]:
  "find_first_of xs cs = None \<longleftrightarrow> set xs \<inter> set cs = {}"
  by (induction xs) auto

lemma find_first_of_skip [sview_simps]:
  "set xs \<inter> set cs = {} \<Longrightarrow> find_first_of (xs @ ys) cs = map_option ((+) (length xs)) (find_first_of ys cs)"
  by (induction xs) (auto simp: option.map_comp comp_def option.map_ident cong: option.map_cong)

lemma find_first_of_SomeD:
  "find_first_of xs cs = Some n \<Longrightarrow>
     n < length xs \<and> xs ! n \<in> set cs \<and> set (take n xs) \<inter> set cs = {}"
proof (induction xs arbitrary: n)
  case (Cons x xs)
  then show ?case by (cases n) (auto split: if_splits)
qed simp

lemma find_first_of_SomeI:
  "n < length xs \<Longrightarrow> xs ! n \<in> set cs \<Longrightarrow> set (take n xs) \<inter> set cs = {} \<Longrightarrow> find_first_of xs cs = Some n"
proof (induction xs arbitrary: n)
  case (Cons x xs)
  then show ?case by (cases n) auto
qed simp

lemma substr_to_first_of:
  "set (substr_to xs (find_first_of xs cs)) \<inter> set cs = {}"
  using find_first_of_SomeD find_first_of_None_iff
  by (fastforce simp: substr_to_def split: option.splits)

lemma set_substr_to: "set (substr_to xs p) \<subseteq> set xs"
  by (auto simp: substr_to_def dest: in_set_takeD split: option.splits)

section \<open>Consumers fed in pieces\<close>

text \<open>
  A consumer takes the next piece of its input, its own state and the state of the callback it
  reports to, and returns whether the callback always returned (an exception ends the call), and
  both new states.  The interface promises that pieces may be joined: feeding two pieces one after
  the other is feeding them at once.  After an exception only the callback's state is promised.
\<close>

type_synonym ('b, 'p, 's) consumer = "'b list \<Rightarrow> 'p \<Rightarrow> 's \<Rightarrow> bool \<times> 'p \<times> 's"

fun feed_pieces :: "('b, 'p, 's) consumer \<Rightarrow> 'b list list \<Rightarrow> 'p \<Rightarrow> 's \<Rightarrow> bool \<times> 'p \<times> 's" where
  "feed_pieces f [] p s = (True, p, s)"
| "feed_pieces f (x # xs) p s =
     (case f x p s of (ok, p', s') \<Rightarrow> if ok then feed_pieces f xs p' s' else (False, p', s'))"

text \<open>Two calls agree when they report the same and, if they returned, left the same state.\<close>

definition same_run :: "bool \<times> 'p \<times> 's \<Rightarrow> bool \<times> 'p \<times> 's \<Rightarrow> bool" where
  "same_run r r' \<longleftrightarrow> fst r = fst r' \<and> snd (snd r) = snd (snd r') \<and> (fst r \<longrightarrow> r = r')"

definition then_run :: "bool \<times> 'p \<times> 's \<Rightarrow> ('p \<Rightarrow> 's \<Rightarrow> bool \<times> 'p \<times> 's) \<Rightarrow> bool \<times> 'p \<times> 's" where
  "then_run r k = (if fst r then k (fst (snd r)) (snd (snd r)) else r)"

lemma same_run_refl [simp]: "same_run r r"
  by (simp add: same_run_def)

lemma same_run_sym: "same_run r r' \<Longrightarrow> same_run r' r"
  unfolding same_run_def by metis

lemma same_run_trans: "same_run a b \<Longrightarrow> same_run b c \<Longrightarrow> same_run a c"
  unfolding same_run_def by metis

lemma then_run_simps [simp]:
  "then_run (True, p, s) k = k p s" "then_run (False, p, s) k = (False, p, s)"
  by (simp_all add: then_run_def)

lemma same_run_then:
  assumes "same_run r r'" and "\<And>p s. same_run (k p s) (k' p s)"
  shows "same_run (then_run r k) (then_run r' k')"
proof (cases "fst r")
  case True
  with assms(1) have "r' = r" by (simp add: same_run_def)
  with True show ?thesis by (simp add: then_run_def assms(2))
next
  case False
  with assms(1) show ?thesis by (simp add: same_run_def then_run_def)
qed

lemma feed_pieces_Cons: "feed_pieces f (x # xs) p s = then_run (f x p s) (feed_pieces f xs)"
  by (simp add: then_run_def split: prod.split)

locale incremental_consumer =
  fixes feed :: "'b list \<Rightarrow> 'p \<Rightarrow> 's \<Rightarrow> bool \<times> 'p \<times> 's"
  assumes feed_none: "feed [] p s = (True, p, s)"
    and feed_join: "same_run (feed (xs @ ys) p s) (then_run (feed xs p s) (feed ys))"
begin

lemma pieces_joined: "same_run (feed_pieces feed xss p s) (feed (concat xss) p s)"
proof (induction xss arbitrary: p s)
  case Nil
  then show ?case by (simp add: feed_none)
next
  case (Cons xs xss)
  have "same_run (feed_pieces feed (xs # xss) p s) (then_run (feed xs p s) (feed (concat xss)))"
    unfolding feed_pieces_Cons by (rule same_run_then [OF same_run_refl Cons.IH])
  moreover have "same_run (then_run (feed xs p s) (feed (concat xss))) (feed (xs @ concat xss) p s)"
    by (rule same_run_sym [OF feed_join])
  ultimately show ?case by (simp add: same_run_trans)
qed

text \<open>However the input is cut, the callback sees the same, and so does the next piece.\<close>

lemma pieces_irrelevant:
  "concat xss = concat yss \<Longrightarrow> same_run (feed_pieces feed xss p s) (feed_pieces feed yss p s)"
  using pieces_joined [of xss p s] pieces_joined [of yss p s] same_run_trans same_run_sym
  by metis

end

end
