(* ===== verification/Url.thy ===== *)
theory Url
  imports Prelude
begin

unbundle bit_operations_syntax

text \<open>
  URL parsing and Host headers: \<open>include/slick/net/detail/url.hpp\<close>, with its two clients
  \<open>parse_url\<close> (\<open>src/utils.hpp\<close>, HTTP) and \<open>parse_websocket_url\<close>
  (\<open>include/slick/net/detail/websocket_impl.hpp\<close>).  \<open>std::invalid_argument\<close> is the left side of a sum.
\<close>

section \<open>Data\<close>

type_synonym u16 = "16 word"

record url_parts =
  url_host :: string
  url_target :: string
  url_port :: u16
  url_use_ssl :: bool

datatype url_error = Invalid_argument string

section \<open>Library functions the code calls\<close>

definition is_digit :: "char \<Rightarrow> bool" where
  "is_digit c \<longleftrightarrow> 48 \<le> (of_char c :: nat) \<and> (of_char c :: nat) \<le> 57"

definition digits_value :: "string \<Rightarrow> nat" where
  "digits_value ds = foldl (\<lambda>n d. 10 * n + (of_char d - 48)) 0 ds"

datatype errc = No_error | Invalid | Result_out_of_range

text \<open>
  \<open>std::from_chars\<close> into a \<open>uint16_t\<close>: the longest prefix of digits (no sign is accepted for an unsigned
  type).  It returns how many bytes it took, the error, and the value, which an error leaves as it was.
\<close>

definition from_chars :: "string \<Rightarrow> u16 \<Rightarrow> nat \<times> errc \<times> u16" where
  "from_chars xs v =
     (let ds = takeWhile is_digit xs in
      if ds = [] then (0, Invalid, v)
      else if 2 ^ 16 \<le> digits_value ds then (length ds, Result_out_of_range, v)
      else (length ds, No_error, of_nat (digits_value ds)))"

text \<open>\<open>std::to_chars\<close> and \<open>std::to_string\<close> of an unsigned integer.\<close>

fun to_chars :: "nat \<Rightarrow> string" where
  "to_chars n = (if n < 10 then [char_of (48 + n)] else to_chars (n div 10) @ [char_of (48 + n mod 10)])"

declare to_chars.simps [simp del]

section \<open>The operations of url.hpp\<close>

definition to_lower :: "char \<Rightarrow> char" where
  "to_lower c = (if 65 \<le> (of_char c :: nat) \<and> (of_char c :: nat) \<le> 90 then char_of (of_char c + (32 :: nat)) else c)"

definition scheme_equals :: "string \<Rightarrow> string \<Rightarrow> bool" where
  "scheme_equals scheme expected =
     (if length scheme \<noteq> length expected then False
      else list_all (\<lambda>i. to_lower (scheme ! i) = expected ! i) [0..<length scheme])"

definition quoted :: "string \<Rightarrow> string" where
  "quoted xs = CHR 0x27 # xs @ [CHR 0x27]"

definition unsupported_scheme :: "string \<Rightarrow> string \<Rightarrow> string \<Rightarrow> url_error" where
  "unsupported_scheme scheme plain secure = Invalid_argument
     (''Unsupported URL scheme '' @ quoted scheme @ '', expected '' @ quoted plain @ '' or '' @ quoted secure)"

text \<open>The scheme: whether TLS is used, and the URL after it.\<close>

definition parse_scheme :: "string \<Rightarrow> string \<Rightarrow> string \<Rightarrow> url_error + bool \<times> string" where
  "parse_scheme url plain secure =
     (case find_str url ''://'' of
        Some pos \<Rightarrow>
          if pos_less (Some pos) (find_first_of url ''/?#'')
          then
            let scheme = take pos url; use_ssl = scheme_equals scheme secure in
            if \<not> use_ssl \<and> \<not> scheme_equals scheme plain
            then Inl (unsupported_scheme scheme plain secure)
            else Inr (use_ssl, drop (pos + 3) url)
          else Inr (True, url)
      | None \<Rightarrow> Inr (True, url))"

text \<open>The host and the port text of an authority.\<close>

definition parse_authority :: "string \<Rightarrow> url_error + string \<times> string" where
  "parse_authority authority =
     (if authority \<noteq> [] \<and> hd authority = CHR ''[''
      then
        (case find_char authority (CHR '']'') of
           None \<Rightarrow> Inl (Invalid_argument (''Invalid IPv6 literal in URL authority: '' @ authority))
         | Some close \<Rightarrow>
             if close + 1 < length authority \<and> authority ! (close + 1) \<noteq> CHR '':''
             then Inl (Invalid_argument (''Invalid IPv6 literal in URL authority: '' @ authority))
             else Inr (take (close - 1) (drop 1 authority),
                       if close + 1 < length authority then drop (close + 2) authority else []))
      else
        (case find_char authority (CHR '':'') of
           Some colon \<Rightarrow>
             if find_char_from authority (CHR '':'') (colon + 1) = None
             then Inr (take colon authority, drop (colon + 1) authority)
             else Inr (authority, [])
         | None \<Rightarrow> Inr (authority, [])))"

text \<open>The port number, \<open>dflt\<close> when there is no port text.\<close>

definition parse_port :: "string \<Rightarrow> string \<Rightarrow> u16 \<Rightarrow> url_error + u16" where
  "parse_port authority port dflt =
     (if port \<noteq> [] then
        (case from_chars port dflt of (taken, ec, v) \<Rightarrow>
           if ec \<noteq> No_error \<or> taken \<noteq> length port \<or> v = 0
           then Inl (Invalid_argument (''Invalid port in URL authority: '' @ authority))
           else Inr v)
      else Inr dflt)"

definition origin_form :: "string \<Rightarrow> string" where
  "origin_form target = (if target = [] \<or> hd target \<noteq> CHR ''/'' then CHR ''/'' # target else target)"

definition parse_url_parts :: "string \<Rightarrow> string \<Rightarrow> string \<Rightarrow> url_error + url_parts" where
  "parse_url_parts url plain secure =
     (case parse_scheme url plain secure of
        Inl e \<Rightarrow> Inl e
      | Inr (use_ssl, rest) \<Rightarrow>
          let u = substr_to rest (find_char rest (CHR ''#''));
              authority_end = find_first_of u ''/?'';
              authority = substr_to u authority_end;
              target = (case authority_end of None \<Rightarrow> [] | Some n \<Rightarrow> drop n u)
          in
          (case parse_authority authority of
             Inl e \<Rightarrow> Inl e
           | Inr (host, port) \<Rightarrow>
               (case parse_port authority port (if use_ssl then 443 else 80) of
                  Inl e \<Rightarrow> Inl e
                | Inr p \<Rightarrow> Inr \<lparr>url_host = host, url_target = origin_form target,
                               url_port = p, url_use_ssl = use_ssl\<rparr>)))"

definition format_authority :: "string \<Rightarrow> u16 \<Rightarrow> string" where
  "format_authority host port =
     (let ipv6 = (find_char host (CHR '':'') \<noteq> None) in
      (if ipv6 then [CHR ''['']  else []) @ host @ (if ipv6 then [CHR '']''] else [])
      @ (if port \<noteq> 0 then CHR '':'' # to_chars (unat port) else []))"

definition format_host_header :: "url_parts \<Rightarrow> string" where
  "format_host_header parts =
     format_authority (url_host parts)
       (if url_port parts = (if url_use_ssl parts then 443 else 80) then 0 else url_port parts)"

section \<open>The two clients\<close>

text \<open>\<open>parse_url\<close> returns (host, target, port, use_ssl, host_header).\<close>

definition parse_url :: "string \<Rightarrow> url_error + string \<times> string \<times> string \<times> bool \<times> string" where
  "parse_url url =
     (case parse_url_parts url ''http'' ''https'' of
        Inl e \<Rightarrow> Inl e
      | Inr parts \<Rightarrow> Inr (url_host parts, url_target parts, to_chars (unat (url_port parts)),
                        url_use_ssl parts, format_host_header parts))"

text \<open>\<open>uint_fast16_t\<close> is at least 16 bits wide, so the port fits: a natural number here.\<close>

record websocket_url_parts =
  wsu_host :: string
  wsu_path :: string
  wsu_port :: nat
  wsu_use_ssl :: bool

definition parse_websocket_url :: "string \<Rightarrow> url_error + websocket_url_parts" where
  "parse_websocket_url url =
     (case parse_url_parts url ''ws'' ''wss'' of
        Inl e \<Rightarrow> Inl e
      | Inr parts \<Rightarrow> Inr \<lparr>wsu_host = url_host parts, wsu_path = url_target parts,
                        wsu_port = unat (url_port parts), wsu_use_ssl = url_use_ssl parts\<rparr>)"

section \<open>Digits\<close>

lemma is_digit_iff: "is_digit c \<longleftrightarrow> 48 \<le> (of_char c :: nat) \<and> (of_char c :: nat) \<le> 57"
  by (rule is_digit_def)

lemma digits_value_snoc: "digits_value (ds @ [d]) = 10 * digits_value ds + (of_char d - 48)"
  by (simp add: digits_value_def)

lemma to_chars_ne [simp]: "to_chars n \<noteq> []"
  by (subst to_chars.simps) simp

lemma to_chars_digits: "c \<in> set (to_chars n) \<Longrightarrow> is_digit c"
proof (induction n arbitrary: c rule: to_chars.induct)
  case (1 n)
  show ?case
  proof (cases "n < 10")
    case True
    with "1.prems" show ?thesis by (subst (asm) to_chars.simps) (auto simp: is_digit_iff)
  next
    case False
    with 1 show ?thesis by (subst (asm) (2) to_chars.simps) (auto simp: is_digit_iff)
  qed
qed

lemma digits_value_to_chars: "digits_value (to_chars n) = n"
proof (induction n rule: to_chars.induct)
  case (1 n)
  show ?case
  proof (cases "n < 10")
    case True
    then show ?thesis by (subst to_chars.simps) (simp add: digits_value_def)
  next
    case False
    with 1 have "digits_value (to_chars (n div 10)) = n div 10" by simp
    with False show ?thesis by (subst to_chars.simps) (simp add: digits_value_snoc)
  qed
qed

text \<open>What \<open>from_chars\<close> accepts, and what the port check makes of it.\<close>

lemma parse_port_iff:
  "parse_port a port dflt =
     (if port = [] then Inr dflt
      else if list_all is_digit port \<and> 1 \<le> digits_value port \<and> digits_value port \<le> 65535
      then Inr (of_nat (digits_value port))
      else Inl (Invalid_argument (''Invalid port in URL authority: '' @ a)))"
proof -
  have tw: "list_all is_digit port \<Longrightarrow> takeWhile is_digit port = port"
    by (simp add: list_all_iff takeWhile_eq_all_conv)
  have len: "length (takeWhile is_digit port) = length port \<Longrightarrow> list_all is_digit port"
    by (metis list_all_iff set_takeWhileD takeWhile_eq_take take_all_iff order_refl)
  have zero: "(of_nat n :: u16) = 0 \<longleftrightarrow> n = 0" if "n < 65536" for n
    using that by (auto simp: word_of_nat_eq_0_iff dvd_imp_le)
  show ?thesis
  proof (cases "port \<noteq> [] \<and> list_all is_digit port")
    case True
    then show ?thesis
      using zero [of "digits_value port"]
      by (auto simp: parse_port_def from_chars_def tw Let_def not_le)
  next
    case False
    then show ?thesis
      using len by (auto simp: parse_port_def from_chars_def Let_def)
  qed
qed

section \<open>Where the scheme ends\<close>

lemma find_str_SomeD:
  "find_str xs ys = Some n \<Longrightarrow> prefix ys (drop n xs) \<and> (\<forall>m < n. \<not> prefix ys (drop m xs))"
proof (induction xs arbitrary: n)
  case (Cons x xs)
  show ?case
  proof (cases "prefix ys (x # xs)")
    case False
    with Cons obtain k where k: "n = Suc k" "find_str xs ys = Some k" by auto
    show ?thesis
    proof (intro conjI allI impI)
      show "prefix ys (drop n (x # xs))" using k Cons.IH by simp
      fix m assume "m < n"
      then show "\<not> prefix ys (drop m (x # xs))"
        using k Cons.IH False by (cases m) auto
    qed
  qed (use Cons in simp)
qed (auto split: if_splits)

lemma find_str_NoneD: "find_str xs ys = None \<Longrightarrow> \<not> prefix ys (drop n xs)"
proof (induction xs arbitrary: n)
  case (Cons x xs)
  then show ?case by (cases n) (auto split: if_splits)
qed (auto split: if_splits)

lemma find_str_SomeI:
  "prefix ys (drop n xs) \<Longrightarrow> (\<forall>m < n. \<not> prefix ys (drop m xs)) \<Longrightarrow> find_str xs ys = Some n"
proof (induction xs arbitrary: n)
  case (Cons x xs)
  then show ?case
  proof (cases n)
    case (Suc k)
    with Cons.prems have "\<not> prefix ys (x # xs)" "prefix ys (drop k xs)" by force+
    moreover have "\<forall>m < k. \<not> prefix ys (drop m xs)" using Cons.prems(2) Suc by fastforce
    ultimately show ?thesis using Cons.IH Suc by simp
  qed simp
qed auto

text \<open>
  A scheme delimiter is a \<open>://\<close> before which there is no slash, question mark or hash.  There is at
  most one, and it is what \<open>parse_scheme\<close> finds.
\<close>

definition scheme_at :: "string \<Rightarrow> nat \<Rightarrow> bool" where
  "scheme_at url n \<longleftrightarrow> prefix ''://'' (drop n url) \<and> set (take n url) \<inter> set ''/?#'' = {}"

lemma scheme_at_iff:
  "find_str url ''://'' = Some n \<and> pos_less (Some n) (find_first_of url ''/?#'') \<longleftrightarrow> scheme_at url n"
proof
  assume l: "find_str url ''://'' = Some n \<and> pos_less (Some n) (find_first_of url ''/?#'')"
  then have p: "prefix ''://'' (drop n url)" using find_str_SomeD by blast
  have "set (take n url) \<inter> set ''/?#'' = {}"
  proof (cases "find_first_of url ''/?#''")
    case None
    then have "set url \<inter> set ''/?#'' = {}" using find_first_of_None_iff by blast
    then show ?thesis by (auto dest: in_set_takeD)
  next
    case (Some k)
    with l have "n < k" by simp
    then have "set (take n url) \<subseteq> set (take k url)" by (simp add: set_take_subset_set_take)
    with find_first_of_SomeD [OF Some] show ?thesis by blast
  qed
  with p show "scheme_at url n" by (simp add: scheme_at_def)
next
  assume s: "scheme_at url n"
  then obtain r where r: "drop n url = ''://'' @ r" by (auto simp: scheme_at_def prefix_def)
  have len: "n + 3 \<le> length url" using arg_cong [OF r, of length] by simp
  have url: "url = take n url @ ''://'' @ r" using r by (metis append_take_drop_id)
  have none: "\<not> prefix ''://'' (drop m url)" if "m < n" for m
  proof
    assume "prefix ''://'' (drop m url)"
    then obtain q where q: "drop m url = ''://'' @ q" by (auto simp: prefix_def)
    then have "url ! Suc m = CHR ''/''"
      using nth_drop [of m url 1] len that by simp
    moreover have "url ! n = CHR '':''" using nth_drop [of n url 0] r len by simp
    ultimately have "Suc m < n" using that by (cases "Suc m = n") auto
    then have "CHR ''/'' \<in> set (take n url)"
      using \<open>url ! Suc m = CHR ''/''\<close> len
      by (metis (no_types, lifting) in_set_conv_nth length_take min.absorb4 nth_take
          add_leD1 le_neq_implies_less length_take min_def)
    with s show False by (auto simp: scheme_at_def)
  qed
  have "find_str url ''://'' = Some n"
    using s none by (intro find_str_SomeI) (auto simp: scheme_at_def)
  moreover have "find_first_of url ''/?#'' = Some (n + 1)"
  proof (rule find_first_of_SomeI)
    show "n + 1 < length url" using len by simp
    show "url ! (n + 1) \<in> set ''/?#''" using nth_drop [of n url 1] r len by simp
    have "take (n + 1) url = take n url @ [CHR '':'']"
      using nth_drop [of n url 0] r len by (simp add: take_Suc_conv_app_nth)
    then show "set (take (n + 1) url) \<inter> set ''/?#'' = {}"
      using s by (simp add: scheme_at_def)
  qed
  ultimately show "find_str url ''://'' = Some n \<and> pos_less (Some n) (find_first_of url ''/?#'')"
    by simp
qed

lemma scheme_at_unique: "scheme_at url n \<Longrightarrow> scheme_at url m \<Longrightarrow> m = n"
  unfolding scheme_at_iff [symmetric] by simp

lemma parse_scheme_at:
  "scheme_at url n \<Longrightarrow> parse_scheme url plain secure =
     (if scheme_equals (take n url) secure then Inr (True, drop (n + 3) url)
      else if scheme_equals (take n url) plain then Inr (False, drop (n + 3) url)
      else Inl (unsupported_scheme (take n url) plain secure))"
  unfolding scheme_at_iff [symmetric] by (auto simp: parse_scheme_def Let_def)

lemma parse_scheme_none:
  "(\<And>n. \<not> scheme_at url n) \<Longrightarrow> parse_scheme url plain secure = Inr (True, url)"
  unfolding scheme_at_iff [symmetric] by (auto simp: parse_scheme_def split: option.split)

lemma scheme_at_append: "set s \<inter> set ''/?#'' = {} \<Longrightarrow> scheme_at (s @ ''://'' @ rest) (length s)"
  by (simp add: scheme_at_def)

lemma scheme_at_len: "scheme_at url n \<Longrightarrow> n + 3 \<le> length url"
  by (auto simp: scheme_at_def dest!: prefix_length_le)

lemma parse_scheme_cases:
  obtains n where "scheme_at url n" | "\<And>n. \<not> scheme_at url n"
  by blast

lemma parse_scheme_suffix:
  "parse_scheme url plain secure = Inr (use_ssl, rest) \<Longrightarrow> set rest \<subseteq> set url"
  by (cases url rule: parse_scheme_cases)
    (auto simp: parse_scheme_at parse_scheme_none dest: in_set_dropD split: if_splits)

lemma scheme_equals_iff: "scheme_equals s e \<longleftrightarrow> map to_lower s = e"
  unfolding scheme_equals_def list_eq_iff_nth_eq by (auto simp: list_all_iff)

section \<open>The authority\<close>

lemma find_char_append [sview_simps]: "c \<notin> set xs \<Longrightarrow> find_char (xs @ c # ys) c = Some (length xs)"
  by (simp add: find_char_def find_first_of_skip)

lemma find_char_None [sview_simps]: "find_char xs c = None \<longleftrightarrow> c \<notin> set xs"
  by (simp add: find_char_def find_first_of_None_iff)

lemma substr_to_char_append [sview_simps]:
  "substr_to (xs @ c # ys) (find_char (xs @ c # ys) c) = substr_to xs (find_char xs c)"
proof (cases "find_char xs c")
  case None
  then have "c \<notin> set xs" using find_char_None by metis
  then show ?thesis by (simp add: substr_to_def find_char_append None)
next
  case (Some n)
  then have "find_char (xs @ c # ys) c = Some n"
    unfolding find_char_def
    by (intro find_first_of_SomeI) (auto dest!: find_first_of_SomeD simp: nth_append)
  with Some show ?thesis
    by (auto simp: substr_to_def find_char_def dest!: find_first_of_SomeD)
qed

lemma substr_to_char_id [sview_simps]: "c \<notin> set xs \<Longrightarrow> substr_to xs (find_char xs c) = xs"
  by (cases "find_char xs c") (auto simp: substr_to_def find_char_def dest!: find_first_of_SomeD)

lemma substr_to_no_char: "c \<notin> set (substr_to xs (find_char xs c))"
  using substr_to_first_of [of xs "[c]"] by (simp add: find_char_def)

lemma parse_authority_set:
  "parse_authority a = Inr (host, port) \<Longrightarrow> set host \<subseteq> set a \<and> set port \<subseteq> set a"
  by (auto simp: parse_authority_def dest!: in_set_takeD in_set_dropD split: if_splits option.splits)

lemma colon_not_digit: "CHR '':'' \<notin> set (to_chars n)"
  using to_chars_digits by (force simp: is_digit_iff)

lemma delims_not_digit: "set (to_chars n) \<inter> set ''/?#'' = {}"
  using to_chars_digits by (force simp: is_digit_iff)

lemma parse_format_authority:
  assumes "set host \<inter> set ''[]'' = {}"
  shows "parse_authority (format_authority host port) = Inr (host, if port = 0 then [] else to_chars (unat port))"
proof (cases "CHR '':'' \<in> set host")
  case True
  have nb: "CHR '']'' \<notin> set (CHR ''['' # host)" using assms by auto
  have "find_char ((CHR ''['' # host) @ CHR '']'' # r) (CHR '']'') = Some (length host + 1)" for r
    using find_char_append [OF nb, of r] by simp
  then show ?thesis
    using True find_char_None [of host "CHR '':''"]
    by (simp add: parse_authority_def format_authority_def Let_def nth_append)
next
  case False
  have hd: "\<not> (host @ r \<noteq> [] \<and> hd (host @ r) = CHR ''['')" if "r = [] \<or> hd r \<noteq> CHR ''[''" for r
    using assms that by (cases host) auto
  show ?thesis
  proof (cases "port = 0")
    case True
    with False hd [of "[]"] show ?thesis
      using find_char_None [of host "CHR '':''"]
      by (auto simp: parse_authority_def format_authority_def Let_def split: option.split)
  next
    case port: False
    have "find_char_from (host @ CHR '':'' # to_chars (unat port)) (CHR '':'') (length host + 1) = None"
      using colon_not_digit by (simp add: find_char_from_def sview_simps)
    with False port hd [of "CHR '':'' # to_chars (unat port)"] show ?thesis
      by (simp add: parse_authority_def format_authority_def Let_def sview_simps)
  qed
qed

lemma format_authority_set:
  "set host \<inter> set ''/?#'' = {} \<Longrightarrow> set (format_authority host port) \<inter> set ''/?#'' = {}"
  using delims_not_digit [of "unat port"] by (auto simp: format_authority_def Let_def)

section \<open>What every successful parse returns\<close>

definition url_parts_ok :: "url_parts \<Rightarrow> bool" where
  "url_parts_ok p \<longleftrightarrow> set (url_host p) \<inter> set ''/?#'' = {} \<and> url_target p \<noteq> []
     \<and> hd (url_target p) = CHR ''/'' \<and> CHR ''#'' \<notin> set (url_target p) \<and> url_port p \<noteq> 0"

lemma origin_form_ok:
  "CHR ''#'' \<notin> set t \<Longrightarrow>
     origin_form t \<noteq> [] \<and> hd (origin_form t) = CHR ''/'' \<and> CHR ''#'' \<notin> set (origin_form t)"
  by (auto simp: origin_form_def)

lemma parse_port_nonzero:
  assumes "parse_port a port dflt = Inr p" "dflt \<noteq> 0"
  shows "p \<noteq> 0"
proof
  assume "p = 0"
  with assms have "port \<noteq> []" "(of_nat (digits_value port) :: u16) = 0"
    "1 \<le> digits_value port" "digits_value port \<le> 65535"
    by (auto simp: parse_port_iff split: if_splits)
  then show False by (auto simp: word_of_nat_eq_0_iff dest!: dvd_imp_le)
qed

lemma parse_url_parts_ok:
  assumes "parse_url_parts url plain secure = Inr p"
  shows "url_parts_ok p"
proof -
  from assms obtain use_ssl rest where
    sch: "parse_scheme url plain secure = Inr (use_ssl, rest)"
    by (auto simp: parse_url_parts_def split: sum.splits)
  let ?u = "substr_to rest (find_char rest (CHR ''#''))"
  let ?e = "find_first_of ?u ''/?''"
  let ?t = "case ?e of None \<Rightarrow> [] | Some n \<Rightarrow> drop n ?u"
  from assms sch obtain host port v where
    auth: "parse_authority (substr_to ?u ?e) = Inr (host, port)" and
    port: "parse_port (substr_to ?u ?e) port (if use_ssl then 443 else 80) = Inr v" and
    p: "p = \<lparr>url_host = host, url_target = origin_form ?t, url_port = v, url_use_ssl = use_ssl\<rparr>"
    by (auto simp: parse_url_parts_def Let_def split: sum.splits)
  have hash: "CHR ''#'' \<notin> set ?u" by (rule substr_to_no_char)
  then have "CHR ''#'' \<notin> set ?t" by (auto dest: in_set_dropD split: option.splits)
  moreover have "set (substr_to ?u ?e) \<inter> set ''/?'' = {}" by (rule substr_to_first_of)
  then have "set host \<inter> set ''/?#'' = {}"
    using parse_authority_set [OF auth] set_substr_to [of ?u ?e] hash by auto
  moreover have "v \<noteq> 0"
    using port by (rule parse_port_nonzero) simp
  ultimately show ?thesis
    using origin_form_ok [of ?t] by (simp add: url_parts_ok_def p)
qed

section \<open>Writing a URL and parsing it back\<close>

lemma parse_port_to_chars:
  "parse_port a (if port = 0 then [] else to_chars (unat port)) dflt = Inr (if port = 0 then dflt else port)"
proof (cases "port = 0")
  case False
  have "unat port < 2 ^ 16" using unsigned_less [of port, where 'a = nat] by simp
  moreover have "unat port \<noteq> 0" using False by (simp add: unat_eq_zero)
  moreover have "list_all is_digit (to_chars (unat port))"
    using to_chars_digits by (simp add: list_all_iff)
  ultimately show ?thesis using False by (simp add: parse_port_iff digits_value_to_chars)
qed (simp add: parse_port_iff)

lemma parse_written:
  assumes host: "set host \<inter> set ''/?#[]'' = {}"
    and target: "target \<noteq> []" "hd target = CHR ''/''" "CHR ''#'' \<notin> set target"
    and scheme: "set s \<inter> set ''/?#'' = {}" "scheme_equals s secure \<or> scheme_equals s plain"
  shows "parse_url_parts (s @ ''://'' @ format_authority host port @ target) plain secure =
    Inr \<lparr>url_host = host, url_target = target,
         url_port = (if port = 0 then if scheme_equals s secure then 443 else 80 else port),
         url_use_ssl = scheme_equals s secure\<rparr>"
proof -
  let ?a = "format_authority host port"
  obtain t where t: "target = CHR ''/'' # t" using target by (cases target) auto
  have a: "set ?a \<inter> set ''/?#'' = {}"
    by (rule format_authority_set) (use host in auto)
  have "scheme_at (s @ ''://'' @ ?a @ target) (length s)"
    by (rule scheme_at_append [OF scheme(1)])
  from parse_scheme_at [OF this, of plain secure] scheme(2)
  have sch: "parse_scheme (s @ ''://'' @ ?a @ target) plain secure = Inr (scheme_equals s secure, ?a @ target)"
    by auto
  have frag: "substr_to (?a @ target) (find_char (?a @ target) (CHR ''#'')) = ?a @ target"
    by (rule substr_to_char_id) (use a target in auto)
  have "set ?a \<inter> set ''/?'' = {}" using a by auto
  from find_first_of_skip [OF this, of target] t
  have auth: "find_first_of (?a @ target) ''/?'' = Some (length ?a)" by simp
  have "parse_authority ?a = Inr (host, if port = 0 then [] else to_chars (unat port))"
    by (rule parse_format_authority) (use host in auto)
  with sch frag auth target show ?thesis
    by (simp add: parse_url_parts_def substr_to_def Let_def parse_port_to_chars origin_form_def)
qed

text \<open>A scheme name as the callers pass it: lower case and without a delimiter.\<close>

definition scheme_name :: "string \<Rightarrow> bool" where
  "scheme_name s \<longleftrightarrow> map to_lower s = s \<and> set s \<inter> set ''/?#'' = {}"

lemma scheme_equals_names:
  "scheme_name s \<Longrightarrow> scheme_equals s e \<longleftrightarrow> s = e"
  by (simp add: scheme_name_def scheme_equals_iff)

definition canonical_url :: "string \<Rightarrow> string \<Rightarrow> url_parts \<Rightarrow> string" where
  "canonical_url plain secure p =
     (if url_use_ssl p then secure else plain) @ ''://'' @ format_host_header p @ url_target p"

lemma parse_canonical:
  assumes "scheme_name plain" "scheme_name secure" "plain \<noteq> secure"
    and "url_parts_ok p" "set (url_host p) \<inter> set ''[]'' = {}"
  shows "parse_url_parts (canonical_url plain secure p) plain secure = Inr p"
proof -
  let ?s = "if url_use_ssl p then secure else plain"
  let ?port = "if url_port p = (if url_use_ssl p then 443 else 80) then 0 else url_port p"
  have "parse_url_parts (?s @ ''://'' @ format_authority (url_host p) ?port @ url_target p) plain secure =
    Inr \<lparr>url_host = url_host p, url_target = url_target p,
         url_port = (if ?port = 0 then if scheme_equals ?s secure then 443 else 80 else ?port),
         url_use_ssl = scheme_equals ?s secure\<rparr>"
    by (rule parse_written) (use assms scheme_equals_names in \<open>auto simp: url_parts_ok_def scheme_name_def\<close>)
  moreover have "scheme_equals ?s secure = url_use_ssl p"
    using assms scheme_equals_names by auto
  ultimately show ?thesis
    using assms(4) by (auto simp: canonical_url_def format_host_header_def url_parts_ok_def)
qed

section \<open>The fragment\<close>

lemma scheme_at_fragment: "scheme_at (u @ CHR ''#'' # f) n \<longleftrightarrow> scheme_at u n"
proof
  assume s: "scheme_at u n"
  then have "n + 3 \<le> length u" by (rule scheme_at_len)
  with s show "scheme_at (u @ CHR ''#'' # f) n"
    by (auto simp: scheme_at_def intro: prefix_prefix)
next
  assume s: "scheme_at (u @ CHR ''#'' # f) n"
  have "n \<le> length u"
  proof (rule ccontr)
    assume "\<not> n \<le> length u"
    then have "CHR ''#'' \<in> set (take n (u @ CHR ''#'' # f))" by (cases "n - length u") auto
    with s show False by (auto simp: scheme_at_def)
  qed
  then have "prefix ''://'' (drop n u @ CHR ''#'' # f)" "set (take n u) \<inter> set ''/?#'' = {}"
    using s by (auto simp: scheme_at_def)
  then have "prefix ''://'' (drop n u)"
    by (cases "drop n u"; cases "tl (drop n u)"; cases "tl (tl (drop n u))") auto
  with \<open>set (take n u) \<inter> set ''/?#'' = {}\<close> show "scheme_at u n" by (simp add: scheme_at_def)
qed

lemma parse_scheme_fragment:
  "parse_scheme (u @ CHR ''#'' # f) plain secure =
     (case parse_scheme u plain secure of Inl e \<Rightarrow> Inl e | Inr (b, r) \<Rightarrow> Inr (b, r @ CHR ''#'' # f))"
proof (cases u rule: parse_scheme_cases)
  case (1 n)
  then have "n + 3 \<le> length u" by (rule scheme_at_len)
  with 1 show ?thesis
    by (simp add: parse_scheme_at [of "u @ CHR ''#'' # f" n] parse_scheme_at [of u n] scheme_at_fragment)
next
  case 2
  then show ?thesis by (simp add: parse_scheme_none scheme_at_fragment)
qed

lemma parse_fragment:
  "parse_url_parts (u @ CHR ''#'' # f) plain secure = parse_url_parts u plain secure"
  unfolding parse_url_parts_def parse_scheme_fragment
  by (simp add: substr_to_char_append split: sum.split prod.split)

section \<open>The interface of a URL parser\<close>

text \<open>
  What the HTTP and WebSocket clients rely on: a parsed URL is well formed, the fragment does not
  matter, and a canonical text parses back to the parts it was written from.
\<close>

locale url_parser =
  fixes parse :: "string \<Rightarrow> url_error + url_parts" and canonical :: "url_parts \<Rightarrow> string"
  assumes parsed_ok: "parse u = Inr p \<Longrightarrow> url_parts_ok p"
    and fragment: "parse (u @ CHR ''#'' # f) = parse u"
    and reparse: "url_parts_ok p \<Longrightarrow> set (url_host p) \<inter> set ''[]'' = {} \<Longrightarrow> parse (canonical p) = Inr p"
begin

lemma canonical_idem:
  "parse u = Inr p \<Longrightarrow> set (url_host p) \<inter> set ''[]'' = {} \<Longrightarrow> parse (canonical p) = Inr p"
  by (rule reparse [OF parsed_ok])

text \<open>Different endpoints have different canonical texts, so also different Host headers or targets.\<close>

lemma canonical_inj:
  "parse u = Inr p \<Longrightarrow> parse v = Inr q \<Longrightarrow> set (url_host p) \<inter> set ''[]'' = {} \<Longrightarrow>
     set (url_host q) \<inter> set ''[]'' = {} \<Longrightarrow> canonical p = canonical q \<Longrightarrow> p = q"
  by (metis canonical_idem sum.inject(2))

end

lemma scheme_names:
  "scheme_name ''http''" "scheme_name ''https''" "scheme_name ''ws''" "scheme_name ''wss''"
  by code_simp+

lemma url_parserI:
  assumes "scheme_name plain" "scheme_name secure" "plain \<noteq> secure"
  shows "url_parser (\<lambda>u. parse_url_parts u plain secure) (canonical_url plain secure)"
  by unfold_locales (fact parse_url_parts_ok, fact parse_fragment, rule parse_canonical [OF assms])

interpretation http_url: url_parser "\<lambda>u. parse_url_parts u ''http'' ''https''" "canonical_url ''http'' ''https''"
  by (rule url_parserI) (simp_all add: scheme_names)

interpretation ws_url: url_parser "\<lambda>u. parse_url_parts u ''ws'' ''wss''" "canonical_url ''ws'' ''wss''"
  by (rule url_parserI) (simp_all add: scheme_names)

section \<open>Evaluation and case folding\<close>

lemma char_codes:
  "char_of (104 :: nat) = CHR ''h''" "char_of (116 :: nat) = CHR ''t''" "char_of (112 :: nat) = CHR ''p''"
  "char_of (48 :: nat) = CHR ''0''" "char_of (49 :: nat) = CHR ''1''" "char_of (51 :: nat) = CHR ''3''"
  "char_of (52 :: nat) = CHR ''4''" "char_of (56 :: nat) = CHR ''8''"
  by code_simp+

lemma to_chars_rec:
  "n < 10 \<Longrightarrow> to_chars n = [char_of (48 + n)]"
  "\<not> n < 10 \<Longrightarrow> to_chars n = to_chars (n div 10) @ [char_of (48 + n mod 10)]"
  by (subst to_chars.simps, simp)+

lemmas url_eval = parse_url_parts_def parse_scheme_def parse_authority_def parse_port_def from_chars_def
  scheme_equals_iff to_lower_def origin_form_def find_char_def find_char_from_def substr_to_def
  digits_value_def is_digit_def char_codes

lemma of_char_to_lower:
  "(of_char (to_lower c) :: nat) =
     (if 65 \<le> (of_char c :: nat) \<and> (of_char c :: nat) \<le> 90 then of_char c + 32 else of_char c)"
  by (simp add: to_lower_def)

lemma to_lower_idem: "to_lower (to_lower c) = to_lower c"
proof -
  have "\<not> (65 \<le> (of_char (to_lower c) :: nat) \<and> (of_char (to_lower c) :: nat) \<le> 90)"
    by (simp add: of_char_to_lower)
  then show ?thesis by (simp only: to_lower_def [of "to_lower c"] if_False)
qed

lemma to_lower_delim: "to_lower c \<in> set ''/?#'' \<Longrightarrow> c \<in> set ''/?#''"
proof -
  assume d: "to_lower c \<in> set ''/?#''"
  then have "(of_char (to_lower c) :: nat) \<in> {35, 47, 63}" by auto
  then have "\<not> (65 \<le> (of_char c :: nat) \<and> (of_char c :: nat) \<le> 90)"
    by (auto simp: of_char_to_lower split: if_splits)
  with d show ?thesis by (simp add: to_lower_def)
qed

section \<open>Properties\<close>

text \<open>
  C20. Every URL that parses, with any pair of schemes, gives a non-zero port, an origin-form target
  (it starts with a slash and holds no fragment) and a host that holds no slash, question mark or hash.
\<close>

theorem url_parsed_ok:
  assumes "parse_url_parts url plain secure = Inr p"
  shows "url_port p \<noteq> 0 \<and> url_target p \<noteq> [] \<and> hd (url_target p) = CHR ''/''
    \<and> CHR ''#'' \<notin> set (url_target p) \<and> set (url_host p) \<inter> set ''/?#'' = {}"
  using parse_url_parts_ok [OF assms] by (simp add: url_parts_ok_def)

theorem url_parsed_ok_witness:
  "let p = \<lparr>url_host = ''h'', url_target = ''/?q'', url_port = 81, url_use_ssl = False\<rparr> in
   url_port p \<noteq> 0 \<and> url_target p \<noteq> [] \<and> hd (url_target p) = CHR ''/''
    \<and> CHR ''#'' \<notin> set (url_target p) \<and> set (url_host p) \<inter> set ''/?#'' = {}"
  unfolding Let_def
proof (rule url_parsed_ok)
  show "parse_url_parts ''HTTP://h:81?q#f'' ''http'' ''https'' =
     Inr \<lparr>url_host = ''h'', url_target = ''/?q'', url_port = 81, url_use_ssl = False\<rparr>"
    by (simp add: url_eval)
qed

text \<open>
  C34. Round trip: from the parts of any URL an HTTP client parsed (with no bracket inside the host), the
  scheme, the Host header it sends and the target it requests make a URL that parses to the same parts.
\<close>

theorem url_host_header_round_trip:
  assumes "parse_url_parts url ''http'' ''https'' = Inr p" "set (url_host p) \<inter> set ''[]'' = {}"
  shows "parse_url_parts
     ((if url_use_ssl p then ''https'' else ''http'') @ ''://'' @ format_host_header p @ url_target p)
     ''http'' ''https'' = Inr p"
  using http_url.canonical_idem [OF assms] by (simp add: canonical_url_def)

theorem url_host_header_round_trip_witness:
  "let p = \<lparr>url_host = ''::1'', url_target = ''/a'', url_port = 8080, url_use_ssl = False\<rparr> in
   parse_url_parts
     ((if url_use_ssl p then ''https'' else ''http'') @ ''://'' @ format_host_header p @ url_target p)
     ''http'' ''https'' = Inr p"
  unfolding Let_def
proof (rule url_host_header_round_trip)
  show "parse_url_parts ''http://[::1]:8080/a#f'' ''http'' ''https'' =
     Inr \<lparr>url_host = ''::1'', url_target = ''/a'', url_port = 8080, url_use_ssl = False\<rparr>"
    by (simp add: url_eval)
qed simp

text \<open>
  The port text decides the port exactly: empty means the default; otherwise it must be digits
  only with a value of 1 to 65535, and any other text is an \<open>invalid_argument\<close>.
\<close>

lemma url_port_decided:
  "parse_port authority port dflt =
     (if port = [] then Inr dflt
      else if list_all is_digit port \<and> digits_value port \<in> {1..65535}
      then Inr (of_nat (digits_value port))
      else Inl (Invalid_argument (''Invalid port in URL authority: '' @ authority)))"
  by (simp add: parse_port_iff)

text \<open>
  A scheme before the path, query and fragment is accepted exactly when, up to ASCII case, it is one
  of the two the caller supports; any other one is an \<open>invalid_argument\<close> that names all three.
\<close>
lemma url_scheme_decided:
  assumes "set s \<inter> set ''/?#'' = {}"
  shows "parse_url_parts (s @ ''://'' @ rest) plain secure =
    (if map to_lower s = secure \<or> map to_lower s = plain
     then parse_url_parts (map to_lower s @ ''://'' @ rest) plain secure
     else Inl (unsupported_scheme s plain secure))"
proof -
  define t where "t = map to_lower s"
  have idem: "map to_lower t = t" by (simp add: t_def to_lower_idem)
  have lower: "set t \<inter> set ''/?#'' = {}"
    using assms to_lower_delim unfolding t_def by (fastforce simp del: list.set)
  have at: "scheme_at (s @ ''://'' @ rest) (length s)" "scheme_at (t @ ''://'' @ rest) (length t)"
    by (rule scheme_at_append, fact)+
  show ?thesis
    unfolding parse_url_parts_def t_def [symmetric] parse_scheme_at [OF at(1)] parse_scheme_at [OF at(2)]
    using idem by (auto simp: scheme_equals_iff t_def [symmetric])
qed

lemma url_scheme_decided_witness:
  "parse_url_parts (''HtTp'' @ ''://'' @ ''h'') ''http'' ''https'' =
     (if map to_lower ''HtTp'' = ''https'' \<or> map to_lower ''HtTp'' = ''http''
      then parse_url_parts (map to_lower ''HtTp'' @ ''://'' @ ''h'') ''http'' ''https''
      else Inl (unsupported_scheme ''HtTp'' ''http'' ''https''))"
  by (rule url_scheme_decided) simp

text \<open>
  The fragment never matters: appending \<open>#...\<close> to any text, valid or not, changes neither the parts
  nor the error.
\<close>
lemma url_fragment_dropped:
  "parse_url_parts (url @ CHR ''#'' # fragment) plain secure = parse_url_parts url plain secure"
  by (rule parse_fragment)

text \<open>
  From the Host header \<open>parse_url\<close> gives for a URL (with no bracket inside the host) a server reads
  back the host and the port text of the same result, the port only when it is not the connection's default.
\<close>
lemma parse_url_host_header:
  assumes "parse_url url = Inr (host, target, port, use_ssl, header)" "set host \<inter> set ''[]'' = {}"
  shows "parse_authority header = Inr (host, if port = (if use_ssl then ''443'' else ''80'') then [] else port)"
proof -
  obtain p where p: "parse_url_parts url ''http'' ''https'' = Inr p" "host = url_host p"
    "port = to_chars (unat (url_port p))" "use_ssl = url_use_ssl p" "header = format_host_header p"
    using assms(1) by (auto simp: parse_url_def split: sum.splits)
  let ?dflt = "if use_ssl then 443 else 80 :: u16"
  have dflt: "to_chars (unat ?dflt) = (if use_ssl then ''443'' else ''80'')"
    by (simp add: to_chars_rec char_codes)
  have inj: "to_chars (unat a) = to_chars (unat b) \<longleftrightarrow> a = b" for a b :: u16
    by (metis digits_value_to_chars word_unat_eq_iff)
  have same: "port = (if use_ssl then ''443'' else ''80'') \<longleftrightarrow> url_port p = ?dflt"
    unfolding dflt [symmetric] p(3) by (rule inj)
  have "url_port p \<noteq> 0"
    using parse_url_parts_ok [OF p(1)] by (simp add: url_parts_ok_def)
  then show ?thesis
    unfolding p(5) format_host_header_def
    using parse_format_authority [of host] assms(2) p same by simp
qed

lemma parse_url_host_header_witness:
  "parse_authority ''h:81'' = Inr (''h'', if ''81'' = (if False then ''443'' else ''80'') then [] else ''81'')"
proof (rule parse_url_host_header)
  have "parse_url_parts ''http://h:81/a'' ''http'' ''https'' =
     Inr \<lparr>url_host = ''h'', url_target = ''/a'', url_port = 81, url_use_ssl = False\<rparr>"
    by (simp add: url_eval)
  then show "parse_url ''http://h:81/a'' = Inr (''h'', ''/a'', ''81'', False, ''h:81'')"
    by (simp add: parse_url_def format_host_header_def format_authority_def find_char_def to_chars_rec char_codes)
qed simp

end
