(* ===== verification/Tls.thy ===== *)
theory Tls
  imports Transitions
begin

text \<open>
  \<open>src/tls.cpp\<close>: the lock-free one-time creation of the shared TLS context, the choice of the trust roots (the
  builds for Linux and macOS and for Windows), the identity a connection requires of its peer, and the error of a failed
  handshake.  OpenSSL, Asio, the file system and the certificate store of Windows are parameters.
\<close>

section \<open>Creating the context\<close>

text \<open>
  What the code asks of its environment: the process environment, OpenSSL's names for its default bundle and
  the two variables, the file system, and whether a verify file or the default paths load.
\<close>

record tls_env =
  env_var :: "string \<Rightarrow> string option"               \<comment> \<open>\<open>std::getenv\<close>\<close>
  default_cert_file :: string                          \<comment> \<open>\<open>X509_get_default_cert_file\<close>\<close>
  default_cert_file_env :: string                      \<comment> \<open>\<open>X509_get_default_cert_file_env\<close>\<close>
  default_cert_dir_env :: string                       \<comment> \<open>\<open>X509_get_default_cert_dir_env\<close>\<close>
  is_regular_file :: "string \<Rightarrow> bool"
  verify_file_loads :: "string \<Rightarrow> bool"               \<comment> \<open>\<open>load_verify_file\<close> reports no error\<close>
  default_paths_load :: bool

datatype verify_mode = Verify_none | Verify_peer

text \<open>A context, by the calls made on it, and the warnings logged (their texts shortened).\<close>

record tls_settings =
  verify :: verify_mode
  default_paths :: bool                                \<comment> \<open>\<open>set_default_verify_paths\<close> was called\<close>
  extra_bundle :: "string option"                      \<comment> \<open>the OS bundle that was loaded\<close>
  imported :: "string list"                            \<comment> \<open>the certificates added to the store of the context\<close>
  warnings :: "string list"

definition env_is_set :: "tls_env \<Rightarrow> string \<Rightarrow> bool" where
  "env_is_set env name \<longleftrightarrow> env_var env name \<noteq> None"

definition ca_bundles :: "string list" where
  "ca_bundles = [''/etc/ssl/certs/ca-certificates.crt'', ''/etc/pki/tls/certs/ca-bundle.crt'', ''/etc/ssl/ca-bundle.pem'',
     ''/etc/pki/ca-trust/extracted/pem/tls-ca-bundle.pem'', ''/etc/ssl/cert.pem'']"

fun load_first_bundle :: "tls_env \<Rightarrow> string list \<Rightarrow> tls_settings \<Rightarrow> tls_settings" where
  "load_first_bundle env [] ctx = ctx\<lparr>warnings := warnings ctx @ [''No system CA bundle found'']\<rparr>"
| "load_first_bundle env (path # paths) ctx =
     (if verify_file_loads env path then ctx\<lparr>extra_bundle := Some path\<rparr> else load_first_bundle env paths ctx)"

definition load_platform_trust_roots :: "tls_env \<Rightarrow> tls_settings \<Rightarrow> tls_settings" where
  "load_platform_trust_roots env ctx =
     (if is_regular_file env (default_cert_file env) then ctx else load_first_bundle env ca_bundles ctx)"

text \<open>
  Windows: the system's ROOT store, as the encodings it enumerates if it opens, and what \<open>d2i_X509\<close> makes of one.
\<close>

record windows_store =
  root_store :: "string list option"
  d2i_X509 :: "string \<Rightarrow> string option"

fun import_certificates :: "windows_store \<Rightarrow> string list \<Rightarrow> tls_settings \<Rightarrow> tls_settings" where
  "import_certificates sys [] ctx = ctx"
| "import_certificates sys (der # ders) ctx =
     import_certificates sys ders (case d2i_X509 sys der of None \<Rightarrow> ctx | Some x509 \<Rightarrow> ctx\<lparr>imported := imported ctx @ [x509]\<rparr>)"

definition load_windows_trust_roots :: "windows_store \<Rightarrow> tls_settings \<Rightarrow> tls_settings" where
  "load_windows_trust_roots sys ctx =
     (case root_store sys of
        None \<Rightarrow> ctx\<lparr>warnings := warnings ctx @ [''Unable to open the Windows ROOT certificate store'']\<rparr>
      | Some ders \<Rightarrow> import_certificates sys ders ctx)"

text \<open>\<open>make_tls_context\<close>, with the \<open>load_platform_trust_roots\<close> of the build.\<close>

definition make_context :: "(tls_settings \<Rightarrow> tls_settings) \<Rightarrow> tls_env \<Rightarrow> tls_settings" where
  "make_context load_roots env =
     (let ctx = \<lparr>verify = Verify_peer, default_paths = True, extra_bundle = None, imported = [], warnings = []\<rparr>;
          ctx = (if default_paths_load env then ctx
                 else ctx\<lparr>warnings := warnings ctx @ [''Failed to load OpenSSL default verify paths'']\<rparr>)
      in if \<not> env_is_set env (default_cert_file_env env) \<and> \<not> env_is_set env (default_cert_dir_env env)
         then load_roots ctx else ctx)"

definition make_tls_context :: "tls_env \<Rightarrow> tls_settings" where
  "make_tls_context env = make_context (load_platform_trust_roots env) env"

definition make_windows_context :: "windows_store \<Rightarrow> tls_env \<Rightarrow> tls_settings" where
  "make_windows_context sys env = make_context (load_windows_trust_roots sys) env"

lemma import_certificates_all:
  "import_certificates sys ders ctx = ctx\<lparr>imported := imported ctx @ List.map_filter (d2i_X509 sys) ders\<rparr>"
  by (induction ders arbitrary: ctx) (simp_all add: map_filter_simps split: option.split)

lemma load_first_bundle_find:
  "load_first_bundle env paths ctx = (case find (verify_file_loads env) paths of
     None \<Rightarrow> ctx\<lparr>warnings := warnings ctx @ [''No system CA bundle found'']\<rparr>
   | Some path \<Rightarrow> ctx\<lparr>extra_bundle := Some path\<rparr>)"
  by (induction paths) auto

section \<open>One context for the process\<close>

text \<open>
  \<open>tls_context()\<close> on any number of threads.  Contexts are named by numbers; \<open>live\<close> are the ones that exist.
\<close>

datatype tls_caller = Calling | Built nat | Returned nat

record tls_world =
  slot :: "nat option"                                 \<comment> \<open>\<open>tls_context_\<close>\<close>
  caller :: "nat \<Rightarrow> tls_caller"
  live :: "nat set"

definition tls_start :: tls_world where
  "tls_start = \<lparr>slot = None, caller = (\<lambda>_. Calling), live = {}\<rparr>"

inductive tls_step :: "tls_world \<Rightarrow> tls_world \<Rightarrow> bool" where
  found: "caller w i = Calling \<Longrightarrow> slot w = Some c \<Longrightarrow> tls_step w (w\<lparr>caller := (caller w)(i := Returned c)\<rparr>)"
| build: "caller w i = Calling \<Longrightarrow> slot w = None \<Longrightarrow> c \<notin> live w \<Longrightarrow>
     tls_step w (w\<lparr>caller := (caller w)(i := Built c), live := insert c (live w)\<rparr>)"
| wins: "caller w i = Built c \<Longrightarrow> slot w = None \<Longrightarrow>
     tls_step w (w\<lparr>slot := Some c, caller := (caller w)(i := Returned c)\<rparr>)"
| loses: "caller w i = Built c \<Longrightarrow> slot w = Some d \<Longrightarrow>
     tls_step w (w\<lparr>caller := (caller w)(i := Returned d), live := live w - {c}\<rparr>)"


text \<open>
  Every context that exists is the shared one or still belongs to the one caller that built it, and every
  caller that has returned has the shared one.
\<close>

definition tls_inv :: "tls_world \<Rightarrow> bool" where
  "tls_inv w \<longleftrightarrow> (\<forall>i c. caller w i = Returned c \<longrightarrow> slot w = Some c)
     \<and> (\<forall>i c. caller w i = Built c \<longrightarrow> c \<in> live w \<and> slot w \<noteq> Some c)
     \<and> (\<forall>i j c. caller w i = Built c \<longrightarrow> caller w j = Built c \<longrightarrow> i = j)
     \<and> (\<forall>c. slot w = Some c \<longrightarrow> c \<in> live w)
     \<and> (\<forall>c \<in> live w. slot w = Some c \<or> (\<exists>i. caller w i = Built c))"

lemma tls_inv_start: "tls_inv tls_start"
  by (simp add: tls_inv_def tls_start_def)

lemma tls_invD:
  assumes "tls_inv w"
  shows "caller w i = Returned c \<Longrightarrow> slot w = Some c"
    and "caller w i = Built c \<Longrightarrow> c \<in> live w" and "caller w i = Built c \<Longrightarrow> slot w \<noteq> Some c"
    and "caller w i = Built c \<Longrightarrow> caller w j = Built c \<Longrightarrow> i = j"
    and "slot w = Some c \<Longrightarrow> c \<in> live w"
    and "c \<in> live w \<Longrightarrow> slot w = Some c \<or> (\<exists>i. caller w i = Built c)"
  using assms unfolding tls_inv_def by blast+

lemma tls_invI:
  assumes "\<And>i c. caller v i = Returned c \<Longrightarrow> slot v = Some c"
    and "\<And>i c. caller v i = Built c \<Longrightarrow> c \<in> live v \<and> slot v \<noteq> Some c"
    and "\<And>i j c. caller v i = Built c \<Longrightarrow> caller v j = Built c \<Longrightarrow> i = j"
    and "\<And>c. slot v = Some c \<Longrightarrow> c \<in> live v"
    and "\<And>c. c \<in> live v \<Longrightarrow> slot v \<noteq> Some c \<Longrightarrow> \<exists>i. caller v i = Built c"
  shows "tls_inv v"
  using assms unfolding tls_inv_def by blast

lemma tls_inv_step:
  assumes "tls_inv w" "tls_step w v"
  shows "tls_inv v"
  using assms(2)
proof (cases rule: tls_step.cases)
  case (found i c)
  have built: "caller v j = Built d \<longleftrightarrow> caller w j = Built d" for j d using found by auto
  have frame: "slot v = slot w" "live v = live w" using found by simp_all
  have returned: "slot w = Some d" if "caller v j = Returned d" for j d
    using that found tls_invD(1) [OF assms(1), of j d] by (auto split: if_splits)
  note inv = tls_invD [OF assms(1)]
  show ?thesis
  proof (rule tls_invI)
    show "slot v = Some d" if "caller v j = Returned d" for j d
      using returned [OF that] by (simp add: frame)
    show "d \<in> live v \<and> slot v \<noteq> Some d" if "caller v j = Built d" for j d
      using that inv(2,3) [of j d] by (simp add: built frame)
    show "j = k" if "caller v j = Built d" "caller v k = Built d" for j k d
      using that inv(4) [of j d k] by (simp add: built)
    show "d \<in> live v" if "slot v = Some d" for d
      using that inv(5) [of d] by (simp add: frame)
    show "\<exists>j. caller v j = Built d" if "d \<in> live v" "slot v \<noteq> Some d" for d
      using that inv(6) [of d] by (simp add: built frame)
  qed
next
  case (build i c)
  have built: "caller v j = Built d \<longleftrightarrow> (if j = i then d = c else caller w j = Built d)" for j d using build by auto
  have returned: "caller v j = Returned d \<longleftrightarrow> caller w j = Returned d" for j d using build by auto
  have frame: "slot v = None" "live v = insert c (live w)" "caller w i = Calling" using build by simp_all
  note inv = tls_invD [OF assms(1)]
  show ?thesis
  proof (rule tls_invI)
    show "slot v = Some d" if "caller v j = Returned d" for j d
      using that inv(1) [of j d] build(3) by (simp add: returned)
    show "d \<in> live v \<and> slot v \<noteq> Some d" if "caller v j = Built d" for j d
      using that inv(2) [of j d] by (auto simp: built frame split: if_splits)
    show "j = k" if "caller v j = Built d" "caller v k = Built d" for j k d
    proof (cases "d = c")
      case True
      then show ?thesis using that inv(2) [of j c] inv(2) [of k c] build(4) by (simp add: built split: if_splits)
    next
      case False
      then show ?thesis using that inv(4) [of j d k] by (simp add: built split: if_splits)
    qed
    show "d \<in> live v" if "slot v = Some d" for d
      using that by (simp add: frame)
    show "\<exists>j. caller v j = Built d" if "d \<in> live v" "slot v \<noteq> Some d" for d
    proof (cases "d = c")
      case True
      then show ?thesis by (metis built)
    next
      case False
      then have "d \<in> live w" using that by (simp add: frame)
      then obtain j where "caller w j = Built d" using inv(6) [of d] build(3) by auto
      then show ?thesis using frame(3) by (metis built tls_caller.distinct(1))
    qed
  qed
next
  case (wins i c)
  have built: "caller v j = Built d \<longleftrightarrow> j \<noteq> i \<and> caller w j = Built d" for j d using wins by auto
  have frame: "slot v = Some c" "live v = live w" using wins by simp_all
  note inv = tls_invD [OF assms(1)]
  show ?thesis
  proof (rule tls_invI)
    show "slot v = Some d" if "caller v j = Returned d" for j d
      using that inv(1) [of j d] wins by (auto split: if_splits)
    show "d \<in> live v \<and> slot v \<noteq> Some d" if "caller v j = Built d" for j d
      using that [unfolded built] inv(2) [of j d] inv(4) [of i c j] wins(2) unfolding frame by auto
    show "j = k" if "caller v j = Built d" "caller v k = Built d" for j k d
      using that inv(4) [of j d k] by (simp add: built)
    show "d \<in> live v" if "slot v = Some d" for d
      using that inv(2) [of i c] wins by (simp add: frame)
    show "\<exists>j. caller v j = Built d" if "d \<in> live v" "slot v \<noteq> Some d" for d
      using that inv(6) [of d] wins unfolding built frame by (metis option.discI tls_caller.inject(1))
  qed
next
  case (loses i c d)
  have built: "caller v j = Built e \<longleftrightarrow> j \<noteq> i \<and> caller w j = Built e" for j e using loses by auto
  have frame: "slot v = Some d" "live v = live w - {c}" using loses by simp_all
  note inv = tls_invD [OF assms(1)]
  show ?thesis
  proof (rule tls_invI)
    show "slot v = Some e" if "caller v j = Returned e" for j e
      using that inv(1) [of j e] loses by (auto split: if_splits)
    show "e \<in> live v \<and> slot v \<noteq> Some e" if "caller v j = Built e" for j e
      using that [unfolded built] inv(2,3) [of j e] inv(4) [of i c j] loses(2,3) unfolding frame by auto
    show "j = k" if "caller v j = Built e" "caller v k = Built e" for j k e
      using that inv(4) [of j e k] by (simp add: built)
    show "e \<in> live v" if "slot v = Some e" for e
      using that inv(5) [of e] inv(3) [of i c] loses by (auto simp: frame)
    show "\<exists>j. caller v j = Built e" if "e \<in> live v" "slot v \<noteq> Some e" for e
      using that inv(6) [of e] loses unfolding built frame by (metis DiffE insertI1 tls_caller.inject(1))
  qed
qed

interpretation tls_once: inductive_invariant tls_start tls_step tls_inv
  by unfold_locales (auto intro: tls_inv_start tls_inv_step)

section \<open>The identity of the peer\<close>

text \<open>
  The OpenSSL and Asio calls of \<open>set_tls_peer_host\<close>: whether the host parses as an address and whether each setter
  succeeds, and the code on OpenSSL's error queue.
\<close>

record tls_calls =
  is_address :: "string \<Rightarrow> bool"                       \<comment> \<open>\<open>make_address\<close> reports no error\<close>
  set1_ip_asc :: "string \<Rightarrow> bool"
  set_sni :: "string \<Rightarrow> bool"                          \<comment> \<open>\<open>SSL_set_tlsext_host_name\<close>\<close>
  set1_host :: "string \<Rightarrow> bool"
  queued_error :: nat                                  \<comment> \<open>\<open>ERR_get_error\<close>\<close>
  verify_result :: "nat option"                        \<comment> \<open>\<open>SSL_get_verify_result\<close>, or \<^term>\<open>None\<close> for \<open>X509_V_OK\<close>\<close>
  verify_error_string :: "nat \<Rightarrow> string"

datatype tls_error = Invalid_argument | Ssl_error nat

text \<open>What an SSL handle will check and send.\<close>

record ssl_handle =
  expected_ip :: "string option"
  expected_host :: "string option"
  sni :: "string option"
  partial_wildcards :: bool

definition last_ssl_error :: "tls_calls \<Rightarrow> tls_error" where
  "last_ssl_error lib = (if queued_error lib = 0 then Invalid_argument else Ssl_error (queued_error lib))"

definition set_tls_peer_host :: "tls_calls \<Rightarrow> string \<Rightarrow> ssl_handle \<Rightarrow> tls_error option \<times> ssl_handle" where
  "set_tls_peer_host lib host ssl =
     (if host = [] then (Some Invalid_argument, ssl)
      else if is_address lib host
      then (if \<not> set1_ip_asc lib host then (Some (last_ssl_error lib), ssl)
            else (None, ssl\<lparr>expected_ip := Some host\<rparr>))
      else
        let ssl = ssl\<lparr>partial_wildcards := False\<rparr> in
        if \<not> set_sni lib host then (Some (last_ssl_error lib), ssl)
        else
          let ssl = ssl\<lparr>sni := Some host\<rparr> in
          if \<not> set1_host lib host then (Some (last_ssl_error lib), ssl)
          else (None, ssl\<lparr>expected_host := Some host\<rparr>))"

text \<open>The text of the exception; the error code passed in becomes its code.\<close>

definition tls_handshake_error :: "tls_calls \<Rightarrow> 'ec \<Rightarrow> 'ec \<times> string" where
  "tls_handshake_error lib ec = (case verify_result lib of
     Some r \<Rightarrow> (ec, ''TLS handshake failed ('' @ verify_error_string lib r @ '')'')
   | None \<Rightarrow> (ec, ''TLS handshake failed''))"

definition fresh_handle :: ssl_handle where
  "fresh_handle = \<lparr>expected_ip = None, expected_host = None, sni = None, partial_wildcards = True\<rparr>"

section \<open>Properties\<close>

text \<open>
  C35. However many threads race for the shared TLS context, they all get the same one, every other context that
  was built is gone once its builder has returned, and the shared one stays.
\<close>
theorem one_tls_context:
  assumes "reachable tls_start tls_step w" "caller w i = Returned c" "caller w j = Returned d"
  shows "c = d \<and> slot w = Some c \<and> c \<in> live w \<and> (\<forall>e. e \<in> live w \<and> e \<noteq> c \<longrightarrow> (\<exists>k. caller w k = Built e))"
  using tls_invD [OF tls_once.reachable_inv [OF assms(1)]] assms(2,3) by (metis option.inject)

theorem one_tls_context_witness:
  "\<exists>w :: tls_world. caller w 0 = Returned 0 \<and> caller w 1 = Returned 0 \<and> live w = {0} \<and> slot w = Some 0"
proof -
  let ?s = "\<lambda>s f l. \<lparr>slot = s, caller = (\<lambda>_. Calling)(0 := f, 1 := l), live = {0, 1}\<rparr>"
  have r0: "reachable tls_start tls_step tls_start" by (rule reachable.start)
  obtain a where a: "reachable tls_start tls_step a" "a = \<lparr>slot = None, caller = (\<lambda>_. Calling)(0 := Built 0), live = {0}\<rparr>"
    using reachable.next_step [OF r0 tls_step.build [of tls_start 0 0]] by (auto simp: tls_start_def)
  obtain b where b: "reachable tls_start tls_step b" "b = ?s None (Built 0) (Built 1)"
    using reachable.next_step [OF a(1) tls_step.build [of a 1 1]] a(2) by (auto simp: insert_commute)
  obtain c where c: "reachable tls_start tls_step c" "c = ?s (Some 0) (Returned 0) (Built 1)"
    using reachable.next_step [OF b(1) tls_step.wins [of b 0 0]] b(2) by (auto simp: fun_upd_twist)
  obtain d where d: "reachable tls_start tls_step d"
      "d = \<lparr>slot = Some 0, caller = (\<lambda>_. Calling)(0 := Returned 0, 1 := Returned 0), live = {0}\<rparr>"
    using reachable.next_step [OF c(1) tls_step.loses [of c 1 1 0]] c(2) by (auto simp: insert_Diff_if)
  have d_caller: "caller d 0 = Returned 0" "caller d 1 = Returned 0" "live d = {0}" by (simp_all add: d(2))
  have "slot d = Some 0" using one_tls_context [OF d(1), of 0 0 1 0] d(2) by simp
  then show ?thesis using d(2) by (metis (no_types, lifting) d_caller)
qed

text \<open>
  The trust roots are the ones \<open>tls.hpp\<close> documents: the peer is always verified; an explicit \<open>SSL_CERT_FILE\<close>
  or \<open>SSL_CERT_DIR\<close>, or an existing OpenSSL bundle, is not added to; otherwise the first OS bundle of the list
  that loads is added, and a warning is logged exactly when there is none.
\<close>
lemma trust_roots:
  assumes "default_paths_load env"
  shows "verify (make_tls_context env) = Verify_peer \<and> default_paths (make_tls_context env)
     \<and> (let explicit = env_var env (default_cert_file_env env) \<noteq> None \<or> env_var env (default_cert_dir_env env) \<noteq> None
               \<or> is_regular_file env (default_cert_file env) in
         extra_bundle (make_tls_context env) = (if explicit then None else find (verify_file_loads env) ca_bundles)
       \<and> (warnings (make_tls_context env) = [] \<longleftrightarrow> explicit \<or> find (verify_file_loads env) ca_bundles \<noteq> None))"
  using assms
  by (cases "find (verify_file_loads env) ca_bundles")
    (auto simp: make_tls_context_def make_context_def env_is_set_def load_platform_trust_roots_def load_first_bundle_find Let_def)

text \<open>
  On Windows every certificate of the ROOT store that OpenSSL can decode is trusted, unless the environment names the roots,
  and a store that does not open is reported.
\<close>
lemma windows_trust_roots:
  "verify (make_windows_context sys env) = Verify_peer
   \<and> imported (make_windows_context sys env) =
       (if env_var env (default_cert_file_env env) \<noteq> None \<or> env_var env (default_cert_dir_env env) \<noteq> None then []
        else case root_store sys of None \<Rightarrow> [] | Some ders \<Rightarrow> List.map_filter (d2i_X509 sys) ders)"
  by (auto simp: make_windows_context_def make_context_def env_is_set_def load_windows_trust_roots_def import_certificates_all
      Let_def split: option.split)

definition alpine :: tls_env where
  "alpine = \<lparr>env_var = (\<lambda>_. None), default_cert_file = ''/usr/local/ssl/cert.pem'', default_cert_file_env = ''SSL_CERT_FILE'',
     default_cert_dir_env = ''SSL_CERT_DIR'', is_regular_file = (\<lambda>_. False), verify_file_loads = (\<lambda>p. p = ''/etc/ssl/cert.pem''),
     default_paths_load = True\<rparr>"

lemma trust_roots_witness:
  "extra_bundle (make_tls_context alpine) = Some ''/etc/ssl/cert.pem'' \<and> warnings (make_tls_context alpine) = []"
  using trust_roots [of alpine] by (simp add: alpine_def ca_bundles_def Let_def)

text \<open>
  \<open>set_tls_peer_host\<close> never leaves a connection without an identity to check: when it reports no error the
  handle expects exactly the given host, as an IP address without SNI or as a DNS name with SNI and without
  partial wildcards; an empty host and every failing OpenSSL call is reported.
\<close>
lemma peer_identity_required:
  "case set_tls_peer_host lib host ssl of
     (None, ssl') \<Rightarrow> host \<noteq> []
       \<and> (if is_address lib host then expected_ip ssl' = Some host \<and> sni ssl' = sni ssl
          else expected_host ssl' = Some host \<and> sni ssl' = Some host \<and> \<not> partial_wildcards ssl')
   | (Some e, ssl') \<Rightarrow> host = [] \<and> e = Invalid_argument
       \<or> e = last_ssl_error lib \<and> (if is_address lib host then \<not> set1_ip_asc lib host else \<not> (set_sni lib host \<and> set1_host lib host))"
  by (auto simp: set_tls_peer_host_def Let_def)

end
