(* ===== verification/Http_Request.thy ===== *)
theory Http_Request
  imports Url Tls
begin

text \<open>
  The requests of \<open>Http\<close> (\<open>http.cpp\<close>): the message, the two session coroutines over an arbitrary network, the response
  a caller gets for each outcome, and the methods of the class.  Boost.Beast's field container and payload preparation
  are parameters, as are the network and OpenSSL.
\<close>

section \<open>Responses\<close>

record response =
  result_code :: "32 word"
  reason :: string
  result_text :: string

definition is_ok :: "response \<Rightarrow> bool" where
  "is_ok r \<longleftrightarrow> result_code r \<ge> 200 \<and> result_code r < 300"

text \<open>A received message: \<open>result_int()\<close>, \<open>reason()\<close> and the body.\<close>

record received =
  received_code :: nat
  received_reason :: string
  received_body :: string

definition make_response :: "received \<Rightarrow> response" where
  "make_response res =
     \<lparr>result_code = word_of_nat (received_code res), reason = received_reason res, result_text = received_body res\<rparr>"

text \<open>An exception: a \<open>std::exception\<close> with its text, or any other.\<close>

datatype thrown = Std_exception string | Other_exception

fun async_error_response :: "thrown \<Rightarrow> response" where
  "async_error_response (Std_exception what) = \<lparr>result_code = 500, reason = what, result_text = []\<rparr>"
| "async_error_response Other_exception = \<lparr>result_code = 500, reason = ''Unknown error'', result_text = []\<rparr>"

text \<open>The completion handlers of \<open>spawn_async_request\<close> and of \<open>run_sync_request\<close>, whose \<open>res\<close> is empty before.\<close>

definition async_response :: "thrown + response \<Rightarrow> response" where
  "async_response outcome = (case outcome of Inl e \<Rightarrow> async_error_response e | Inr r \<Rightarrow> r)"

fun sync_response :: "thrown + response \<Rightarrow> response" where
  "sync_response (Inr r) = r"
| "sync_response (Inl (Std_exception what)) = \<lparr>result_code = 500, reason = [], result_text = what\<rparr>"
| "sync_response (Inl Other_exception) = \<lparr>result_code = 500, reason = [], result_text = ''Unknown error''\<rparr>"

section \<open>The request message\<close>

datatype verb = Get | Post | Put | Patch | Delete

record 'f message =
  msg_verb :: verb
  msg_target :: string
  msg_version :: nat
  msg_fields :: 'f
  msg_body :: string

text \<open>Boost.Beast: the field container and \<open>prepare_payload\<close>.\<close>

record 'f beast =
  no_fields :: 'f
  set_field :: "string \<Rightarrow> string \<Rightarrow> 'f \<Rightarrow> 'f"
  get_field :: "'f \<Rightarrow> string \<Rightarrow> string option"
  prepare_payload :: "'f message \<Rightarrow> 'f message"
  version_string :: string              \<comment> \<open>\<open>BOOST_BEAST_VERSION_STRING\<close>\<close>

fun set_headers :: "'f beast \<Rightarrow> (string \<times> string) list \<Rightarrow> 'f \<Rightarrow> 'f" where
  "set_headers lib [] f = f"
| "set_headers lib ((name, value) # hs) f = set_headers lib hs (set_field lib name value f)"

text \<open>A header set by the caller replaces the default one of the same name.\<close>

definition make_request :: "'f beast \<Rightarrow> string \<Rightarrow> string \<Rightarrow> verb \<Rightarrow> (string \<times> string) list \<Rightarrow> string \<Rightarrow> nat \<Rightarrow> 'f message" where
  "make_request lib host_header target method headers body version =
     (let fields = set_field lib ''Host'' host_header (no_fields lib);
          fields = set_field lib ''User-Agent'' (version_string lib) fields;
          req = \<lparr>msg_verb = method, msg_target = target, msg_version = version,
                 msg_fields = set_headers lib headers fields, msg_body = []\<rparr>
      in if body \<noteq> [] then prepare_payload lib (req\<lparr>msg_body := body\<rparr>) else req)"

section \<open>The sessions\<close>

text \<open>The calls on the network, in order; a message is written in the clear or over TLS.\<close>

datatype 'f net_call =
    Resolves string string | Connects | Handshakes ssl_handle | Writes bool "'f message" | Reads | Closes

text \<open>
  What the network answers: an error is the text of the \<open>system_error\<close> the operation throws.  The handshake sees the SSL
  handle; \<open>certificate\<close> are the names and addresses the peer's certificate is good for.
\<close>

record network =
  resolve_answer :: "string \<Rightarrow> string \<Rightarrow> string option"
  connect_answer :: "string option"
  handshake_answer :: "ssl_handle \<Rightarrow> nat option"
  write_answer :: "string option"
  read_answer :: "string + received"
  certificate :: "string set"

text \<open>
  What a request runs on.  \<open>error_text\<close> is \<open>error_code::message()\<close>, and \<open>system_text\<close> the text of a \<open>system_error\<close> with a
  code and a prefix.
\<close>

record 'f client =
  lib :: "'f beast"
  net :: network
  openssl :: tls_calls
  error_text :: "tls_error \<Rightarrow> string"
  system_text :: "nat \<Rightarrow> string \<Rightarrow> string"

text \<open>A session makes calls and ends with an exception or a result.\<close>

type_synonym ('f, 'a) session = "'f net_call list \<times> (thrown + 'a)"

definition and_then :: "'c list \<times> (thrown + 'a) \<Rightarrow> ('a \<Rightarrow> 'c list \<times> (thrown + 'b)) \<Rightarrow> 'c list \<times> (thrown + 'b)" where
  "and_then p k = (case snd p of Inl e \<Rightarrow> (fst p, Inl e) | Inr x \<Rightarrow> (fst p @ fst (k x), snd (k x)))"

text \<open>One awaited operation without a result.\<close>

definition await :: "'c \<Rightarrow> string option \<Rightarrow> 'c list \<times> (thrown + unit)" where
  "await call failed = ([call], case failed of None \<Rightarrow> Inr () | Some what \<Rightarrow> Inl (Std_exception what))"

text \<open>
  From the request on, both sessions do the same: write it, read the response, close.  Closing reports its errors to the
  log only.
\<close>

definition exchange :: "bool \<Rightarrow> network \<Rightarrow> 'f message \<Rightarrow> ('f, response) session" where
  "exchange secure n req =
     and_then (await (Writes secure req) (write_answer n)) (\<lambda>_.
     case read_answer n of
       Inl what \<Rightarrow> ([Reads], Inl (Std_exception what))
     | Inr res \<Rightarrow> ([Reads, Closes], Inr (make_response res)))"

definition do_session_plain :: "'f client \<Rightarrow> string \<Rightarrow> string \<Rightarrow> string \<Rightarrow> string \<Rightarrow> verb \<Rightarrow> (string \<times> string) list
    \<Rightarrow> string \<Rightarrow> nat \<Rightarrow> ('f, response) session" where
  "do_session_plain c host target port host_header method headers body version =
     and_then (await (Resolves host port) (resolve_answer (net c) host port)) (\<lambda>_.
     and_then (await Connects (connect_answer (net c))) (\<lambda>_.
     exchange False (net c) (make_request (lib c) host_header target method headers body version)))"

definition do_session_ssl :: "'f client \<Rightarrow> string \<Rightarrow> string \<Rightarrow> string \<Rightarrow> string \<Rightarrow> verb \<Rightarrow> (string \<times> string) list
    \<Rightarrow> string \<Rightarrow> nat \<Rightarrow> ('f, response) session" where
  "do_session_ssl c host target port host_header method headers body version =
     (case set_tls_peer_host (openssl c) host fresh_handle of
        (Some ec, _) \<Rightarrow>
          ([], Inr \<lparr>result_code = 5000, reason = ''Error setting TLS peer host: '' @ error_text c ec, result_text = []\<rparr>)
      | (None, handle) \<Rightarrow>
          and_then (await (Resolves host port) (resolve_answer (net c) host port)) (\<lambda>_.
          and_then (await Connects (connect_answer (net c))) (\<lambda>_.
          and_then (await (Handshakes handle)
              (case handshake_answer (net c) handle of
                 None \<Rightarrow> None
               | Some ec \<Rightarrow> (case tls_handshake_error (openssl c) ec of (code, what) \<Rightarrow> Some (system_text c code what)))) (\<lambda>_.
          exchange True (net c) (make_request (lib c) host_header target method headers body version)))))"

text \<open>A malformed URL throws \<open>std::invalid_argument\<close> inside the coroutine.\<close>

fun invalid_argument_text :: "url_error \<Rightarrow> string" where
  "invalid_argument_text (Url.Invalid_argument what) = what"

definition do_session :: "'f client \<Rightarrow> string \<Rightarrow> verb \<Rightarrow> (string \<times> string) list \<Rightarrow> string \<Rightarrow> nat \<Rightarrow> ('f, response) session" where
  "do_session c url method headers body version =
     (case parse_url url of
        Inl e \<Rightarrow> ([], Inl (Std_exception (invalid_argument_text e)))
      | Inr (host, target, port, use_ssl, host_header) \<Rightarrow>
          (if use_ssl then do_session_ssl c host target port host_header method headers body version
           else do_session_plain c host target port host_header method headers body version))"

section \<open>The methods of Http\<close>

text \<open>
  Each method comes in three forms: one that blocks and returns the response, one that hands it to a callback, and one
  that is awaited, whose caller gets the exception itself.
\<close>

definition run_sync_request :: "'f client \<Rightarrow> string \<Rightarrow> verb \<Rightarrow> (string \<times> string) list \<Rightarrow> string \<Rightarrow> 'f net_call list \<times> response" where
  "run_sync_request c url method headers body =
     (let p = do_session c url method headers body 11 in (fst p, sync_response (snd p)))"

definition spawn_async_request :: "'f client \<Rightarrow> 'e option \<Rightarrow> string \<Rightarrow> verb \<Rightarrow> (string \<times> string) list \<Rightarrow> string
    \<Rightarrow> 'e option \<times> 'f net_call list \<times> response" where
  "spawn_async_request c executor url method headers body =
     (let p = do_session c url method headers body 11 in (executor, fst p, async_response (snd p)))"

definition http_get :: "'f client \<Rightarrow> string \<Rightarrow> (string \<times> string) list \<Rightarrow> 'f net_call list \<times> response" where
  "http_get c url headers = run_sync_request c url Get headers []"

definition http_post :: "'f client \<Rightarrow> string \<Rightarrow> string \<Rightarrow> (string \<times> string) list \<Rightarrow> 'f net_call list \<times> response" where
  "http_post c url data headers = run_sync_request c url Post headers data"

definition http_put :: "'f client \<Rightarrow> string \<Rightarrow> string \<Rightarrow> (string \<times> string) list \<Rightarrow> 'f net_call list \<times> response" where
  "http_put c url data headers = run_sync_request c url Put headers data"

definition http_patch :: "'f client \<Rightarrow> string \<Rightarrow> string \<Rightarrow> (string \<times> string) list \<Rightarrow> 'f net_call list \<times> response" where
  "http_patch c url data headers = run_sync_request c url Patch headers data"

definition http_del :: "'f client \<Rightarrow> string \<Rightarrow> string \<Rightarrow> (string \<times> string) list \<Rightarrow> 'f net_call list \<times> response" where
  "http_del c url data headers = run_sync_request c url Delete headers data"

text \<open>With the callback, and an executor that may be empty.\<close>

definition async_get :: "'f client \<Rightarrow> 'e option \<Rightarrow> string \<Rightarrow> (string \<times> string) list \<Rightarrow> 'e option \<times> 'f net_call list \<times> response" where
  "async_get c executor url headers = spawn_async_request c executor url Get headers []"

definition async_post :: "'f client \<Rightarrow> 'e option \<Rightarrow> string \<Rightarrow> string \<Rightarrow> (string \<times> string) list \<Rightarrow> 'e option \<times> 'f net_call list \<times> response" where
  "async_post c executor url data headers = spawn_async_request c executor url Post headers data"

definition async_put :: "'f client \<Rightarrow> 'e option \<Rightarrow> string \<Rightarrow> string \<Rightarrow> (string \<times> string) list \<Rightarrow> 'e option \<times> 'f net_call list \<times> response" where
  "async_put c executor url data headers = spawn_async_request c executor url Put headers data"

definition async_patch :: "'f client \<Rightarrow> 'e option \<Rightarrow> string \<Rightarrow> string \<Rightarrow> (string \<times> string) list \<Rightarrow> 'e option \<times> 'f net_call list \<times> response" where
  "async_patch c executor url data headers = spawn_async_request c executor url Patch headers data"

definition async_del :: "'f client \<Rightarrow> 'e option \<Rightarrow> string \<Rightarrow> string \<Rightarrow> (string \<times> string) list \<Rightarrow> 'e option \<times> 'f net_call list \<times> response" where
  "async_del c executor url data headers = spawn_async_request c executor url Delete headers data"

text \<open>The overloads without an executor pass an empty one.\<close>

definition async_get_unbound :: "'f client \<Rightarrow> string \<Rightarrow> (string \<times> string) list \<Rightarrow> 'e option \<times> 'f net_call list \<times> response" where
  "async_get_unbound c url headers = async_get c None url headers"

definition async_post_unbound :: "'f client \<Rightarrow> string \<Rightarrow> string \<Rightarrow> (string \<times> string) list \<Rightarrow> 'e option \<times> 'f net_call list \<times> response" where
  "async_post_unbound c url data headers = async_post c None url data headers"

definition async_put_unbound :: "'f client \<Rightarrow> string \<Rightarrow> string \<Rightarrow> (string \<times> string) list \<Rightarrow> 'e option \<times> 'f net_call list \<times> response" where
  "async_put_unbound c url data headers = async_put c None url data headers"

definition async_patch_unbound :: "'f client \<Rightarrow> string \<Rightarrow> string \<Rightarrow> (string \<times> string) list \<Rightarrow> 'e option \<times> 'f net_call list \<times> response" where
  "async_patch_unbound c url data headers = async_patch c None url data headers"

definition async_del_unbound :: "'f client \<Rightarrow> string \<Rightarrow> string \<Rightarrow> (string \<times> string) list \<Rightarrow> 'e option \<times> 'f net_call list \<times> response" where
  "async_del_unbound c url data headers = async_del c None url data headers"

text \<open>Awaited.\<close>

definition awaitable_get :: "'f client \<Rightarrow> string \<Rightarrow> (string \<times> string) list \<Rightarrow> ('f, response) session" where
  "awaitable_get c url headers = do_session c url Get headers [] 11"

definition awaitable_post :: "'f client \<Rightarrow> string \<Rightarrow> string \<Rightarrow> (string \<times> string) list \<Rightarrow> ('f, response) session" where
  "awaitable_post c url data headers = do_session c url Post headers data 11"

definition awaitable_put :: "'f client \<Rightarrow> string \<Rightarrow> string \<Rightarrow> (string \<times> string) list \<Rightarrow> ('f, response) session" where
  "awaitable_put c url data headers = do_session c url Put headers data 11"

definition awaitable_patch :: "'f client \<Rightarrow> string \<Rightarrow> string \<Rightarrow> (string \<times> string) list \<Rightarrow> ('f, response) session" where
  "awaitable_patch c url data headers = do_session c url Patch headers data 11"

definition awaitable_del :: "'f client \<Rightarrow> string \<Rightarrow> string \<Rightarrow> (string \<times> string) list \<Rightarrow> ('f, response) session" where
  "awaitable_del c url data headers = do_session c url Delete headers data 11"

section \<open>The calls of a session\<close>

lemma fst_and_then: "fst (and_then p k) = fst p @ (case snd p of Inl e \<Rightarrow> [] | Inr x \<Rightarrow> fst (k x))"
  by (simp add: and_then_def split: sum.split)

lemma snd_and_then: "snd (and_then p k) = (case snd p of Inl e \<Rightarrow> Inl e | Inr x \<Rightarrow> snd (k x))"
  by (simp add: and_then_def split: sum.split)

lemma await_simps:
  "fst (await call failed) = [call]"
  "snd (await call failed) = (case failed of None \<Rightarrow> Inr () | Some what \<Rightarrow> Inl (Std_exception what))"
  by (simp_all add: await_def)

lemmas session_simps = fst_and_then snd_and_then await_simps

lemma exchange_Inr: "snd (exchange secure n req) = Inr r \<Longrightarrow>
    \<exists>res. read_answer n = Inr res \<and> r = make_response res \<and> fst (exchange secure n req) = [Writes secure req, Reads, Closes]"
  by (auto simp: exchange_def session_simps split: sum.splits option.splits)

lemma exchange_Writes: "Writes b m \<in> set (fst (exchange secure n req)) \<longleftrightarrow> b = secure \<and> m = req"
  by (auto simp: exchange_def session_simps split: sum.splits option.splits)

text \<open>A plain session writes in the clear; a TLS session over TLS, after a handshake for the identity of the host.\<close>

lemma plain_Writes: "Writes b m \<in> set (fst (do_session_plain c host target port hdr method headers body version)) \<Longrightarrow> \<not> b"
  by (auto simp: do_session_plain_def session_simps exchange_Writes split: sum.splits option.splits)

lemma ssl_Writes:
  assumes "Writes b m \<in> set (fst (do_session_ssl c host target port hdr method headers body version))"
  shows "b \<and> (\<exists>handle. set_tls_peer_host (openssl c) host fresh_handle = (None, handle) \<and> handshake_answer (net c) handle = None)"
  using assms
  by (auto simp: do_session_ssl_def session_simps exchange_Writes split: sum.splits option.splits prod.splits)

lemma plain_Inr:
  assumes "snd (do_session_plain c host target port hdr method headers body version) = Inr r"
  shows "\<exists>res. read_answer (net c) = Inr res \<and> r = make_response res"
  using assms by (auto simp: do_session_plain_def session_simps dest!: exchange_Inr split: sum.splits option.splits)

lemma ssl_Inr:
  assumes "snd (do_session_ssl c host target port hdr method headers body version) = Inr r"
  shows "result_code r = 5000 \<or> (\<exists>res. read_answer (net c) = Inr res \<and> r = make_response res)"
  using assms
  by (auto simp: do_session_ssl_def session_simps dest!: exchange_Inr split: sum.splits option.splits prod.splits)

lemma ssl_identity: "set_tls_peer_host ssl host fresh_handle = (None, handle) \<Longrightarrow>
    host \<noteq> [] \<and> (expected_host handle = Some host \<or> expected_ip handle = Some host)"
  by (auto simp: set_tls_peer_host_def fresh_handle_def Let_def split: if_splits)

text \<open>
  What a handshake of OpenSSL with \<open>SSL_VERIFY_PEER\<close> is documented to do: it succeeds only with a peer whose certificate is
  good for the host or address the handle expects.
\<close>

definition verifies_peers :: "network \<Rightarrow> bool" where
  "verifies_peers n \<longleftrightarrow> (\<forall>handle x. handshake_answer n handle = None \<longrightarrow>
     expected_host handle = Some x \<or> expected_ip handle = Some x \<longrightarrow> x \<in> certificate n)"

lemma verified_identity:
  assumes "verifies_peers n" "set_tls_peer_host ssl host fresh_handle = (None, handle)" "handshake_answer n handle = None"
  shows "host \<in> certificate n \<and> host \<noteq> []"
  using assms ssl_identity unfolding verifies_peers_def by blast

text \<open>
  What the three clients of \<open>set_tls_peer_host\<close> share.  \<open>calls\<close> are the calls of a session, \<open>sends\<close> tells which of them talk to
  the peer, and over TLS or not, and \<open>peer\<close> is what the URL asks for: TLS, and the host.
\<close>

locale identified_peers =
  fixes calls :: "'w \<Rightarrow> 'c list" and sends :: "'c \<Rightarrow> bool option" and network_of :: "'w \<Rightarrow> network"
    and openssl_of :: "'w \<Rightarrow> tls_calls" and peer :: "'w \<Rightarrow> bool \<times> string"
  assumes sent: "c \<in> set (calls w) \<Longrightarrow> sends c = Some tls \<Longrightarrow> (tls \<longleftrightarrow> fst (peer w))
    \<and> (tls \<longrightarrow> (\<exists>handle. set_tls_peer_host (openssl_of w) (snd (peer w)) fresh_handle = (None, handle)
          \<and> handshake_answer (network_of w) handle = None))"
begin

lemma sent_to_verified_peer:
  assumes "verifies_peers (network_of w)" "c \<in> set (calls w)" "sends c = Some tls"
  shows "(tls \<longleftrightarrow> fst (peer w)) \<and> (tls \<longrightarrow> snd (peer w) \<in> certificate (network_of w) \<and> snd (peer w) \<noteq> [])"
  using sent [OF assms(2,3)] verified_identity [OF assms(1)] by blast

end

fun net_sends :: "'f net_call \<Rightarrow> bool option" where
  "net_sends (Writes tls m) = Some tls"
| "net_sends _ = None"

lemma net_sends_Some: "net_sends c = Some tls \<longleftrightarrow> (\<exists>m. c = Writes tls m)"
  by (cases c) auto

definition url_peer :: "string \<Rightarrow> bool \<times> string" where
  "url_peer url = (case parse_url url of Inr (host, target, port, ssl, header) \<Rightarrow> (ssl, host) | Inl e \<Rightarrow> (False, []))"

interpretation http_peers: identified_peers "\<lambda>(c, url). fst (do_session c url vb headers body version)" net_sends
  "\<lambda>(c, url). net c" "\<lambda>(c, url). openssl c" "\<lambda>(c, url). url_peer url" for vb headers body version
proof unfold_locales
  fix call and w :: "'f client \<times> string" and tls
  obtain c url where w: "w = (c, url)" by fastforce
  assume "call \<in> set (case w of (c, url) \<Rightarrow> fst (do_session c url vb headers body version))" "net_sends call = Some tls"
  then obtain m where m: "Writes tls m \<in> set (fst (do_session c url vb headers body version))"
    by (auto simp: w net_sends_Some)
  obtain host target port ssl header where url: "parse_url url = Inr (host, target, port, ssl, header)"
    using m by (auto simp: do_session_def split: sum.splits)
  show "(tls \<longleftrightarrow> fst (case w of (c, url) \<Rightarrow> url_peer url)) \<and> (tls \<longrightarrow> (\<exists>handle.
      set_tls_peer_host (case w of (c, url) \<Rightarrow> openssl c) (snd (case w of (c, url) \<Rightarrow> url_peer url)) fresh_handle = (None, handle)
      \<and> handshake_answer (case w of (c, url) \<Rightarrow> net c) handle = None))"
  proof (cases ssl)
    case True
    then have "Writes tls m \<in> set (fst (do_session_ssl c host target port header vb headers body version))"
      using m url by (simp add: do_session_def)
    from ssl_Writes [OF this] show ?thesis using True url by (simp add: w url_peer_def)
  next
    case False
    then have "Writes tls m \<in> set (fst (do_session_plain c host target port header vb headers body version))"
      using m url by (simp add: do_session_def)
    from plain_Writes [OF this] show ?thesis using False url by (simp add: w url_peer_def)
  qed
qed

lemma error_not_ok:
  "\<not> is_ok (async_error_response e)" "\<not> is_ok (sync_response (Inl e))" "result_code r = 5000 \<Longrightarrow> \<not> is_ok r"
proof -
  have codes: "\<not> (500 :: 32 word) < 300" "\<not> (5000 :: 32 word) < 300" by simp_all
  show "\<not> is_ok (async_error_response e)" "\<not> is_ok (sync_response (Inl e))" by (cases e; simp add: is_ok_def codes)+
  show "result_code r = 5000 \<Longrightarrow> \<not> is_ok r" by (simp add: is_ok_def codes)
qed

section \<open>The header fields\<close>

text \<open>
  What \<open>basic_fields::set\<close> and \<open>prepare_payload\<close> are documented to do: \<open>set\<close> replaces all fields of that name, names
  compare without case; \<open>prepare_payload\<close> touches the fields that describe the payload only.
\<close>

definition same_name :: "string \<Rightarrow> string \<Rightarrow> bool" where
  "same_name a b \<longleftrightarrow> map to_lower a = map to_lower b"

definition beast_contract :: "'f beast \<Rightarrow> bool" where
  "beast_contract b \<longleftrightarrow> (\<forall>name. get_field b (no_fields b) name = None)
     \<and> (\<forall>f n v name. get_field b (set_field b n v f) name = (if same_name name n then Some v else get_field b f name))
     \<and> (\<forall>m name. \<not> same_name name ''Content-Length'' \<and> \<not> same_name name ''Transfer-Encoding'' \<longrightarrow>
          get_field b (msg_fields (prepare_payload b m)) name = get_field b (msg_fields m) name)
     \<and> (\<forall>m. msg_verb (prepare_payload b m) = msg_verb m \<and> msg_target (prepare_payload b m) = msg_target m
          \<and> msg_body (prepare_payload b m) = msg_body m)"

text \<open>The last header of that name, or the default.\<close>

definition header_value :: "string \<Rightarrow> string \<Rightarrow> (string \<times> string) list \<Rightarrow> string \<Rightarrow> string option" where
  "header_value host_header agent headers name =
     (case find (\<lambda>(n, v). same_name name n) (rev headers) of
        Some (n, v) \<Rightarrow> Some v
      | None \<Rightarrow> if same_name name ''User-Agent'' then Some agent else if same_name name ''Host'' then Some host_header else None)"

lemma set_headers_get:
  assumes "\<And>f n v. get_field b (set_field b n v f) name = (if same_name name n then Some v else get_field b f name)"
  shows "get_field b (set_headers b headers f) name =
    (case find (\<lambda>(n, v). same_name name n) (rev headers) of Some (n, v) \<Rightarrow> Some v | None \<Rightarrow> get_field b f name)"
proof (induction headers arbitrary: f rule: rev_induct)
  case (snoc h headers)
  have app: "set_headers b (hs @ [(n, v)]) f = set_field b n v (set_headers b hs f)" for hs n v f
    by (induction hs arbitrary: f) auto
  show ?case using snoc by (cases h) (simp add: app assms)
qed simp

section \<open>Properties\<close>

text \<open>
  C8. A request is written over the kind of connection its URL asks for, and over TLS only to a peer whose certificate is
  good for the host of the URL: no request of an \<open>https\<close> URL leaves in the clear or before the peer was identified.
\<close>
theorem request_only_to_verified_peer:
  assumes "Writes secure m \<in> set (fst (do_session c url method headers body version))"
    and "verifies_peers (net c)"
  shows "\<exists>host target port header. parse_url url = Inr (host, target, port, secure, header) \<and>
    (secure \<longrightarrow> host \<in> certificate (net c) \<and> host \<noteq> [])"
proof -
  obtain host target port ssl header where url: "parse_url url = Inr (host, target, port, ssl, header)"
    using assms(1) by (auto simp: do_session_def split: sum.splits)
  then show ?thesis
    using http_peers.sent_to_verified_peer [of "(c, url)" "Writes secure m" "method" headers body version] assms
    by (auto simp: url_peer_def)
qed

text \<open>A client that works: fields as a map, a server for host \<open>h\<close> that answers 200.\<close>

definition map_beast :: "(string \<Rightarrow> string option) beast" where
  "map_beast = \<lparr>no_fields = (\<lambda>_. None), set_field = (\<lambda>n v f m. if same_name m n then Some v else f m), get_field = (\<lambda>f. f),
     prepare_payload = (\<lambda>m. m\<lparr>msg_fields := (\<lambda>n. if same_name n ''Content-Length'' then Some (to_chars (length (msg_body m)))
       else msg_fields m n)\<rparr>), version_string = ''Boost.Beast''\<rparr>"

definition ok_client :: "(string \<Rightarrow> string option) client" where
  "ok_client = \<lparr>lib = map_beast,
     net = \<lparr>resolve_answer = (\<lambda>_ _. None), connect_answer = None, handshake_answer = (\<lambda>h. if expected_host h = Some ''h'' \<and> expected_ip h = None then None else Some 1),
       write_answer = None, read_answer = Inr \<lparr>received_code = 200, received_reason = ''OK'', received_body = ''x''\<rparr>, certificate = {''h''}\<rparr>,
     openssl = \<lparr>is_address = (\<lambda>_. False), set1_ip_asc = (\<lambda>_. True), set_sni = (\<lambda>_. True), set1_host = (\<lambda>_. True),
       queued_error = 0, verify_result = None, verify_error_string = (\<lambda>_. [])\<rparr>,
     error_text = (\<lambda>_. []), system_text = (\<lambda>_ what. what)\<rparr>"

lemma ok_client_verifies: "verifies_peers (net ok_client)"
  by (auto simp: verifies_peers_def ok_client_def split: if_splits)

lemma parse_h: "parse_url ''https://h/a'' = Inr (''h'', ''/a'', ''443'', True, ''h'')"
proof -
  have "parse_url_parts ''https://h/a'' ''http'' ''https'' =
     Inr \<lparr>url_host = ''h'', url_target = ''/a'', url_port = 443, url_use_ssl = True\<rparr>"
    by (simp add: url_eval)
  then show ?thesis
    by (simp add: parse_url_def format_host_header_def format_authority_def find_char_def to_chars_rec char_codes)
qed

theorem request_only_to_verified_peer_witness:
  "\<exists>host target port header. parse_url ''https://h/a'' = Inr (host, target, port, True, header) \<and> host \<in> certificate (net ok_client)"
proof -
  have "\<exists>m. Writes True m \<in> set (fst (do_session ok_client ''https://h/a'' Get [] [] 11))"
    by (simp add: do_session_def parse_h do_session_ssl_def session_simps exchange_Writes set_tls_peer_host_def ok_client_def fresh_handle_def)
  then obtain m where m: "Writes True m \<in> set (fst (do_session ok_client ''https://h/a'' Get [] [] 11))" by blast
  have "verifies_peers (net ok_client)" by (rule ok_client_verifies)
  with request_only_to_verified_peer [OF m] show ?thesis by blast
qed

text \<open>
  C27. A response is only ever good when the server sent it: if the blocking or the callback form of a request reports
  success, then its response is the one read from the connection; a malformed URL, a failing operation and a rejected
  peer identity are all reported as failures.
\<close>
theorem good_response_was_received:
  assumes "is_ok (sync_response (snd (do_session c url method headers body version)))
    \<or> is_ok (async_response (snd (do_session c url method headers body version)))"
  shows "\<exists>res. read_answer (net c) = Inr res \<and> snd (do_session c url method headers body version) = Inr (make_response res)"
proof -
  obtain r where r: "snd (do_session c url method headers body version) = Inr r" and ok: "is_ok r"
    using assms error_not_ok(1,2)
    by (cases "snd (do_session c url method headers body version)") (auto simp: async_response_def)
  then show ?thesis using plain_Inr ssl_Inr error_not_ok(3)
    by (fastforce simp: do_session_def split: sum.splits prod.splits if_splits)
qed

theorem good_response_was_received_witness:
  "\<exists>res. read_answer (net ok_client) = Inr res \<and> snd (do_session ok_client ''https://h/a'' Get [] [] 11) = Inr (make_response res)"
proof (rule good_response_was_received)
  have "snd (do_session ok_client ''https://h/a'' Get [] [] 11) = Inr \<lparr>result_code = 200, reason = ''OK'', result_text = ''x''\<rparr>"
    by (simp add: do_session_def parse_h do_session_ssl_def session_simps exchange_def make_response_def
        set_tls_peer_host_def ok_client_def fresh_handle_def)
  then show "is_ok (sync_response (snd (do_session ok_client ''https://h/a'' Get [] [] 11)))
      \<or> is_ok (async_response (snd (do_session ok_client ''https://h/a'' Get [] [] 11)))"
    by (simp add: is_ok_def)
qed

text \<open>
  The message a request sends has the method, target and body asked for, and each header field other than those that
  describe the payload has the last value the caller gave for that name; without one, \<open>Host\<close> is the URL's authority and
  \<open>User-Agent\<close> the library's.
\<close>
lemma request_message:
  assumes "beast_contract b" "\<not> same_name name ''Content-Length''" "\<not> same_name name ''Transfer-Encoding''"
  shows "let req = make_request b host_header target method headers body version in
    get_field b (msg_fields req) name = header_value host_header (version_string b) headers name
    \<and> msg_verb req = method \<and> msg_target req = target \<and> msg_body req = body"
proof -
  have set: "\<And>f n v. get_field b (set_field b n v f) name = (if same_name name n then Some v else get_field b f name)"
    and none: "get_field b (no_fields b) name = None"
    using assms(1) by (simp_all add: beast_contract_def)
  have "get_field b (set_headers b headers (set_field b ''User-Agent'' (version_string b)
      (set_field b ''Host'' host_header (no_fields b)))) name = header_value host_header (version_string b) headers name"
    by (simp add: set_headers_get [OF set] set none header_value_def split: option.split)
  then show ?thesis using assms by (simp add: make_request_def beast_contract_def Let_def)
qed

lemma request_message_witness:
  "get_field map_beast (msg_fields (make_request map_beast ''h'' ''/'' Post [(''host'', ''other'')] ''x'' 11)) ''Host'' = Some ''other''"
proof -
  have "beast_contract map_beast" by (simp add: beast_contract_def map_beast_def)
  moreover have "\<not> same_name ''Host'' ''Content-Length''" "\<not> same_name ''Host'' ''Transfer-Encoding''" "same_name ''Host'' ''host''"
    by (simp_all add: same_name_def to_lower_def char_codes)
  ultimately show ?thesis
    using request_message [of map_beast "''Host''" "''h''" "''/''" Post "[(''host'', ''other'')]" "''x''" 11]
    by (simp add: header_value_def Let_def)
qed

text \<open>
  The text of a failure is put in different fields: the callback form reports it as \<open>reason\<close> and leaves \<open>result_text\<close>
  empty, the blocking form the other way round.
\<close>
lemma error_text_moves:
  "async_response (Inl (Std_exception what)) = \<lparr>result_code = 500, reason = what, result_text = []\<rparr>"
  "sync_response (Inl (Std_exception what)) = \<lparr>result_code = 500, reason = [], result_text = what\<rparr>"
  by (simp_all add: async_response_def)

end
