(* ===== verification/Http_Service.thy ===== *)
theory Http_Service
  imports Service_Pool_Ends Http_Request
begin

text \<open>
  The callback-based requests of \<open>http.cpp\<close> on its service: \<open>spawn_async_request\<close>, \<open>response_delivery\<close> and the callback
  threads, over the service pool of \<open>Service_Pool\<close>.  When a request's session ends, and how, is chosen by the
  environment, as are the executors that callers pass.
\<close>

section \<open>State\<close>

text \<open>The handler a service thread runs: \<open>operator()\<close> of a delivery, or a callback posted to \<open>callback_ioc_\<close>.\<close>

datatype delivery =
    Completes nat response      \<comment> \<open>\<open>operator()\<close> before its check of the epoch\<close>
  | Delivers nat response       \<comment> \<open>after it\<close>
  | Dequeued nat response       \<comment> \<open>the posted handler before its check\<close>
  | Calls_back nat response     \<comment> \<open>after it\<close>
  | In_callback nat response    \<comment> \<open>\<open>on_response\<close> runs\<close>

record delivery_request =
  has_executor :: bool
  request_epoch :: "64 word"

text \<open>History: how a session ended, and the calls of \<open>on_response\<close>, on the caller's executor or a service thread.\<close>

datatype http_event = Session_ended nat "thrown + response" | Called nat response bool

record http_service =
  pool :: "delivery pool"
  making :: "nat \<Rightarrow> delivery_request option"   \<comment> \<open>the delivery a caller has constructed\<close>
  requests :: "delivery_request list"
  in_flight :: "nat list"
  posted :: "(nat \<times> response) list"             \<comment> \<open>queued on \<open>callback_ioc_\<close>\<close>
  executors :: "(nat \<times> response) list"          \<comment> \<open>posted to the executors of callers\<close>
  history :: "http_event list"

definition http_init :: "nat \<Rightarrow> http_service" where
  "http_init n = \<lparr>pool = pool_init n, making = (\<lambda>_. None), requests = [], in_flight = [], posted = [], executors = [],
     history = []\<rparr>"

section \<open>Steps\<close>

text \<open>Thread \<open>k\<close> of the pool goes to \<open>w\<close>, and the rest of the state changes with it.\<close>

definition on_thread :: "nat \<Rightarrow> delivery service_thread \<Rightarrow> http_service \<Rightarrow> http_service \<Rightarrow> http_service option" where
  "on_thread k w s t = map_option (\<lambda>p. t\<lparr>pool := p\<rparr>) (pool_moved http_code (Thread k w) (pool s))"

definition epoch_matches :: "nat \<Rightarrow> http_service \<Rightarrow> bool" where
  "epoch_matches r s \<longleftrightarrow> request_epoch (requests s ! r) = service_epoch (pool s)"

text \<open>\<open>response_delivery::operator()\<close> and the handler it posts, one atomic operation at a time.\<close>

fun delivery_goes :: "nat \<Rightarrow> delivery \<Rightarrow> http_service \<Rightarrow> http_service option" where
  "delivery_goes k (Completes r resp) s =
     (if epoch_matches r s then on_thread k (Handling (Delivers r resp)) s s else on_thread k Serving s s)"
| "delivery_goes k (Delivers r resp) s =
     (if has_executor (requests s ! r) then on_thread k Serving s (s\<lparr>executors := executors s @ [(r, resp)]\<rparr>)
      else if inline_callbacks (pool s)
      then on_thread k (Handling (In_callback r resp)) s (s\<lparr>history := history s @ [Called r resp False]\<rparr>)
      else on_thread k Serving s (s\<lparr>posted := posted s @ [(r, resp)]\<rparr>))"
| "delivery_goes k (Dequeued r resp) s =
     (if epoch_matches r s then on_thread k (Handling (Calls_back r resp)) s s else on_thread k Serving s s)"
| "delivery_goes k (Calls_back r resp) s =
     on_thread k (Handling (In_callback r resp)) s (s\<lparr>history := history s @ [Called r resp False]\<rparr>)"
| "delivery_goes k (In_callback r resp) s = on_thread k Serving s s"

text \<open>\<open>spawn_async_request\<close> after \<open>start_service()\<close>: the delivery takes the epoch, then \<open>co_spawn\<close> queues the request.\<close>

definition make_delivery :: "nat \<Rightarrow> bool \<Rightarrow> http_service \<Rightarrow> http_service" where
  "make_delivery i executor s =
     s\<lparr>making := (making s)(i \<mapsto> \<lparr>has_executor = executor, request_epoch = service_epoch (pool s)\<rparr>)\<rparr>"

definition spawn :: "nat \<Rightarrow> delivery_request \<Rightarrow> http_service \<Rightarrow> http_service" where
  "spawn i d s = s\<lparr>making := (making s)(i := None), requests := requests s @ [d],
     in_flight := in_flight s @ [length (requests s)], pool := caller_at i Away (pool s)\<rparr>"

datatype http_move =
    Pool "delivery pool_move"                      \<comment> \<open>\<open>start_service\<close>, \<open>shutdown\<close>, a thread that ends\<close>
  | Makes nat bool
  | Spawns nat
  | Session_ends nat nat "thrown + response"       \<comment> \<open>on the I/O thread\<close>
  | Takes_posted nat
  | Runs_handler nat
  | Executor_runs nat

fun http_moved :: "http_move \<Rightarrow> http_service \<Rightarrow> http_service option" where
  "http_moved (Pool m) s =
     (if pool_alone m (pool s) then map_option (\<lambda>p. s\<lparr>pool := p\<rparr>) (pool_moved http_code m (pool s)) else None)"
| "http_moved (Makes i executor) s =
     (if i < length (callers (pool s)) \<and> callers (pool s) ! i = Started \<and> making s i = None
      then Some (make_delivery i executor s) else None)"
| "http_moved (Spawns i) s =
     (if i < length (callers (pool s)) \<and> callers (pool s) ! i = Started
      then map_option (\<lambda>d. spawn i d s) (making s i) else None)"
| "http_moved (Session_ends k r outcome) s =
     (if r \<in> set (in_flight s) \<and> k < length (service_threads (pool s)) \<and> service_threads (pool s) ! k = (Io_context, Serving)
      then on_thread k (Handling (Completes r (async_response outcome))) s
             (s\<lparr>in_flight := remove1 r (in_flight s), history := history s @ [Session_ended r outcome]\<rparr>)
      else None)"
| "http_moved (Takes_posted k) s =
     (case posted s of [] \<Rightarrow> None
      | (r, resp) # rest \<Rightarrow>
          (if k < length (service_threads (pool s)) \<and> service_threads (pool s) ! k = (Callback_context, Serving)
           then on_thread k (Handling (Dequeued r resp)) s (s\<lparr>posted := rest\<rparr>) else None))"
| "http_moved (Runs_handler k) s =
     (if k < length (service_threads (pool s))
      then case snd (service_threads (pool s) ! k) of Handling d \<Rightarrow> delivery_goes k d s | _ \<Rightarrow> None
      else None)"
| "http_moved (Executor_runs n) s =
     (if n < length (executors s)
      then case executors s ! n of (r, resp) \<Rightarrow>
        Some (s\<lparr>executors := take n (executors s) @ drop (Suc n) (executors s), history := history s @ [Called r resp True]\<rparr>)
      else None)"

inductive http_step :: "http_service \<Rightarrow> http_service \<Rightarrow> bool" where
  move: "http_moved m s = Some t \<Longrightarrow> http_step s t"

inductive_cases http_stepE: "http_step s t"

fun http_schedule :: "http_move list \<Rightarrow> http_service \<Rightarrow> http_service option" where
  "http_schedule [] s = Some s"
| "http_schedule (m # ms) s = (case http_moved m s of None \<Rightarrow> None | Some t \<Rightarrow> http_schedule ms t)"

lemma http_schedule_steps: "http_schedule ms s = Some t \<Longrightarrow> http_step\<^sup>*\<^sup>* s t"
proof (induction ms arbitrary: s)
  case (Cons m ms)
  then obtain u where "http_moved m s = Some u" "http_schedule ms u = Some t"
    by (auto simp del: http_moved.simps split: option.splits)
  with Cons.IH show ?case by (meson converse_rtranclp_into_rtranclp http_step.move)
qed simp

lemma http_schedule_reaches: "http_schedule ms (http_init n) = Some t \<Longrightarrow> reachable (http_init n) http_step t"
  by (rule steps_reachable [OF http_schedule_steps reachable.start])

lemmas run_http_defs = run_pool_defs http_init_def on_thread_def epoch_matches_def make_delivery_def spawn_def

end
