(* ===== verification/Http_Service_Props.thy ===== *)
theory Http_Service_Props
  imports Http_Service
begin

text \<open>
  Every callback-based request has at most one callback to come: it is in flight, in a handler, queued or called, never
  two of these.  From this follow how often and with what \<open>on_response\<close> is called, and what \<open>shutdown\<close> abandons.
\<close>

section \<open>Where a request is\<close>

fun holds :: "nat \<Rightarrow> delivery service_thread \<Rightarrow> nat" where
  "holds r (Handling (Completes q resp)) = of_bool (q = r)"
| "holds r (Handling (Delivers q resp)) = of_bool (q = r)"
| "holds r (Handling (Dequeued q resp)) = of_bool (q = r)"
| "holds r (Handling (Calls_back q resp)) = of_bool (q = r)"
| "holds r w = 0"

definition pool_holds :: "nat \<Rightarrow> delivery pool \<Rightarrow> nat" where
  "pool_holds r p = sum_list (map (holds r \<circ> snd) (service_threads p))"

fun called_for :: "nat \<Rightarrow> http_event \<Rightarrow> bool" where
  "called_for r (Called q resp on_executor) = (q = r)"
| "called_for r _ = False"

definition calls_of :: "nat \<Rightarrow> http_service \<Rightarrow> nat" where
  "calls_of r s = length (filter (called_for r) (history s))"

definition tokens :: "http_service \<Rightarrow> nat \<Rightarrow> nat" where
  "tokens s r = count_list (in_flight s) r + count_list (map fst (posted s)) r + count_list (map fst (executors s)) r
     + pool_holds r (pool s) + calls_of r s"

lemma on_threadD:
  assumes "on_thread k w s t = Some u"
  shows "k < length (service_threads (pool s))" "u = t\<lparr>pool := thread_at k w (pool s)\<rparr>"
  using assms by (auto simp: on_thread_def split: if_splits)

lemma pool_holds_caller_at [simp]: "pool_holds r (caller_at i pc p) = pool_holds r p"
  by (simp add: pool_holds_def)

lemma pool_holds_sum: "pool_holds r = pool_sum (holds r)"
  by (simp add: fun_eq_iff pool_holds_def pool_sum_def)

lemmas pool_holds_thread_at = pool_sum_thread_at [of _ _ "holds r" for r, folded pool_holds_sum]

text \<open>What the pool does alone leaves all requests where they are.\<close>

lemma pool_moved_holds:
  assumes "pool_inv http_code p" "pool_alone m p" "pool_moved http_code m p = Some q"
  shows "pool_holds r q = pool_holds r p"
  unfolding pool_holds_sum by (rule http_pool.pool_alone_sum [OF assms]) simp_all

lemma count_list_remove1: "r \<in> set xs \<Longrightarrow> count_list (remove1 r xs) q + of_bool (r = q) = count_list xs q"
  by (induction xs) auto

lemma count_list_take_drop:
  assumes "n < length xs"
  shows "count_list (map fst (take n xs @ drop (Suc n) xs)) r + of_bool (fst (xs ! n) = r) = count_list (map fst xs) r"
  using arg_cong [OF id_take_nth_drop [OF assms], of "\<lambda>ys. count_list (map fst ys) r"] by simp

text \<open>The step of a handler either passes its request on or drops one of an earlier epoch.\<close>

definition passes_on :: "http_service \<Rightarrow> http_service \<Rightarrow> bool" where
  "passes_on s t \<longleftrightarrow> requests t = requests s \<and> (\<forall>r. tokens t r = tokens s r
     \<or> tokens t r < tokens s r \<and> \<not> epoch_matches r s \<and> bumps (pool t) = bumps (pool s))"

lemma delivery_thread: "delivery_goes k d s = Some t \<Longrightarrow> k < length (service_threads (pool s))"
  by (cases d) (auto dest: on_threadD(1) split: if_splits)

lemma delivery_passes_on:
  assumes "delivery_goes k d s = Some t" "snd (service_threads (pool s) ! k) = Handling d"
  shows "passes_on s t"
proof (cases d)
  case (Completes q resp)
  obtain w where t: "on_thread k w s s = Some t" "w = (if epoch_matches q s then Handling (Delivers q resp) else Serving)"
    using assms Completes by (auto split: if_splits)
  note t' = on_threadD [OF t(1)]
  show ?thesis unfolding passes_on_def
  proof (intro conjI allI)
    fix r show "tokens t r = tokens s r \<or> tokens t r < tokens s r \<and> \<not> epoch_matches r s \<and> bumps (pool t) = bumps (pool s)"
      using pool_holds_thread_at [OF t'(1), of r w] assms(2) Completes t(2) t'(2)
      by (cases "q = r") (auto simp: tokens_def calls_of_def split: if_splits)
  qed (use t' in simp)
next
  case (Dequeued q resp)
  obtain w where t: "on_thread k w s s = Some t" "w = (if epoch_matches q s then Handling (Calls_back q resp) else Serving)"
    using assms Dequeued by (auto split: if_splits)
  note t' = on_threadD [OF t(1)]
  show ?thesis unfolding passes_on_def
  proof (intro conjI allI)
    fix r show "tokens t r = tokens s r \<or> tokens t r < tokens s r \<and> \<not> epoch_matches r s \<and> bumps (pool t) = bumps (pool s)"
      using pool_holds_thread_at [OF t'(1), of r w] assms(2) Dequeued t(2) t'(2)
      by (cases "q = r") (auto simp: tokens_def calls_of_def split: if_splits)
  qed (use t' in simp)
next
  case (Delivers q resp)
  have "tokens t r = tokens s r" for r
    using assms delivery_thread [OF assms(1)] Delivers pool_holds_thread_at [of k "pool s" r Serving]
      pool_holds_thread_at [of k "pool s" r "Handling (In_callback q resp)"]
    by (cases "q = r") (auto simp: tokens_def calls_of_def dest!: on_threadD(2) split: if_splits)
  then show ?thesis using assms Delivers by (auto simp: passes_on_def dest!: on_threadD split: if_splits)
next
  case (Calls_back q resp)
  have "tokens t r = tokens s r" for r
    using assms delivery_thread [OF assms(1)] Calls_back pool_holds_thread_at [of k "pool s" r "Handling (In_callback q resp)"]
    by (cases "q = r") (auto simp: tokens_def calls_of_def dest!: on_threadD(2))
  then show ?thesis using assms Calls_back by (auto simp: passes_on_def dest!: on_threadD)
next
  case (In_callback q resp)
  have "tokens t r = tokens s r" for r
    using assms delivery_thread [OF assms(1)] In_callback pool_holds_thread_at [of k "pool s" r Serving]
    by (cases "q = r") (auto simp: tokens_def calls_of_def dest!: on_threadD(2))
  then show ?thesis using assms In_callback by (auto simp: passes_on_def dest!: on_threadD)
qed

lemma http_moved_tokens:
  assumes inv: "pool_inv http_code (pool s)" and moved: "http_moved m s = Some t"
  shows "passes_on s t \<or> (\<exists>i d. making s i = Some d \<and> t = spawn i d s)"
proof (cases m)
  case (Pool pm)
  then obtain p where p: "pool_alone pm (pool s)" "pool_moved http_code pm (pool s) = Some p" "t = s\<lparr>pool := p\<rparr>"
    using moved by (auto split: if_splits)
  then have "passes_on s t"
    using pool_moved_holds [OF inv p(1,2)] by (simp add: passes_on_def tokens_def calls_of_def)
  then show ?thesis ..
next
  case (Makes i executor)
  then have "passes_on s t" using moved
    by (auto simp: make_delivery_def passes_on_def tokens_def calls_of_def split: if_splits)
  then show ?thesis ..
next
  case (Spawns i)
  then show ?thesis using moved by (auto split: if_splits)
next
  case (Session_ends k q outcome)
  then have q: "q \<in> set (in_flight s)" "service_threads (pool s) ! k = (Io_context, Serving)"
    and t: "on_thread k (Handling (Completes q (async_response outcome))) s
      (s\<lparr>in_flight := remove1 q (in_flight s), history := history s @ [Session_ended q outcome]\<rparr>) = Some t"
    using moved by (auto split: if_splits)
  note t' = on_threadD [OF t]
  have "tokens t r = tokens s r" for r
    using count_list_remove1 [OF q(1), of r] t' q(2)
      pool_holds_thread_at [OF t'(1), of r "Handling (Completes q (async_response outcome))"]
    by (simp add: tokens_def calls_of_def)
  then show ?thesis using t' by (simp add: passes_on_def)
next
  case (Takes_posted k)
  obtain q resp rest where q: "posted s = (q, resp) # rest" "service_threads (pool s) ! k = (Callback_context, Serving)"
    "on_thread k (Handling (Dequeued q resp)) s (s\<lparr>posted := rest\<rparr>) = Some t"
    using moved Takes_posted by (auto split: list.splits if_splits)
  note t' = on_threadD [OF q(3)]
  have "tokens t r = tokens s r" for r
    using t' q(1,2) pool_holds_thread_at [OF t'(1), of r "Handling (Dequeued q resp)"]
    by (simp add: tokens_def calls_of_def)
  then show ?thesis using t' by (simp add: passes_on_def)
next
  case (Runs_handler k)
  then show ?thesis using moved delivery_passes_on by (auto split: if_splits service_thread.splits)
next
  case (Executor_runs n)
  then obtain q resp where q: "n < length (executors s)" "executors s ! n = (q, resp)"
    "t = s\<lparr>executors := take n (executors s) @ drop (Suc n) (executors s), history := history s @ [Called q resp True]\<rparr>"
    using moved by (auto split: if_splits prod.splits)
  have "tokens t r = tokens s r" for r
    using count_list_take_drop [OF q(1), of r] q(2,3) by (cases "q = r") (simp_all add: tokens_def calls_of_def)
  then show ?thesis using q(3) by (simp add: passes_on_def)
qed

section \<open>Epochs\<close>

lemma pool_moved_epoch:
  assumes "pool_moved code m p = Some q"
  shows "bumps q = bumps p \<and> service_epoch q = service_epoch p \<or> bumps q = Suc (bumps p) \<and> service_epoch q = service_epoch p + 1"
proof (cases m)
  case (Goes i)
  then have goes: "caller_goes code i (callers p ! i) p = Some q" using assms by (simp split: if_splits)
  have act: "bumps (run_action a p) = bumps p \<and> service_epoch (run_action a p) = service_epoch p
    \<or> bumps (run_action a p) = Suc (bumps p) \<and> service_epoch (run_action a p) = service_epoch p + 1" for a
    by (cases a) simp_all
  show ?thesis
  proof (cases "callers p ! i")
    case (Preparing as) then show ?thesis using goes act [of "hd as"] by (cases as) auto
  next
    case (Creating cs) then show ?thesis using goes by (cases cs) auto
  next
    case (Shutting as) then show ?thesis using goes act [of "hd as"] by (cases as) auto
  next
    case (Joining k) then show ?thesis using goes by (auto simp: join_next_def split: if_splits service_thread.splits)
  qed (use goes in \<open>auto simp: shutdown_turn_def\<close>)
qed (use assms in \<open>auto simp: start_swap_def split: if_splits\<close>)

lemma delivery_frame:
  assumes "delivery_goes k d s = Some t"
  shows "making t = making s \<and> requests t = requests s \<and> (\<exists>w. pool_moved http_code (Thread k w) (pool s) = Some (pool t))"
  using assms by (cases d) (auto simp: on_thread_def simp del: pool_moved.simps split: if_splits)

text \<open>Every step is one of the pool, or leaves it alone.\<close>

lemma http_moved_frame:
  assumes "http_moved m s = Some t"
  shows "(pool t = pool s \<or> (\<exists>pm. pool_moved http_code pm (pool s) = Some (pool t)))
    \<and> (making t = making s \<and> requests t = requests s \<or> (\<exists>i executor. t = make_delivery i executor s)
       \<or> (\<exists>i d. making s i = Some d \<and> t = spawn i d s))"
proof (cases m)
  case (Spawns i)
  then have "pool_moved http_code (Goes i) (pool s) = Some (pool t)" "\<exists>d. making s i = Some d \<and> t = spawn i d s"
    using assms by (auto simp: spawn_def split: if_splits)
  then show ?thesis by blast
next
  case (Runs_handler k)
  then show ?thesis using assms delivery_frame by (auto simp del: pool_moved.simps split: if_splits service_thread.splits) blast
qed (use assms in \<open>auto simp: on_thread_def make_delivery_def simp del: pool_moved.simps
    split: if_splits list.splits prod.splits\<close>)

lemma http_pool_inv:
  assumes "pool_inv http_code (pool s)" "http_moved m s = Some t"
  shows "pool_inv http_code (pool t)"
  using http_moved_frame [OF assms(2)] http_pool.pool_inv_moved [OF assms(1)] assms(1) by (auto simp del: pool_moved.simps)

lemma http_moved_epoch:
  assumes "http_moved m s = Some t"
  shows "bumps (pool t) = bumps (pool s) \<and> service_epoch (pool t) = service_epoch (pool s)
    \<or> bumps (pool t) = Suc (bumps (pool s)) \<and> service_epoch (pool t) = service_epoch (pool s) + 1"
  using http_moved_frame [OF assms] pool_moved_epoch [of http_code _ "pool s" "pool t"] by (elim conjE disjE exE) simp_all

definition epochs_ok :: "http_service \<Rightarrow> bool" where
  "epochs_ok s \<longleftrightarrow> service_epoch (pool s) = of_nat (bumps (pool s))
     \<and> (bumps (pool s) < 2 ^ 64 \<longrightarrow> (\<forall>d \<in> set (requests s) \<union> ran (making s). unat (request_epoch d) \<le> bumps (pool s)))"

lemma epochs_current: "epochs_ok s \<Longrightarrow> bumps (pool s) < 2 ^ 64 \<Longrightarrow> unat (service_epoch (pool s)) = bumps (pool s)"
  by (simp add: epochs_ok_def unsigned_of_nat take_bit_nat_eq_self)

lemma http_moved_epochs:
  assumes ok: "epochs_ok s" and moved: "http_moved m s = Some t"
  shows "epochs_ok t"
proof -
  have "service_epoch (pool t) = of_nat (bumps (pool t))"
    using ok http_moved_epoch [OF moved] by (auto simp: epochs_ok_def)
  moreover have "unat (request_epoch d) \<le> bumps (pool t)"
    if b: "bumps (pool t) < 2 ^ 64" and d: "d \<in> set (requests t) \<union> ran (making t)" for d
  proof -
    have b': "bumps (pool s) \<le> bumps (pool t)" "bumps (pool s) < 2 ^ 64" using b http_moved_epoch [OF moved] by auto
    have old: "unat (request_epoch d) \<le> bumps (pool s)" if "d \<in> set (requests s) \<union> ran (making s)" for d
      using ok that b'(2) by (simp add: epochs_ok_def)
    have "d \<in> set (requests s) \<union> ran (making s) \<or> request_epoch d = service_epoch (pool s)"
      using d http_moved_frame [OF moved]
      by (auto simp: make_delivery_def spawn_def ran_def split: if_splits)
    then consider "d \<in> set (requests s) \<union> ran (making s)" | "request_epoch d = service_epoch (pool s)" by blast
    then have "unat (request_epoch d) \<le> bumps (pool s)" using old b' epochs_current [OF ok] by cases auto
    then show ?thesis using b'(1) by simp
  qed
  ultimately show ?thesis by (simp add: epochs_ok_def)
qed

section \<open>The responses\<close>

fun response_in :: "delivery service_thread \<Rightarrow> (nat \<times> response) set" where
  "response_in (Handling (Completes r resp)) = {(r, resp)}"
| "response_in (Handling (Delivers r resp)) = {(r, resp)}"
| "response_in (Handling (Dequeued r resp)) = {(r, resp)}"
| "response_in (Handling (Calls_back r resp)) = {(r, resp)}"
| "response_in (Handling (In_callback r resp)) = {(r, resp)}"
| "response_in w = {}"

definition pool_responses :: "delivery pool \<Rightarrow> (nat \<times> response) set" where
  "pool_responses p = (\<Union>w \<in> set (service_threads p). response_in (snd w))"

definition responses :: "http_service \<Rightarrow> (nat \<times> response) set" where
  "responses s = set (posted s) \<union> set (executors s) \<union> pool_responses (pool s) \<union> {(r, resp). \<exists>b. Called r resp b \<in> set (history s)}"

definition answered :: "http_service \<Rightarrow> (nat \<times> response) set" where
  "answered s = {(r, async_response outcome) | r outcome. Session_ended r outcome \<in> set (history s)}"

lemma pool_responses_thread_at:
  assumes "k < length (service_threads p)"
  shows "pool_responses (thread_at k w p) \<subseteq> pool_responses p \<union> response_in w"
    "response_in (snd (service_threads p ! k)) \<subseteq> pool_responses p"
proof -
  show "pool_responses (thread_at k w p) \<subseteq> pool_responses p \<union> response_in w"
    by (auto simp: pool_responses_def dest!: set_update_subset_insert [THEN subsetD])
  show "response_in (snd (service_threads p ! k)) \<subseteq> pool_responses p"
    using assms by (auto simp: pool_responses_def intro!: bexI [of _ "service_threads p ! k"])
qed

lemma pool_moved_threads:
  assumes alone: "pool_alone m p" and moved: "pool_moved http_code m p = Some q"
  shows "snd ` set (service_threads q) \<subseteq> snd ` set (service_threads p) \<union> {Serving, Ended, Joined}"
proof (cases m)
  case (Goes i)
  then have goes: "caller_goes http_code i (callers p ! i) p = Some q" using moved by (simp split: if_splits)
  show ?thesis
  proof (cases "callers p ! i")
    case (Preparing as) then show ?thesis using goes by (cases as) auto
  next
    case (Creating cs) then show ?thesis using goes by (cases cs) auto
  next
    case (Shutting as) then show ?thesis using goes by (cases as) auto
  next
    case (Joining k)
    then show ?thesis using goes
      by (auto simp: join_next_def dest!: set_update_subset_insert [THEN subsetD] split: if_splits service_thread.splits)
  qed (use goes in \<open>auto simp: shutdown_turn_def split: if_splits\<close>)
next
  case (Thread k w)
  then show ?thesis using alone moved by (auto dest!: set_update_subset_insert [THEN subsetD] split: if_splits)
qed (use moved in \<open>auto simp: start_swap_def split: if_splits\<close>)

lemma pool_moved_responses:
  assumes "pool_alone m p" "pool_moved http_code m p = Some q"
  shows "pool_responses q \<subseteq> pool_responses p"
  using pool_moved_threads [OF assms] by (force simp: pool_responses_def)

lemma responses_parts:
  "set (posted s) \<subseteq> responses s" "set (executors s) \<subseteq> responses s" "pool_responses (pool s) \<subseteq> responses s"
  "Called r resp b \<in> set (history s) \<Longrightarrow> (r, resp) \<in> responses s"
  by (auto simp: responses_def)

lemma responses_thread:
  assumes "on_thread k w s t = Some u" "response_in w \<subseteq> responses s \<union> xs"
    and "set (posted t) \<subseteq> responses s" "set (executors t) \<subseteq> responses s"
      "\<And>r resp b. Called r resp b \<in> set (history t) \<Longrightarrow> (r, resp) \<in> responses s"
  shows "responses u \<subseteq> responses s \<union> xs"
proof -
  note u = on_threadD [OF assms(1)]
  have "pool_responses (thread_at k w (pool s)) \<subseteq> responses s \<union> xs"
    using pool_responses_thread_at(1) [OF u(1), of w] assms(2) responses_parts(3) [of s] by blast
  then show ?thesis using assms(3-5) u(2) unfolding responses_def [of u] by auto
qed

lemma delivery_responses:
  assumes "delivery_goes k d s = Some t" "snd (service_threads (pool s) ! k) = Handling d"
  shows "responses t \<subseteq> responses s \<and> history t = history s \<or> responses t \<subseteq> responses s \<and> (\<exists>r resp b. history t = history s @ [Called r resp b])"
proof -
  have d: "response_in (Handling d) \<subseteq> responses s"
    using pool_responses_thread_at(2) [OF delivery_thread [OF assms(1)]] assms(2) responses_parts(3) by (metis order_trans)
  note thread = responses_thread [where xs = "{}", simplified]
  have "responses t \<subseteq> responses s"
    using assms(1) d by (cases d) (auto del: subsetI intro!: thread intro: responses_parts split: if_splits)
  moreover have "history t = history s \<or> (\<exists>r resp b. history t = history s @ [Called r resp b])"
    using assms(1) by (cases d) (auto dest!: on_threadD(2) split: if_splits)
  ultimately show ?thesis by auto
qed

lemma answered_mono: "set (history s) \<subseteq> set (history t) \<Longrightarrow> answered s \<subseteq> answered t"
  by (auto simp: answered_def)

lemma http_moved_answered:
  assumes ok: "responses s \<subseteq> answered s" and moved: "http_moved m s = Some t"
  shows "responses t \<subseteq> answered t"
proof (cases m)
  case (Pool pm)
  then obtain p where p: "pool_alone pm (pool s)" "pool_moved http_code pm (pool s) = Some p" "t = s\<lparr>pool := p\<rparr>"
    using moved by (auto split: if_splits)
  have "responses t \<subseteq> responses s" using p(3) pool_moved_responses [OF p(1,2)] by (auto simp: responses_def)
  moreover have "answered t = answered s" using p(3) by (simp add: answered_def)
  ultimately show ?thesis using ok by simp
next
  case (Makes i executor)
  then have "responses t = responses s" "answered t = answered s"
    using moved by (auto simp: make_delivery_def responses_def answered_def split: if_splits)
  then show ?thesis using ok by simp
next
  case (Spawns i)
  then have "responses t = responses s" "answered t = answered s"
    using moved by (auto simp: spawn_def responses_def answered_def pool_responses_def split: if_splits)
  then show ?thesis using ok by simp
next
  case (Session_ends k q outcome)
  then have t: "on_thread k (Handling (Completes q (async_response outcome))) s
      (s\<lparr>in_flight := remove1 q (in_flight s), history := history s @ [Session_ended q outcome]\<rparr>) = Some t"
    using moved by (auto split: if_splits)
  have "responses t \<subseteq> responses s \<union> {(q, async_response outcome)}"
    using responses_thread [OF t] responses_parts by fastforce
  moreover have "answered s \<union> {(q, async_response outcome)} \<subseteq> answered t"
    using on_threadD(2) [OF t] by (auto simp: answered_def)
  ultimately show ?thesis using ok by blast
next
  case (Takes_posted k)
  obtain q resp rest where q: "posted s = (q, resp) # rest" "on_thread k (Handling (Dequeued q resp)) s (s\<lparr>posted := rest\<rparr>) = Some t"
    using moved Takes_posted by (auto split: list.splits if_splits)
  have "responses t \<subseteq> responses s \<union> {}"
    by (rule responses_thread [OF q(2)]) (use q(1) responses_parts(1-3) [of s] in \<open>auto intro: responses_parts(4)\<close>)
  moreover have "answered t = answered s" using on_threadD(2) [OF q(2)] by (simp add: answered_def)
  ultimately show ?thesis using ok by blast
next
  case (Runs_handler k)
  then obtain d where d: "delivery_goes k d s = Some t" "snd (service_threads (pool s) ! k) = Handling d"
    using moved by (auto split: if_splits service_thread.splits)
  have "responses t \<subseteq> responses s" "set (history s) \<subseteq> set (history t)" using delivery_responses [OF d] by auto
  then show ?thesis using ok answered_mono by blast
next
  case (Executor_runs n)
  then obtain q resp where q: "n < length (executors s)" "executors s ! n = (q, resp)"
    "t = s\<lparr>executors := take n (executors s) @ drop (Suc n) (executors s), history := history s @ [Called q resp True]\<rparr>"
    using moved by (auto split: if_splits prod.splits)
  have "(q, resp) \<in> set (executors s)" using q(1,2) by (metis nth_mem)
  then have "responses t \<subseteq> responses s" using q(3) by (auto simp: responses_def dest: in_set_takeD in_set_dropD)
  moreover have "answered t = answered s" using q(3) by (simp add: answered_def)
  ultimately show ?thesis using ok by blast
qed

section \<open>The invariant\<close>

definition http_inv :: "http_service \<Rightarrow> bool" where
  "http_inv s \<longleftrightarrow> pool_inv http_code (pool s) \<and> epochs_ok s \<and> responses s \<subseteq> answered s
     \<and> (\<forall>r. tokens s r \<le> of_bool (r < length (requests s)))
     \<and> (bumps (pool s) < 2 ^ 64 \<longrightarrow> (\<forall>r < length (requests s). tokens s r = 0 \<longrightarrow>
          unat (request_epoch (requests s ! r)) < bumps (pool s)))"

text \<open>A request of an earlier epoch is one of a smaller epoch, and stays one.\<close>

lemma earlier_epoch:
  assumes "epochs_ok s" "bumps (pool s) < 2 ^ 64" "r < length (requests s)"
  shows "unat (request_epoch (requests s ! r)) < bumps (pool s) \<longleftrightarrow> \<not> epoch_matches r s"
proof -
  have "unat (request_epoch (requests s ! r)) \<le> bumps (pool s)" using assms by (auto simp: epochs_ok_def)
  moreover have "unat (request_epoch (requests s ! r)) = bumps (pool s) \<longleftrightarrow> epoch_matches r s"
    using epochs_current [OF assms(1,2)] by (metis epoch_matches_def word_unat_eq_iff)
  ultimately show ?thesis by linarith
qed

lemma http_inv_moved:
  assumes inv: "http_inv s" and moved: "http_moved m s = Some t"
  shows "http_inv t"
proof -
  have i: "pool_inv http_code (pool s)" "epochs_ok s" "responses s \<subseteq> answered s"
      "\<And>r. tokens s r \<le> of_bool (r < length (requests s))"
      "\<And>r. bumps (pool s) < 2 ^ 64 \<Longrightarrow> r < length (requests s) \<Longrightarrow> tokens s r = 0 \<Longrightarrow>
          unat (request_epoch (requests s ! r)) < bumps (pool s)"
    using inv by (simp_all add: http_inv_def)
  have grow: "bumps (pool s) \<le> bumps (pool t)" using http_moved_epoch [OF moved] by auto
  have "(\<forall>r. tokens t r \<le> of_bool (r < length (requests t))) \<and> (bumps (pool t) < 2 ^ 64 \<longrightarrow>
      (\<forall>r < length (requests t). tokens t r = 0 \<longrightarrow> unat (request_epoch (requests t ! r)) < bumps (pool t)))"
    using http_moved_tokens [OF i(1) moved]
  proof (elim disjE exE conjE)
    assume p: "passes_on s t"
    have "tokens t r \<le> tokens s r" for r using p unfolding passes_on_def by (metis less_imp_le order_refl)
    then have "tokens t r \<le> of_bool (r < length (requests t))" for r
      using i(4) [of r] p order_trans by (fastforce simp: passes_on_def)
    moreover have "unat (request_epoch (requests t ! r)) < bumps (pool t)"
      if b: "bumps (pool t) < 2 ^ 64" and r: "r < length (requests t)" "tokens t r = 0" for r
    proof (cases "tokens t r = tokens s r")
      case True
      then show ?thesis using i(5) [of r] b r p grow by (simp add: passes_on_def)
    next
      case False
      then have "\<not> epoch_matches r s" using p by (auto simp: passes_on_def)
      then show ?thesis using earlier_epoch [OF i(2), of r] b r p grow by (auto simp: passes_on_def)
    qed
    ultimately show ?thesis by blast
  next
    fix j d assume d: "making s j = Some d" "t = spawn j d s"
    have "tokens t r = tokens s r + of_bool (length (requests s) = r)" for r
      using d(2) by (simp add: tokens_def spawn_def calls_of_def)
    then show ?thesis using i(4,5) i(4) [of "length (requests s)"] d(2)
      by (auto simp: spawn_def nth_append less_Suc_eq split: if_splits)
  qed
  then show ?thesis
    using http_pool_inv [OF i(1) moved] http_moved_epochs [OF i(2) moved] http_moved_answered [OF i(3) moved]
    by (simp add: http_inv_def)
qed

lemma http_inv_init: "http_inv (http_init n)"
  using http_pool.pool_inv_init [of n]
  by (simp add: http_inv_def http_init_def epochs_ok_def pool_init_def responses_def pool_responses_def tokens_def
      pool_holds_def calls_of_def)

interpretation http_system: inductive_invariant "http_init n" http_step http_inv for n
  by unfold_locales (auto elim!: http_stepE intro: http_inv_init http_inv_moved)

end
