(* ===== verification/Http_Delivery.thy ===== *)
theory Http_Delivery
  imports Http_Service_Props
begin

text \<open>
  What the services of \<open>http.cpp\<close> and \<open>http_stream.cpp\<close> promise: their threads have one owner, a start or shutdown ends,
  callbacks are called at most once and with their own response, and never after a shutdown that abandoned them.
\<close>

section \<open>Abandoned requests\<close>

text \<open>A handler that has passed its check of the epoch for request \<open>r\<close> and still has to act.\<close>

fun past_check :: "nat \<Rightarrow> delivery service_thread \<Rightarrow> bool" where
  "past_check r (Handling (Delivers q resp)) = (q = r)"
| "past_check r (Handling (Calls_back q resp)) = (q = r)"
| "past_check r w = False"

text \<open>From \<open>s\<close> on, nothing was started for \<open>r\<close> but what the executors already held.\<close>

definition left_behind :: "nat \<Rightarrow> http_service \<Rightarrow> http_service \<Rightarrow> bool" where
  "left_behind r s t \<longleftrightarrow> (\<forall>w \<in> snd ` set (service_threads (pool t)). \<not> past_check r w)
     \<and> (\<forall>resp. (r, resp) \<in> set (executors t) \<longrightarrow> (r, resp) \<in> set (executors s))
     \<and> (\<forall>resp b. Called r resp b \<in> set (history t) \<longrightarrow> Called r resp b \<in> set (history s) \<or> b \<and> (r, resp) \<in> set (executors s))"

lemma left_behind_frame:
  "left_behind r s t \<Longrightarrow> service_threads (pool u) = service_threads (pool t) \<Longrightarrow> executors u = executors t \<Longrightarrow>
    history u = history t \<Longrightarrow> left_behind r s u"
  by (simp add: left_behind_def)

lemma left_behind_thread:
  assumes left: "left_behind r s t" and u: "on_thread k w t t' = Some u" and w: "\<not> past_check r w"
    and same: "executors t' = executors t @ xs" "history t' = history t @ ys"
    and new: "r \<notin> fst ` set xs" "\<And>resp b. Called r resp b \<notin> set ys"
  shows "left_behind r s u"
proof -
  have p: "pool u = thread_at k w (pool t)" and e: "executors u = executors t @ xs" "history u = history t @ ys"
    using on_threadD(2) [OF u] same by simp_all
  have "\<forall>v \<in> snd ` set (service_threads (pool u)). \<not> past_check r v"
    using left w p by (auto simp: left_behind_def dest!: set_update_subset_insert [THEN subsetD])
  moreover have "(r, resp) \<in> set (executors s)" if "(r, resp) \<in> set (executors u)" for resp
  proof -
    have "(r, resp) \<notin> set xs" using new(1) by (metis fst_conv imageI)
    then have "(r, resp) \<in> set (executors t)" using that e(1) by simp
    then show ?thesis using left unfolding left_behind_def by blast
  qed
  moreover have "Called r resp b \<in> set (history s) \<or> b \<and> (r, resp) \<in> set (executors s)"
    if "Called r resp b \<in> set (history u)" for resp b
  proof -
    have "Called r resp b \<in> set (history t)" using that e(2) new(2) [of resp b] by simp
    then show ?thesis using left unfolding left_behind_def by blast
  qed
  ultimately show ?thesis unfolding left_behind_def by blast
qed

lemma delivery_left_behind:
  assumes left: "left_behind r s t" and earlier: "\<not> epoch_matches r t"
    and goes: "delivery_goes k d t = Some u" and d: "snd (service_threads (pool t) ! k) = Handling d"
  shows "left_behind r s u"
proof -
  have "snd (service_threads (pool t) ! k) \<in> snd ` set (service_threads (pool t))" using delivery_thread [OF goes] by simp
  then have past: "\<not> past_check r (Handling d)" using left d unfolding left_behind_def by metis
  note thread = left_behind_thread [OF left]
  show ?thesis
  proof (cases d)
    case (Completes q resp)
    then show ?thesis using goes earlier thread [of k _ t u "[]" "[]"] by (cases "q = r") (auto split: if_splits)
  next
    case (Delivers q resp)
    have q: "q \<noteq> r" using past Delivers by simp
    show ?thesis
      using goes q thread [of k Serving "t\<lparr>executors := executors t @ [(q, resp)]\<rparr>" u "[(q, resp)]" "[]"]
        thread [of k _ "t\<lparr>history := history t @ [Called q resp False]\<rparr>" u "[]" "[Called q resp False]"]
        thread [of k Serving "t\<lparr>posted := posted t @ [(q, resp)]\<rparr>" u "[]" "[]"]
      by (auto simp: Delivers split: if_splits)
  next
    case (Dequeued q resp)
    then show ?thesis using goes earlier thread [of k _ t u "[]" "[]"] by (cases "q = r") (auto split: if_splits)
  next
    case (Calls_back q resp)
    then show ?thesis using goes past
        thread [of k _ "t\<lparr>history := history t @ [Called q resp False]\<rparr>" u "[]" "[Called q resp False]"]
      by auto
  next
    case (In_callback q resp)
    then show ?thesis using goes thread [of k Serving t u "[]" "[]"] by simp
  qed
qed

lemma moved_left_behind:
  assumes left: "left_behind r s t" and earlier: "\<not> epoch_matches r t" and moved: "http_moved m t = Some u"
  shows "left_behind r s u"
proof (cases m)
  case (Pool pm)
  then obtain p where p: "pool_alone pm (pool t)" "pool_moved http_code pm (pool t) = Some p" "u = t\<lparr>pool := p\<rparr>"
    using moved by (auto split: if_splits)
  have "\<forall>w \<in> snd ` set (service_threads p). \<not> past_check r w"
  proof
    fix w assume "w \<in> snd ` set (service_threads p)"
    then have "w \<in> snd ` set (service_threads (pool t)) \<or> w \<in> {Serving, Ended, Joined}"
      using pool_moved_threads [OF p(1,2)] by blast
    then show "\<not> past_check r w" using left unfolding left_behind_def by auto
  qed
  then show ?thesis using left p(3) by (simp add: left_behind_def)
next
  case (Makes i executor)
  then show ?thesis using moved by (auto simp: make_delivery_def split: if_splits intro: left_behind_frame [OF left])
next
  case (Spawns i)
  then show ?thesis using moved by (auto simp: spawn_def split: if_splits intro: left_behind_frame [OF left])
next
  case (Session_ends k q outcome)
  then have u: "on_thread k (Handling (Completes q (async_response outcome))) t
      (t\<lparr>in_flight := remove1 q (in_flight t), history := history t @ [Session_ended q outcome]\<rparr>) = Some u"
    using moved by (auto split: if_splits)
  show ?thesis by (rule left_behind_thread [OF left u, of "[]" "[Session_ended q outcome]"]) simp_all
next
  case (Takes_posted k)
  obtain q resp rest where u: "on_thread k (Handling (Dequeued q resp)) t (t\<lparr>posted := rest\<rparr>) = Some u"
    using moved Takes_posted by (auto split: list.splits if_splits)
  show ?thesis by (rule left_behind_thread [OF left u, of "[]" "[]"]) simp_all
next
  case (Runs_handler k)
  then show ?thesis using moved delivery_left_behind [OF left earlier] by (auto split: if_splits service_thread.splits)
next
  case (Executor_runs n)
  then obtain q resp where q: "n < length (executors t)" "executors t ! n = (q, resp)"
    "u = t\<lparr>executors := take n (executors t) @ drop (Suc n) (executors t), history := history t @ [Called q resp True]\<rparr>"
    using moved by (auto split: if_splits prod.splits)
  have "(q, resp) \<in> set (executors t)" using q(1,2) by (metis nth_mem)
  then have "q = r \<Longrightarrow> (r, resp) \<in> set (executors s)" using left unfolding left_behind_def by blast
  moreover have "(r, x) \<in> set (executors s)" if "(r, x) \<in> set (executors u)" for x
    using that left q(3) in_set_takeD [of "(r, x)" n "executors t"] in_set_dropD [of "(r, x)" "Suc n" "executors t"]
    unfolding left_behind_def by auto
  moreover have "\<forall>w \<in> snd ` set (service_threads (pool u)). \<not> past_check r w"
    using left q(3) unfolding left_behind_def by simp
  moreover have "Called r x b \<in> set (history s) \<or> b \<and> (r, x) \<in> set (executors s)" if "Called r x b \<in> set (history t)" for x b
    using that left unfolding left_behind_def by blast
  ultimately show ?thesis using q(3) unfolding left_behind_def by auto
qed

text \<open>An earlier request stays one while the epoch does not wrap.\<close>

definition abandoned :: "nat \<Rightarrow> http_service \<Rightarrow> bool" where
  "abandoned r s \<longleftrightarrow> r < length (requests s) \<and> unat (request_epoch (requests s ! r)) < bumps (pool s)"

lemma abandoned_moved: "abandoned r s \<Longrightarrow> http_moved m s = Some t \<Longrightarrow> abandoned r t"
  using http_moved_frame [of m s t] http_moved_epoch [of m s t]
  by (auto simp: abandoned_def spawn_def make_delivery_def nth_append)

lemma bumps_grow: "http_step\<^sup>*\<^sup>* s t \<Longrightarrow> bumps (pool s) \<le> bumps (pool t)"
  by (induction rule: rtranclp_induct) (auto elim!: http_stepE dest!: http_moved_epoch)

lemma steps_left_behind:
  assumes "http_step\<^sup>*\<^sup>* s t" "http_inv s" "abandoned r s" "left_behind r s s" "bumps (pool t) < 2 ^ 64"
  shows "left_behind r s t \<and> abandoned r t"
  using assms(1,5)
proof (induction rule: rtranclp_induct)
  case (step t u)
  obtain m where m: "http_moved m t = Some u" using step.hyps(2) by (auto elim: http_stepE)
  have "bumps (pool t) \<le> bumps (pool u)" using bumps_grow step.hyps(2) by blast
  then have b: "bumps (pool t) < 2 ^ 64" using step.prems by simp
  then have t: "left_behind r s t" "abandoned r t" using step by blast+
  have "http_inv t" by (rule http_system.steps_inv [OF step.hyps(1) assms(2)])
  then have "\<not> epoch_matches r t" using earlier_epoch [of t r] b t(2) by (simp add: http_inv_def abandoned_def)
  then show ?case using moved_left_behind [OF t(1) _ m] abandoned_moved [OF t(2) m] by blast
qed (use assms in simp)

section \<open>Properties\<close>

text \<open>
  C17. \<open>service_threads_\<close> has one owner at a time: no thread is joined twice, destroyed while it may run or left behind by a
  restart; a running service has exactly the threads it was configured for, all serving, and a stopped one has none.
\<close>
theorem service_threads_owned:
  assumes "code = http_code \<or> code = stream_code" "reachable (pool_init n) (pool_step code) s"
  shows "\<not> terminated s \<and> (\<forall>i j. owns_service s i \<and> owns_service s j \<longrightarrow> i = j)
    \<and> (service_state s = Svc_stopped \<longrightarrow> service_threads s = [])
    \<and> (service_state s = Svc_running \<longrightarrow> threads_of s = thread_plan code (count s) \<and> (\<forall>w \<in> snd ` set (service_threads s). alive w))
    \<and> (\<forall>i as. i < length (callers s) \<and> callers s ! i = Preparing as \<longrightarrow> service_threads s = [])"
proof -
  have inv: "pool_inv code s" using assms http_pool.reachable_inv stream_pool.reachable_inv by blast
  have "service_threads s = []" if "i < length (callers s)" "callers s ! i = Preparing as" for i as
    using pool_invD(2) [OF inv that(1)] that(2) by simp
  then show ?thesis using pool_invD(1,3,4) [OF inv] by (auto simp: free_ok_def threads_up_def one_owner_def)
qed

definition running_pool :: "delivery pool" where
  "running_pool = the (pool_schedule http_code (Starts 0 # replicate 8 (Goes 0)) (pool_init 1))"

lemma running_pool_reachable: "reachable (pool_init 1) (pool_step http_code) running_pool"
  by (rule pool_schedule_reaches [of http_code "Starts 0 # replicate 8 (Goes 0)"]) (simp add: running_pool_def run_pool_defs)

lemma running_pool_fields: "service_state running_pool = Svc_running" "count running_pool = 1"
  by (simp_all add: running_pool_def run_pool_defs)

theorem service_threads_owned_witness: "threads_of running_pool = [Io_context, Callback_context]"
  using service_threads_owned [OF disjI1 [OF refl] running_pool_reachable] running_pool_fields by (simp add: http_code_def)

text \<open>
  C18. A start or a shutdown that has begun ends, whoever else waits: the steps of its owner and of the service threads,
  whose handlers return, are finitely many, and after them the service is stopped without threads or running as planned.
\<close>
theorem start_and_shutdown_end:
  assumes "code = http_code \<or> code = stream_code" "reachable (pool_init n) (pool_step code) s"
  shows "(\<forall>k t. (pool_internal code ^^ k) s t \<longrightarrow> k \<le> pool_weight code s)
    \<and> (\<exists>t. (pool_internal code)\<^sup>*\<^sup>* s t \<and> (\<nexists>u. pool_internal code t u))
    \<and> (\<forall>t. (pool_internal code)\<^sup>*\<^sup>* s t \<and> (\<nexists>u. pool_internal code t u) \<longrightarrow>
        service_state t = Svc_stopped \<and> service_threads t = []
        \<or> service_state t = Svc_running \<and> threads_of t = thread_plan code (count t))"
  using assms(1)
proof
  assume c: "code = http_code"
  have inv: "pool_inv http_code s" using assms(2) c http_pool.reachable_inv by blast
  show ?thesis unfolding c
    using http_pool.rest.run_bounded inv http_pool.rest.rests [OF inv] http_pool.rest.internal_inv inv http_pool.at_rest_free
    by (auto simp: threads_up_def) blast+
next
  assume c: "code = stream_code"
  have inv: "pool_inv stream_code s" using assms(2) c stream_pool.reachable_inv by blast
  show ?thesis unfolding c
    using stream_pool.rest.run_bounded inv stream_pool.rest.rests [OF inv] stream_pool.rest.internal_inv inv stream_pool.at_rest_free
    by (auto simp: threads_up_def) blast+
qed

theorem start_and_shutdown_end_witness: "\<exists>t. (pool_internal http_code)\<^sup>*\<^sup>* running_pool t \<and> (\<nexists>u. pool_internal http_code t u)"
  using start_and_shutdown_end [OF disjI1 [OF refl] running_pool_reachable] by blast

text \<open>
  C5. \<open>on_response\<close> is called at most once for a request, and with the response, or the error, its own session ended with.
\<close>
theorem callback_at_most_once:
  assumes "reachable (http_init n) http_step s"
  shows "calls_of r s \<le> 1 \<and> (\<forall>resp b. Called r resp b \<in> set (history s) \<longrightarrow>
    (\<exists>outcome. Session_ended r outcome \<in> set (history s) \<and> resp = async_response outcome))"
proof -
  have inv: "tokens s r \<le> of_bool (r < length (requests s))" "responses s \<subseteq> answered s"
    using http_system.reachable_inv [OF assms] by (simp_all add: http_inv_def)
  have "calls_of r s \<le> tokens s r" by (simp add: tokens_def)
  then have "calls_of r s \<le> 1" using inv(1) by (cases "r < length (requests s)") simp_all
  moreover have "(r, resp) \<in> answered s" if "Called r resp b \<in> set (history s)" for resp b
    using inv(2) responses_parts(4) [OF that] by blast
  ultimately show ?thesis by (fastforce simp: answered_def)
qed

text \<open>A service that has answered one request.\<close>

definition starting_up :: "http_move list" where
  "starting_up = Pool (Starts 0) # replicate 8 (Pool (Goes 0))"

definition answering :: "http_move list" where
  "answering = [Makes 0 False, Spawns 0, Session_ends 0 0 (Inl (Std_exception ''x'')), Runs_handler 0, Runs_handler 0,
     Takes_posted 1, Runs_handler 1, Runs_handler 1, Runs_handler 1]"

definition served :: http_service where
  "served = the (http_schedule (starting_up @ answering) (http_init 1))"

lemma served_reachable: "reachable (http_init 1) http_step served"
  by (rule http_schedule_reaches [of "starting_up @ answering"])
    (simp add: served_def starting_up_def answering_def run_http_defs)

theorem callback_at_most_once_witness: "calls_of 0 served \<le> 1"
  using callback_at_most_once [OF served_reachable] by blast

text \<open>
  C25. No callback gets lost without a shutdown: a request of the running epoch that is nowhere under way (its session has
  ended, no handler or queue holds it) has had its callback called exactly once.
\<close>
theorem callback_delivered:
  assumes "reachable (http_init n) http_step s" "bumps (pool s) < 2 ^ 64" "r < length (requests s)" "epoch_matches r s"
    and "r \<notin> set (in_flight s)" "r \<notin> fst ` set (posted s)" "r \<notin> fst ` set (executors s)" "pool_holds r (pool s) = 0"
  shows "calls_of r s = 1"
proof -
  have inv: "http_inv s" by (rule http_system.reachable_inv [OF assms(1)])
  then have i: "\<And>r. tokens s r \<le> of_bool (r < length (requests s))" "epochs_ok s"
      "tokens s r = 0 \<Longrightarrow> unat (request_epoch (requests s ! r)) < bumps (pool s)"
    using assms(2,3) by (simp_all add: http_inv_def)
  have "tokens s r \<le> 1" using i(1) [of r] assms(3) by simp
  moreover have "tokens s r \<noteq> 0" using i(3) earlier_epoch [OF i(2) assms(2,3)] assms(4) by blast
  moreover have "tokens s r = calls_of r s"
    using assms(5-8) by (simp add: tokens_def count_list_0_iff)
  ultimately show ?thesis by simp
qed

theorem callback_delivered_witness: "calls_of 0 served = 1"
proof (rule callback_delivered [OF served_reachable])
  have "bumps (pool served) = 0" by (simp add: served_def starting_up_def answering_def run_http_defs)
  then show "bumps (pool served) < 2 ^ 64" by simp
qed (simp_all add: served_def starting_up_def answering_def run_http_defs pool_holds_def)

text \<open>
  C16. Once \<open>shutdown()\<close> has stopped the service, the callbacks of the requests it abandoned are never called, whatever is
  restarted later, and none of them is posted to a caller's executor; only one an executor already held still runs.
\<close>
theorem abandoned_never_called:
  assumes "reachable (http_init n) http_step s" "service_state (pool s) = Svc_stopped" "r < length (requests s)"
    and "\<not> epoch_matches r s" "http_step\<^sup>*\<^sup>* s t" "bumps (pool t) < 2 ^ 64"
  shows "((r, resp) \<in> set (executors t) \<longrightarrow> (r, resp) \<in> set (executors s))
    \<and> (Called r resp b \<in> set (history t) \<longrightarrow> Called r resp b \<in> set (history s) \<or> b \<and> (r, resp) \<in> set (executors s))"
proof -
  have inv: "http_inv s" by (rule http_system.reachable_inv [OF assms(1)])
  have "bumps (pool s) < 2 ^ 64" using bumps_grow [OF assms(5)] assms(6) by simp
  then have "abandoned r s" using earlier_epoch [of s r] inv assms(3,4) by (simp add: http_inv_def abandoned_def)
  moreover have "service_threads (pool s) = []"
    using inv assms(2) by (simp add: http_inv_def pool_inv_def free_ok_def)
  then have "left_behind r s s" by (simp add: left_behind_def)
  ultimately have "left_behind r s t" using steps_left_behind [OF assms(5) inv] assms(6) by blast
  then show ?thesis unfolding left_behind_def by blast
qed

text \<open>A request is abandoned by a shutdown; a restarted service ends its session.\<close>

definition shutting_down :: "http_move list" where
  "shutting_down = map Pool ([Shuts 0, Goes 0, Goes 0, Goes 0, Goes 0, Goes 0, Thread 0 Ended, Thread 1 Ended] @ replicate 4 (Goes 0))"

definition stopped_service :: http_service where
  "stopped_service = the (http_schedule (starting_up @ [Makes 0 False, Spawns 0] @ shutting_down) (http_init 1))"

definition restarted :: http_service where
  "restarted = the (http_schedule (starting_up @ [Session_ends 0 0 (Inl Other_exception), Runs_handler 0]) stopped_service)"

lemmas stopped_defs = stopped_service_def starting_up_def shutting_down_def run_http_defs

theorem abandoned_never_called_witness:
  "Called 0 (async_error_response Other_exception) False \<notin> set (history restarted) \<and> in_flight restarted = []"
proof -
  have r: "reachable (http_init 1) http_step stopped_service"
    by (rule http_schedule_reaches [of "starting_up @ [Makes 0 False, Spawns 0] @ shutting_down"]) (simp add: stopped_defs)
  have s: "http_step\<^sup>*\<^sup>* stopped_service restarted"
    by (rule http_schedule_steps [of "starting_up @ [Session_ends 0 0 (Inl Other_exception), Runs_handler 0]"])
      (simp add: restarted_def stopped_defs)
  have f: "service_state (pool stopped_service) = Svc_stopped" "0 < length (requests stopped_service)"
      "\<not> epoch_matches 0 stopped_service" "history stopped_service = []"
    by (simp_all add: stopped_defs)
  have "bumps (pool restarted) = 1" "in_flight restarted = []" by (simp_all add: restarted_def stopped_defs)
  then have "bumps (pool restarted) < 2 ^ 64" "in_flight restarted = []" by simp_all
  then show ?thesis using abandoned_never_called [OF r f(1-3) s] f(4) by auto
qed

text \<open>
  A callback can be left in a queue nobody serves: a request made right after \<open>shutdown()\<close> bumped the epoch, whose
  session ends at once (a malformed URL) on the I/O thread that is still running, is posted to \<open>callback_ioc_\<close> under the
  new epoch; when the service is started again with no callback threads, the callback is neither dropped nor called.
\<close>

definition late_request :: "http_move list" where
  "late_request = starting_up @ [Makes 0 False, Spawns 0, Pool (Starts 1), Pool (Shuts 0), Pool (Goes 0), Pool (Goes 0),
     Makes 1 False, Spawns 1, Session_ends 0 1 (Inl Other_exception), Runs_handler 0, Runs_handler 0]"

definition restarting_inline :: "http_move list" where
  "restarting_inline = map Pool ([Goes 0, Goes 0, Goes 0, Thread 0 Ended, Thread 1 Ended] @ replicate 4 (Goes 0)
     @ [Sets_count 0, Starts 0] @ replicate 7 (Goes 0))"

lemma callback_left_queued:
  "\<exists>s resp. reachable (http_init 2) http_step s \<and> service_state (pool s) = Svc_running \<and> posted s = [(1, resp)]
     \<and> epoch_matches 1 s \<and> threads_of (pool s) = [Io_context]"
proof -
  define s where "s = the (http_schedule late_request (http_init 2))"
  define t where "t = the (http_schedule restarting_inline s)"
  have s: "http_schedule late_request (http_init 2) = Some s"
    by (simp add: s_def late_request_def starting_up_def run_http_defs)
  have t: "http_schedule restarting_inline s = Some t"
    by (simp add: t_def s_def late_request_def restarting_inline_def starting_up_def run_http_defs)
  have "reachable (http_init 2) http_step t"
    by (rule steps_reachable [OF http_schedule_steps [OF t] http_schedule_reaches [OF s]])
  moreover have "service_state (pool t) = Svc_running" "posted t = [(1, async_response (Inl Other_exception))]"
      "epoch_matches 1 t" "threads_of (pool t) = [Io_context]"
    by (simp_all add: t_def s_def late_request_def restarting_inline_def starting_up_def threads_of_def async_response_def run_http_defs)
  ultimately show ?thesis by blast
qed

end
