(* ===== verification/Delivery_Object.thy ===== *)
theory Delivery_Object
  imports "HOL-Library.Word"
begin

text \<open>
  The object \<open>response_delivery\<close> of \<open>http.cpp\<close> and the executor in its union, which is constructed and destroyed by hand:
  \<open>co_spawn\<close> moves the object along and destroys what is left behind, and the last one is invoked at most once.
  \<^const>\<open>None\<close> stands for undefined behaviour: an executor used or destroyed where none is, or a callback that was moved away.
\<close>

section \<open>The object\<close>

text \<open>The member of the union: raw storage, or an \<open>any_io_executor\<close>, which may be empty.\<close>

datatype 'e executor_union = Raw | Alive "'e option"

record 'e response_delivery =
  callback :: bool                 \<comment> \<open>\<open>on_response_\<close> has not been moved from\<close>
  delivery_epoch :: "64 word"
  has_executor :: bool
  executor :: "'e executor_union"

definition construct_delivery :: "64 word \<Rightarrow> 'e option \<Rightarrow> 'e response_delivery" where
  "construct_delivery e ex =
     \<lparr>callback = True, delivery_epoch = e, has_executor = (ex \<noteq> None), executor = (if ex \<noteq> None then Alive ex else Raw)\<rparr>"

fun destroy_executor :: "'e executor_union \<Rightarrow> 'e executor_union option" where
  "destroy_executor (Alive x) = Some Raw"
| "destroy_executor Raw = None"

text \<open>The move constructor: the new object, and what it leaves of the other.  A moved-from executor is empty.\<close>

definition move_delivery :: "'e response_delivery \<Rightarrow> ('e response_delivery \<times> 'e response_delivery) option" where
  "move_delivery d =
     (let old = d\<lparr>callback := False, has_executor := False\<rparr> in
      if has_executor d then
        (case executor d of
           Raw \<Rightarrow> None
         | Alive x \<Rightarrow> map_option (\<lambda>u. (d, old\<lparr>executor := u\<rparr>)) (destroy_executor (Alive None)))
      else Some (d\<lparr>executor := Raw\<rparr>, old))"

datatype 'e sent = Posts_to "'e option" | Calls_inline | Posts_callback | Drops

text \<open>\<open>operator()\<close>, with the epoch and the flag it loads.\<close>

definition invoke_delivery :: "64 word \<Rightarrow> bool \<Rightarrow> 'e response_delivery \<Rightarrow> ('e sent \<times> 'e response_delivery) option" where
  "invoke_delivery now inline d =
     (if delivery_epoch d \<noteq> now then Some (Drops, d)
      else if \<not> callback d then None
      else if has_executor d then
        (case executor d of
           Raw \<Rightarrow> None
         | Alive x \<Rightarrow> map_option (\<lambda>u. (Posts_to x, d\<lparr>callback := False, has_executor := False, executor := u\<rparr>)) (destroy_executor (executor d)))
      else if inline then Some (Calls_inline, d)
      else Some (Posts_callback, d\<lparr>callback := False\<rparr>))"

text \<open>\<open>n\<close> moves: the object in use and those left behind, whose destructor does nothing to the union.\<close>

fun move_along :: "nat \<Rightarrow> 'e response_delivery \<Rightarrow> ('e response_delivery \<times> 'e response_delivery list) option" where
  "move_along 0 d = Some (d, [])"
| "move_along (Suc n) d =
     (case move_delivery d of
        None \<Rightarrow> None
      | Some (e, old) \<Rightarrow> map_option (\<lambda>(f, olds). (f, old # olds)) (move_along n e))"

section \<open>Property\<close>

lemma move_constructed:
  "move_delivery (construct_delivery e ex)
    = Some (construct_delivery e ex, \<lparr>callback = False, delivery_epoch = e, has_executor = False, executor = Raw\<rparr>)"
  by (cases ex) (simp_all add: move_delivery_def construct_delivery_def)

lemma move_along_constructed:
  "move_along n (construct_delivery e ex)
    = Some (construct_delivery e ex, replicate n \<lparr>callback = False, delivery_epoch = e, has_executor = False, executor = Raw\<rparr>)"
  by (induction n) (simp_all add: move_constructed)

text \<open>
  C26. However often the delivery of a request is moved, its executor is neither used nor destroyed where there is none, and
  no moved-from object keeps one; invoking it in its epoch hands the callback to the executor given, or to the service when
  none was, and leaves none behind.  Only a delivery of an earlier epoch keeps its executor, which then leaks, as intended.
\<close>
theorem executor_handed_over:
  "\<exists>d olds sent d'. move_along n (construct_delivery e ex) = Some (d, olds) \<and> invoke_delivery now inline d = Some (sent, d')
    \<and> list_all (\<lambda>old. executor old = Raw \<and> \<not> callback old) olds
    \<and> (if e = now then executor d' = Raw
           \<and> sent = (case ex of Some x \<Rightarrow> Posts_to (Some x) | None \<Rightarrow> if inline then Calls_inline else Posts_callback)
       else sent = Drops \<and> executor d' = (case ex of Some x \<Rightarrow> Alive (Some x) | None \<Rightarrow> Raw))"
  unfolding move_along_constructed
  by (cases ex) (auto simp: invoke_delivery_def construct_delivery_def list_all_iff)

end
