(* ===== verification/Sync_Contexts.thy ===== *)
theory Sync_Contexts
  imports Transitions
begin

text \<open>
  \<open>sync_context_pool\<close> of \<open>http.cpp\<close>: the parked \<open>io_context\<close>s of the blocking requests, taken and given back by any
  number of threads without a lock.  Contexts are numbered in the order they are created.
\<close>

section \<open>State\<close>

text \<open>Where a thread is in \<open>sync_request\<close>.\<close>

datatype sync_pc =
    Outside
  | Scanning nat          \<comment> \<open>\<open>acquire\<close>, before the load of slot \<open>k\<close>\<close>
  | Taking nat            \<comment> \<open>before the exchange of slot \<open>k\<close>\<close>
  | Requesting nat        \<comment> \<open>\<open>run_sync_request\<close> on a context\<close>
  | Parking nat nat       \<comment> \<open>\<open>release\<close> of a context, before the load of slot \<open>k\<close>\<close>
  | Swapping_in nat nat   \<comment> \<open>before the compare-exchange of slot \<open>k\<close>\<close>

record sync_pool =
  slots :: "nat option list"
  users :: "sync_pc list"
  created :: nat
  destroyed :: "nat list"

definition sync_init :: "nat \<Rightarrow> sync_pool" where
  "sync_init n = \<lparr>slots = replicate 16 None, users = replicate n Outside, created = 0, destroyed = []\<rparr>"

definition user_at :: "nat \<Rightarrow> sync_pc \<Rightarrow> sync_pool \<Rightarrow> sync_pool" where
  "user_at i pc s = s\<lparr>users := (users s)[i := pc]\<rparr>"

section \<open>Steps\<close>

text \<open>\<open>acquire\<close>: the loop over the slots, and the new context when none was parked.\<close>

fun acquire_goes :: "nat \<Rightarrow> sync_pc \<Rightarrow> sync_pool \<Rightarrow> sync_pool" where
  "acquire_goes i (Scanning k) s =
     (if k < length (slots s)
      then (if slots s ! k \<noteq> None then user_at i (Taking k) s else user_at i (Scanning (Suc k)) s)
      else user_at i (Requesting (created s)) (s\<lparr>created := Suc (created s)\<rparr>))"
| "acquire_goes i (Taking k) s =
     (case slots s ! k of
        Some c \<Rightarrow> user_at i (Requesting c) (s\<lparr>slots := (slots s)[k := None]\<rparr>)
      | None \<Rightarrow> user_at i (Scanning (Suc k)) s)"
| "acquire_goes i pc s = s"

text \<open>\<open>release\<close>: the loop over the slots; the context is destroyed when every slot is taken.\<close>

fun release_goes :: "nat \<Rightarrow> sync_pc \<Rightarrow> sync_pool \<Rightarrow> sync_pool" where
  "release_goes i (Parking c k) s =
     (if k < length (slots s)
      then (if slots s ! k = None then user_at i (Swapping_in c k) s else user_at i (Parking c (Suc k)) s)
      else user_at i Outside (s\<lparr>destroyed := c # destroyed s\<rparr>))"
| "release_goes i (Swapping_in c k) s =
     (if slots s ! k = None then user_at i Outside (s\<lparr>slots := (slots s)[k := Some c]\<rparr>)
      else user_at i (Parking c (Suc k)) s)"
| "release_goes i pc s = s"

text \<open>\<open>sync_request\<close>.\<close>

definition sync_goes :: "nat \<Rightarrow> sync_pool \<Rightarrow> sync_pool" where
  "sync_goes i s = (case users s ! i of
     Outside \<Rightarrow> user_at i (Scanning 0) s
   | Scanning k \<Rightarrow> acquire_goes i (Scanning k) s
   | Taking k \<Rightarrow> acquire_goes i (Taking k) s
   | Requesting c \<Rightarrow> user_at i (Parking c 0) s
   | Parking c k \<Rightarrow> release_goes i (Parking c k) s
   | Swapping_in c k \<Rightarrow> release_goes i (Swapping_in c k) s)"

text \<open>The destructor, at program exit; deleting a null pointer does nothing.\<close>

definition destroy_pool :: "sync_pool \<Rightarrow> sync_pool" where
  "destroy_pool s = s\<lparr>destroyed := concat (map (case_option [] (\<lambda>c. [c])) (slots s)) @ destroyed s\<rparr>"

inductive sync_step :: "sync_pool \<Rightarrow> sync_pool \<Rightarrow> bool" where
  goes: "i < length (users s) \<Longrightarrow> sync_step s (sync_goes i s)"

inductive_cases sync_stepE: "sync_step s t"

section \<open>Every context is in one place\<close>

fun holding :: "sync_pc \<Rightarrow> nat option" where
  "holding (Requesting c) = Some c"
| "holding (Parking c k) = Some c"
| "holding (Swapping_in c k) = Some c"
| "holding pc = None"

definition places :: "nat \<Rightarrow> sync_pool \<Rightarrow> nat" where
  "places c s = count_list (slots s) (Some c) + count_list (map holding (users s)) (Some c) + count_list (destroyed s) c"

fun slot_ok :: "sync_pc \<Rightarrow> bool" where
  "slot_ok (Taking k) = (k < 16)"
| "slot_ok (Swapping_in c k) = (k < 16)"
| "slot_ok pc = True"

definition sync_inv :: "sync_pool \<Rightarrow> bool" where
  "sync_inv s \<longleftrightarrow> length (slots s) = 16 \<and> (\<forall>pc \<in> set (users s). slot_ok pc) \<and> (\<forall>c. places c s = of_bool (c < created s))"

lemma count_list_update:
  "k < length xs \<Longrightarrow> count_list (xs[k := x]) y + of_bool (xs ! k = y) = count_list xs y + of_bool (x = y)"
proof (induction xs arbitrary: k)
  case (Cons a xs)
  show ?case
  proof (cases k)
    case (Suc j)
    then show ?thesis using Cons.IH [of j] Cons.prems by auto
  qed auto
qed simp

text \<open>A user goes on: what it held is where it is now, or in a slot, or destroyed.\<close>

lemma places_user_at:
  assumes "i < length (users s)"
  shows "places c (user_at i pc s) + of_bool (holding (users s ! i) = Some c) = places c s + of_bool (holding pc = Some c)"
  using count_list_update [of i "map holding (users s)" "holding pc" "Some c"] assms
  by (simp add: places_def user_at_def map_update)

lemma places_slot:
  assumes "k < length (slots s)"
  shows "places c (s\<lparr>slots := (slots s)[k := x]\<rparr>) + of_bool (slots s ! k = Some c) = places c s + of_bool (x = Some c)"
  using count_list_update [OF assms, of x "Some c"] by (simp add: places_def)

lemma sync_inv_goes:
  assumes inv: "sync_inv s" and i: "i < length (users s)"
  shows "sync_inv (sync_goes i s)"
proof -
  have slots: "length (slots s) = 16" and ok: "slot_ok (users s ! i)" and all: "\<forall>pc \<in> set (users s). slot_ok pc"
    and places: "\<And>c. places c s = of_bool (c < created s)"
    using inv i by (auto simp: sync_inv_def)
  have keep: "sync_inv (user_at i pc u)"
    if "users u = users s" "length (slots u) = 16" "slot_ok pc"
      "\<And>c. places c (user_at i pc u) = of_bool (c < created u)" for pc u
    using that all by (auto simp: sync_inv_def user_at_def dest!: set_update_subset_insert [THEN subsetD])
  note at = places_user_at [OF i]
  show ?thesis
  proof (cases "users s ! i")
    case (Taking k)
    then have k: "k < length (slots s)" using ok slots by simp
    show ?thesis
    proof (cases "slots s ! k")
      case (Some c)
      let ?u = "s\<lparr>slots := (slots s)[k := None]\<rparr>"
      have "places d (user_at i (Requesting c) ?u) = of_bool (d < created s)" for d
        using places_slot [OF k, of d None] places_user_at [of i ?u d "Requesting c"] i places [of d] Some Taking by auto
      then show ?thesis using keep [of ?u "Requesting c"] Some Taking slots by (simp add: sync_goes_def)
    next
      case None
      then show ?thesis using keep [of s "Scanning (Suc k)"] at [of _ "Scanning (Suc k)"] places Taking slots
        by (simp add: sync_goes_def)
    qed
  next
    case (Swapping_in c k)
    then have k: "k < length (slots s)" using ok slots by simp
    show ?thesis
    proof (cases "slots s ! k = None")
      case True
      let ?u = "s\<lparr>slots := (slots s)[k := Some c]\<rparr>"
      have "places d (user_at i Outside ?u) = of_bool (d < created s)" for d
        using places_slot [OF k, of d "Some c"] places_user_at [of i ?u d Outside] i places [of d] True Swapping_in by auto
      then show ?thesis using keep [of ?u Outside] True Swapping_in slots by (simp add: sync_goes_def)
    next
      case False
      then show ?thesis using keep [of s "Parking c (Suc k)"] at [of _ "Parking c (Suc k)"] places Swapping_in slots
        by (auto simp: sync_goes_def)
    qed
  next
    case (Scanning k)
    let ?u = "s\<lparr>created := Suc (created s)\<rparr>"
    have "places d ?u = places d s" for d by (simp add: places_def)
    then have "places d (user_at i (Requesting (created s)) ?u) = of_bool (d < Suc (created s))" for d
      using places_user_at [of i ?u d "Requesting (created s)"] i places [of d] Scanning by auto
    then show ?thesis
      using keep [of ?u "Requesting (created s)"] keep [of s "Taking k"] keep [of s "Scanning (Suc k)"]
        at [of _ "Taking k"] at [of _ "Scanning (Suc k)"] places Scanning slots
      by (simp add: sync_goes_def)
  next
    case (Parking c k)
    let ?u = "s\<lparr>destroyed := c # destroyed s\<rparr>"
    have "places d ?u = places d s + of_bool (c = d)" for d by (simp add: places_def)
    then have "places d (user_at i Outside ?u) = of_bool (d < created s)" for d
      using places_user_at [of i ?u d Outside] i places [of d] Parking by auto
    then show ?thesis
      using keep [of ?u Outside] keep [of s "Swapping_in c k"] keep [of s "Parking c (Suc k)"]
        at [of _ "Swapping_in c k"] at [of _ "Parking c (Suc k)"] places Parking slots
      by (simp add: sync_goes_def)
  next
    case Outside
    then show ?thesis using keep [of s "Scanning 0"] at [of _ "Scanning 0"] places slots by (simp add: sync_goes_def)
  next
    case (Requesting c)
    then show ?thesis using keep [of s "Parking c 0"] at [of _ "Parking c 0"] places slots by (simp add: sync_goes_def)
  qed
qed

interpretation sync_contexts: inductive_invariant "sync_init n" sync_step sync_inv for n
proof unfold_locales
  show "sync_inv (sync_init n)"
    by (auto simp: sync_inv_def sync_init_def places_def count_list_0_iff)
qed (auto elim!: sync_stepE intro: sync_inv_goes)

section \<open>Properties\<close>

lemma count_parked: "count_list (concat (map (case_option [] (\<lambda>c. [c])) xs)) c = count_list xs (Some c)"
  by (induction xs) (auto split: option.split)

text \<open>
  C24. Every blocking request runs on a context of its own: one that a request holds is not parked, not destroyed and not
  held by another request; and no context gets lost: each one created is held, parked in one slot or destroyed, and when the
  destructor runs after all requests, each one has been destroyed exactly once.
\<close>
theorem context_in_one_place:
  assumes "reachable (sync_init n) sync_step s" "c < created s"
  shows "(Some c \<in> set (slots s) \<or> Some c \<in> holding ` set (users s) \<or> c \<in> set (destroyed s))
    \<and> (\<forall>i j. i < length (users s) \<and> j < length (users s) \<and> holding (users s ! i) = Some c \<longrightarrow>
        Some c \<notin> set (slots s) \<and> c \<notin> set (destroyed s) \<and> (holding (users s ! j) = Some c \<longrightarrow> i = j))
    \<and> ((\<forall>pc \<in> set (users s). pc = Outside) \<longrightarrow> count_list (destroyed (destroy_pool s)) c = 1)"
proof -
  have one: "count_list (slots s) (Some c) + count_list (map holding (users s)) (Some c) + count_list (destroyed s) c = 1"
    using sync_contexts.reachable_inv [OF assms(1)] assms(2) by (simp add: sync_inv_def places_def)
  have held: "count_list (map holding (users s)) (Some c) \<noteq> 0" if "i < length (users s)" "holding (users s ! i) = Some c" for i
    using that by (simp add: count_list_0_iff) (metis imageI nth_mem)
  have two: "i = j" if "count_list xs x \<le> 1" "i < length xs" "j < length xs" "xs ! i = x" "xs ! j = x" for i j and xs :: "nat option list" and x
    using that
  proof (induction xs arbitrary: i j)
    case (Cons y ys)
    then show ?case by (cases i; cases j) (auto simp: count_list_0_iff split: if_splits)
  qed simp
  have "i = j" if "i < length (users s)" "j < length (users s)" "holding (users s ! i) = Some c" "holding (users s ! j) = Some c" for i j
    using two [of "map holding (users s)" "Some c" i j] one that by simp
  moreover have "Some c \<notin> set (slots s) \<and> c \<notin> set (destroyed s)" if "i < length (users s)" "holding (users s ! i) = Some c" for i
    using one held [OF that] by (simp add: count_list_0_iff [symmetric])
  moreover have "Some c \<in> set (slots s) \<or> Some c \<in> holding ` set (users s) \<or> c \<in> set (destroyed s)"
    using one by (metis add_is_0 count_notin list.set_map zero_neq_one)
  moreover have "count_list (destroyed (destroy_pool s)) c = 1" if "\<forall>pc \<in> set (users s). pc = Outside"
  proof -
    have "Some c \<notin> holding ` set (users s)" using that by auto
    then have "count_list (map holding (users s)) (Some c) = 0" by (simp add: count_list_0_iff)
    then show ?thesis using one by (simp add: destroy_pool_def count_parked)
  qed
  ultimately show ?thesis by blast
qed

text \<open>One request has parked its context, and another one has taken it.\<close>

fun sync_schedule :: "nat list \<Rightarrow> sync_pool \<Rightarrow> sync_pool" where
  "sync_schedule [] s = s"
| "sync_schedule (i # is) s = sync_schedule is (sync_goes i s)"

lemma sync_goes_users: "length (users (sync_goes i s)) = length (users s)"
  by (cases "users s ! i") (auto simp: sync_goes_def user_at_def split: option.split)

lemma sync_schedule_reaches:
  "reachable t sync_step s \<Longrightarrow> \<forall>i \<in> set is. i < length (users s) \<Longrightarrow> reachable t sync_step (sync_schedule is s)"
proof (induction "is" arbitrary: s)
  case (Cons i "is")
  have "reachable t sync_step (sync_goes i s)"
    by (rule reachable.next_step [OF Cons.prems(1) sync_step.goes]) (use Cons.prems(2) in simp)
  then show ?case using Cons.IH Cons.prems(2) by (simp add: sync_goes_users)
qed simp

definition reused :: sync_pool where
  "reused = sync_schedule (replicate 21 0 @ [1, 1, 1]) (sync_init 2)"

theorem context_in_one_place_witness: "holding (users reused ! 1) = Some 0 \<and> Some 0 \<notin> set (slots reused)"
proof -
  have "\<forall>i \<in> set (replicate 21 0 @ [1, 1, 1]). i < length (users (sync_init 2))" by (auto simp: sync_init_def)
  then have r: "reachable (sync_init 2) sync_step reused"
    unfolding reused_def by (intro sync_schedule_reaches reachable.start)
  have u: "users reused = [Outside, Requesting 0]" "created reused = 1"
    by code_simp+
  have h: "1 < length (users reused)" "holding (users reused ! 1) = Some 0" "0 < created reused" by (simp_all add: u)
  show ?thesis using context_in_one_place [OF r h(3)] h(1,2) by blast
qed

end
