(* ===== verification/Ws_Service.thy ===== *)
theory Ws_Service
  imports Transitions
begin

text \<open>
  The service thread shared by all WebSockets (\<open>websocket.cpp\<close>): \<open>start_websocket_service\<close>, \<open>stop_websocket_service\<close>,
  \<open>set_websocket_busy_poll\<close> and the loop of the thread.  They are called by application threads and, from callbacks, by
  the service thread itself; each step is one atomic operation.  Creating a thread is assumed to succeed.
\<close>

section \<open>State\<close>

datatype service_phase = Stopped_phase | Starting_phase | Running_phase | Stop_requested_phase | Stopping_phase

text \<open>
  Where a call is.  In \<open>request_service_stop\<close> the flag says whether the caller goes on to join the thread.
\<close>

datatype call_pc =
    No_call
  | Start_loop service_phase    \<comment> \<open>\<open>start_websocket_service\<close>, the value of \<open>state\<close>\<close>
  | Start_join                  \<comment> \<open>it claimed stopping to join an old thread\<close>
  | Start_claim                 \<comment> \<open>the store of starting\<close>
  | Start_run                   \<comment> \<open>the store to \<open>run_\<close>\<close>
  | Start_thread                \<comment> \<open>the assignment to \<open>service_thread_\<close>\<close>
  | Start_done                  \<comment> \<open>the store of running\<close>
  | Stop_loop service_phase     \<comment> \<open>\<open>stop_websocket_service\<close>\<close>
  | Request bool                \<comment> \<open>\<open>run_.exchange(false)\<close>\<close>
  | Request_stop bool           \<comment> \<open>\<open>ioc_.stop()\<close>\<close>
  | Stop_join
  | Stop_done                   \<comment> \<open>the store of stopped\<close>
  | Busy_stop                   \<comment> \<open>\<open>set_websocket_busy_poll\<close>: \<open>ioc_.stop()\<close>\<close>

text \<open>Where a service thread is; in a callback it may be in a call of its own.\<close>

datatype loop_pc =
    Loop_begin                  \<comment> \<open>\<open>ioc_.restart()\<close>\<close>
  | Loop_check                  \<comment> \<open>\<open>while (run_)\<close>\<close>
  | Loop_mode                   \<comment> \<open>\<open>if (busy_poll_)\<close>\<close>
  | In_run                      \<comment> \<open>\<open>ioc_.run()\<close>, between handlers\<close>
  | In_poll bool                \<comment> \<open>\<open>ioc_.poll()\<close>; has it run a handler\<close>
  | Polled                      \<comment> \<open>\<open>poll()\<close> returned 0\<close>
  | Loop_restart                \<comment> \<open>\<open>ioc_.restart()\<close>\<close>
  | Callback bool call_pc       \<comment> \<open>in a callback, run by \<open>poll\<close> or by \<open>run\<close>\<close>
  | Loop_end                    \<comment> \<open>after the loop\<close>
  | Gone

record ws_service =
  phase :: service_phase
  run_flag :: bool
  busy_poll :: bool
  ioc_stopped :: bool
  thread_object :: "nat option"     \<comment> \<open>the thread \<open>service_thread_\<close> can join\<close>
  loops :: "loop_pc list"           \<comment> \<open>the service threads in the order they were created\<close>
  apps :: "call_pc list"
  iterations :: nat
  aborted :: bool                   \<comment> \<open>a self-join, or an assignment over a joinable thread\<close>

definition ws_service_init :: "nat \<Rightarrow> ws_service" where
  "ws_service_init n = \<lparr>phase = Stopped_phase, run_flag = False, busy_poll = False, ioc_stopped = False, thread_object = None,
     loops = [], apps = replicate n No_call, iterations = 0, aborted = False\<rparr>"

section \<open>Calls\<close>

text \<open>A caller: an application thread, or a service thread in a callback.\<close>

datatype caller = App nat | On_thread nat

fun call_of :: "caller \<Rightarrow> ws_service \<Rightarrow> call_pc option" where
  "call_of (App i) s = (if i < length (apps s) then Some (apps s ! i) else None)"
| "call_of (On_thread k) s =
     (if k < length (loops s) then (case loops s ! k of Callback polling pc \<Rightarrow> Some pc | _ \<Rightarrow> None) else None)"

fun call_at :: "caller \<Rightarrow> call_pc \<Rightarrow> ws_service \<Rightarrow> ws_service" where
  "call_at (App i) pc s = s\<lparr>apps := (apps s)[i := pc]\<rparr>"
| "call_at (On_thread k) pc s =
     s\<lparr>loops := (loops s)[k := (case loops s ! k of Callback polling _ \<Rightarrow> Callback polling pc | l \<Rightarrow> l)]\<rparr>"

fun on_service_thread :: "caller \<Rightarrow> bool" where
  "on_service_thread (App i) = False"
| "on_service_thread (On_thread k) = True"

text \<open>The states each loop tries to leave by a compare-exchange.\<close>

definition start_claims :: "caller \<Rightarrow> service_phase \<Rightarrow> bool" where
  "start_claims w seen \<longleftrightarrow> \<not> on_service_thread w \<and> (seen = Stopped_phase \<or> seen = Stop_requested_phase)"

definition stop_claims :: "caller \<Rightarrow> service_phase \<Rightarrow> bool" where
  "stop_claims w seen \<longleftrightarrow> seen = Running_phase \<or> seen = Stop_requested_phase \<and> \<not> on_service_thread w"

text \<open>One turn of the loop of \<open>start_websocket_service\<close>; a failed compare-exchange loads the state again.\<close>

definition start_turn :: "caller \<Rightarrow> service_phase \<Rightarrow> ws_service \<Rightarrow> ws_service" where
  "start_turn w seen s =
     (if seen = Running_phase \<or> seen = Starting_phase then call_at w No_call s
      else if on_service_thread w then call_at w No_call s
      else if seen = Stopping_phase then call_at w (Start_loop (phase s)) s
      else if phase s = seen
      then (if seen = Stopped_phase then call_at w Start_run (s\<lparr>phase := Starting_phase\<rparr>)
            else call_at w Start_join (s\<lparr>phase := Stopping_phase\<rparr>))
      else call_at w (Start_loop (phase s)) s)"

text \<open>One turn of the loop of \<open>stop_websocket_service\<close>.\<close>

definition stop_turn :: "caller \<Rightarrow> service_phase \<Rightarrow> ws_service \<Rightarrow> ws_service" where
  "stop_turn w seen s =
     (if seen = Stopped_phase then call_at w No_call s
      else if seen = Starting_phase then call_at w (Stop_loop (phase s)) s
      else if on_service_thread w
      then (if seen \<noteq> Running_phase then call_at w (Request False) s
            else if phase s = Running_phase then call_at w (Request False) (s\<lparr>phase := Stop_requested_phase\<rparr>)
            else call_at w (Stop_loop (phase s)) s)
      else if seen = Stopping_phase then call_at w (Stop_loop (phase s)) s
      else if phase s = seen then call_at w (Request True) (s\<lparr>phase := Stopping_phase\<rparr>)
      else call_at w (Stop_loop (phase s)) s)"

text \<open>\<open>request_service_stop\<close>, and what follows it.\<close>

definition requested :: "bool \<Rightarrow> call_pc" where
  "requested joins = (if joins then Stop_join else No_call)"

definition request_stop :: "caller \<Rightarrow> bool \<Rightarrow> ws_service \<Rightarrow> ws_service" where
  "request_stop w joins s =
     (if run_flag s then call_at w (Request_stop joins) (s\<lparr>run_flag := False\<rparr>) else call_at w (requested joins) s)"

text \<open>\<open>join_service_thread\<close> returns once the thread is gone; joining oneself is an error.\<close>

definition join_thread :: "caller \<Rightarrow> call_pc \<Rightarrow> ws_service \<Rightarrow> ws_service option" where
  "join_thread w next s =
     (case thread_object s of
        None \<Rightarrow> Some (call_at w next s)
      | Some k \<Rightarrow>
          (if w = On_thread k then Some (s\<lparr>aborted := True\<rparr>)
           else if k < length (loops s) \<and> loops s ! k = Gone then Some (call_at w next (s\<lparr>thread_object := None\<rparr>))
           else None))"

definition create_thread :: "caller \<Rightarrow> ws_service \<Rightarrow> ws_service" where
  "create_thread w s =
     call_at w Start_done (s\<lparr>aborted := aborted s \<or> thread_object s \<noteq> None, thread_object := Some (length (loops s)),
       loops := loops s @ [Loop_begin]\<rparr>)"

fun call_goes :: "caller \<Rightarrow> call_pc \<Rightarrow> ws_service \<Rightarrow> ws_service option" where
  "call_goes w No_call s = None"
| "call_goes w (Start_loop seen) s = Some (start_turn w seen s)"
| "call_goes w Start_join s = join_thread w Start_claim s"
| "call_goes w Start_claim s = Some (call_at w Start_run (s\<lparr>phase := Starting_phase\<rparr>))"
| "call_goes w Start_run s = Some (call_at w Start_thread (s\<lparr>run_flag := True\<rparr>))"
| "call_goes w Start_thread s = Some (create_thread w s)"
| "call_goes w Start_done s = Some (call_at w No_call (s\<lparr>phase := Running_phase\<rparr>))"
| "call_goes w (Stop_loop seen) s = Some (stop_turn w seen s)"
| "call_goes w (Request joins) s = Some (request_stop w joins s)"
| "call_goes w (Request_stop joins) s = Some (call_at w (requested joins) (s\<lparr>ioc_stopped := True\<rparr>))"
| "call_goes w Stop_join s = join_thread w Stop_done s"
| "call_goes w Stop_done s = Some (call_at w No_call (s\<lparr>phase := Stopped_phase\<rparr>))"
| "call_goes w Busy_stop s = Some (call_at w No_call (s\<lparr>ioc_stopped := True\<rparr>))"

text \<open>\<open>set_websocket_busy_poll\<close>.\<close>

definition set_busy_poll :: "caller \<Rightarrow> bool \<Rightarrow> ws_service \<Rightarrow> ws_service" where
  "set_busy_poll w enable s =
     (if \<not> enable then s\<lparr>busy_poll := False\<rparr>
      else if \<not> busy_poll s then call_at w Busy_stop (s\<lparr>busy_poll := True\<rparr>) else s)"

section \<open>The service thread\<close>

text \<open>
  One step of thread \<open>k\<close> outside a callback.  \<open>calls\<close>: a handler is ready and runs a callback; a handler that throws ends
  \<open>run\<close> or \<open>poll\<close>.
\<close>

definition loop_at :: "nat \<Rightarrow> loop_pc \<Rightarrow> ws_service \<Rightarrow> ws_service" where
  "loop_at k l s = s\<lparr>loops := (loops s)[k := l]\<rparr>"

fun loop_goes :: "nat \<Rightarrow> loop_pc \<Rightarrow> bool \<Rightarrow> ws_service \<Rightarrow> ws_service option" where
  "loop_goes k Loop_begin calls s = Some (loop_at k Loop_check (s\<lparr>ioc_stopped := False\<rparr>))"
| "loop_goes k Loop_check calls s =
     Some (if run_flag s then loop_at k Loop_mode (s\<lparr>iterations := Suc (iterations s)\<rparr>) else loop_at k Loop_end s)"
| "loop_goes k Loop_mode calls s = Some (loop_at k (if busy_poll s then In_poll False else In_run) s)"
| "loop_goes k In_run calls s =
     (if ioc_stopped s then Some (loop_at k Loop_restart s)
      else if calls then Some (loop_at k (Callback False No_call) s) else None)"
| "loop_goes k (In_poll some_ran) calls s =
     Some (if calls \<and> \<not> ioc_stopped s then loop_at k (Callback True No_call) s
           else loop_at k (if some_ran then Loop_check else Polled) s)"
| "loop_goes k Polled calls s = Some (loop_at k (if ioc_stopped s then Loop_restart else Loop_check) s)"
| "loop_goes k Loop_restart calls s = Some (loop_at k Loop_check (s\<lparr>ioc_stopped := False\<rparr>))"
| "loop_goes k Loop_end calls s = Some (loop_at k Gone (s\<lparr>ioc_stopped := True\<rparr>))"
| "loop_goes k (Callback polling pc) calls s = None"
| "loop_goes k Gone calls s = None"

datatype ws_service_move =
    Starts_service caller
  | Stops_service caller
  | Sets_busy caller bool
  | Call_goes caller
  | Fails_spuriously caller      \<comment> \<open>a weak compare-exchange\<close>
  | Loop_goes nat bool
  | Callback_ends nat bool       \<comment> \<open>it returns, or throws\<close>

fun service_moved :: "ws_service_move \<Rightarrow> ws_service \<Rightarrow> ws_service option" where
  "service_moved (Starts_service w) s =
     (if call_of w s = Some No_call then Some (call_at w (Start_loop (phase s)) s) else None)"
| "service_moved (Stops_service w) s =
     (if call_of w s = Some No_call then Some (call_at w (Stop_loop (phase s)) s) else None)"
| "service_moved (Sets_busy w enable) s =
     (if call_of w s = Some No_call then Some (set_busy_poll w enable s) else None)"
| "service_moved (Call_goes w) s = (case call_of w s of Some pc \<Rightarrow> call_goes w pc s | None \<Rightarrow> None)"
| "service_moved (Fails_spuriously w) s = (case call_of w s of
       Some (Start_loop seen) \<Rightarrow>
         (if start_claims w seen then Some (call_at w (Start_loop (phase s)) s) else None)
     | Some (Stop_loop seen) \<Rightarrow>
         (if stop_claims w seen then Some (call_at w (Stop_loop (phase s)) s) else None)
     | _ \<Rightarrow> None)"
| "service_moved (Loop_goes k calls) s = (if k < length (loops s) then loop_goes k (loops s ! k) calls s else None)"
| "service_moved (Callback_ends k throws) s =
     (if k < length (loops s)
      then (case loops s ! k of
          Callback polling No_call \<Rightarrow>
            Some (loop_at k (if throws then Loop_check else if polling then In_poll True else In_run) s)
        | _ \<Rightarrow> None)
      else None)"

inductive service_step :: "ws_service \<Rightarrow> ws_service \<Rightarrow> bool" where
  move: "service_moved m s = Some t \<Longrightarrow> service_step s t"

inductive_cases service_stepE: "service_step s t"

end
