(* ===== verification/Ws_Service_Safety.thy ===== *)
theory Ws_Service_Safety
  imports Ws_Service
begin

text \<open>
  The service thread of the WebSockets has one owner at a time, which alone joins and replaces it, and no request to stop
  it or to let it poll is lost.
\<close>

section \<open>The owner\<close>

fun owner_call :: "call_pc \<Rightarrow> bool" where
  "owner_call Start_join = True"
| "owner_call Start_claim = True"
| "owner_call Start_run = True"
| "owner_call Start_thread = True"
| "owner_call Start_done = True"
| "owner_call (Request joins) = joins"
| "owner_call (Request_stop joins) = joins"
| "owner_call Stop_join = True"
| "owner_call Stop_done = True"
| "owner_call _ = False"

definition owns_thread :: "ws_service \<Rightarrow> caller \<Rightarrow> bool" where
  "owns_thread s w \<longleftrightarrow> (case call_of w s of Some pc \<Rightarrow> owner_call pc | None \<Rightarrow> False)"

definition thread_taken :: "ws_service \<Rightarrow> bool" where
  "thread_taken s \<longleftrightarrow> phase s = Starting_phase \<or> phase s = Stopping_phase"

lemma call_at_simps [simp]:
  "phase (call_at w pc s) = phase s" "run_flag (call_at w pc s) = run_flag s" "busy_poll (call_at w pc s) = busy_poll s"
  "ioc_stopped (call_at w pc s) = ioc_stopped s" "thread_object (call_at w pc s) = thread_object s"
  "aborted (call_at w pc s) = aborted s" "length (apps (call_at w pc s)) = length (apps s)"
  "length (loops (call_at w pc s)) = length (loops s)" "thread_taken (call_at w pc s) = thread_taken s"
  by (cases w; simp add: thread_taken_def)+

lemma call_of_same: "apps t = apps s \<Longrightarrow> loops t = loops s \<Longrightarrow> call_of w t = call_of w s"
  by (cases w) simp_all

lemma call_of_call_at:
  assumes "call_of w s = Some old" "apps u = apps s" "loops u = loops s"
  shows "call_of v (call_at w pc u) = (if v = w then Some pc else call_of v s)"
  using assms by (cases w; cases v) (auto simp: nth_list_update split: loop_pc.splits if_splits)

text \<open>A service thread is where it was, up to the call in its callback.\<close>

fun same_place :: "loop_pc \<Rightarrow> loop_pc \<Rightarrow> bool" where
  "same_place (Callback p pc) l = (\<exists>pc'. l = Callback p pc')"
| "same_place l l' = (l' = l)"

lemma same_place_call_at: "k < length (loops s) \<Longrightarrow> same_place (loops s ! k) (loops (call_at w pc s) ! k)"
proof (cases w)
  case (App i)
  then show ?thesis by (cases "loops s ! k") simp_all
next
  case (On_thread j)
  assume "k < length (loops s)"
  then show ?thesis using On_thread by (cases "loops s ! k"; cases "j = k") (auto simp: nth_list_update)
qed

definition moves_owner :: "ws_service \<Rightarrow> ws_service \<Rightarrow> bool" where
  "moves_owner s t \<longleftrightarrow> owner_change (owns_thread s) (thread_taken s) (owns_thread t) (thread_taken t)"

lemma moves_owner_call:
  assumes "call_of w s = Some old" "apps u = apps s" "loops u = loops s"
    and "owner_call old = owner_call pc \<and> thread_taken u = thread_taken s
      \<or> \<not> thread_taken s \<and> thread_taken u \<and> owner_call pc \<or> owner_call old \<and> \<not> thread_taken u \<and> \<not> owner_call pc"
  shows "moves_owner s (call_at w pc u)"
proof -
  have "owns_thread (call_at w pc u) = (owns_thread s)(w := owner_call pc)"
    using call_of_call_at [OF assms(1-3)] by (auto simp: owns_thread_def fun_eq_iff)
  moreover have "owns_thread s w = owner_call old" using assms(1) by (simp add: owns_thread_def)
  ultimately show ?thesis using assms(4) unfolding moves_owner_def owner_change_def by (auto simp: fun_upd_idem_iff)
qed

lemma moves_owner_frame:
  assumes "\<And>w. owns_thread t w = owns_thread s w" "phase t = phase s"
  shows "moves_owner s t"
proof -
  have "owns_thread t = owns_thread s" using assms(1) by (simp add: fun_eq_iff)
  then show ?thesis using assms(2) by (simp add: moves_owner_def owner_change_def thread_taken_def)
qed

lemma owner_call_requested [simp]: "owner_call (requested joins) = joins"
  by (simp add: requested_def)

lemma thread_taken_simps [simp]:
  "thread_taken (s\<lparr>phase := p\<rparr>) \<longleftrightarrow> p = Starting_phase \<or> p = Stopping_phase"
  "thread_taken (s\<lparr>run_flag := b\<rparr>) = thread_taken s" "thread_taken (s\<lparr>ioc_stopped := b\<rparr>) = thread_taken s"
  "thread_taken (s\<lparr>busy_poll := b\<rparr>) = thread_taken s" "thread_taken (s\<lparr>thread_object := x\<rparr>) = thread_taken s"
  by (simp_all add: thread_taken_def)

lemma phase_free: "phase s = Stopped_phase \<Longrightarrow> \<not> thread_taken s" "phase s = Running_phase \<Longrightarrow> \<not> thread_taken s"
    "phase s = Stop_requested_phase \<Longrightarrow> \<not> thread_taken s"
  by (simp_all add: thread_taken_def)

text \<open>The new thread is in no call.\<close>

lemma call_of_create:
  assumes "call_of w s = Some old"
  shows "call_of v (create_thread w s) = (if v = w then Some Start_done else call_of v s)"
  using assms by (cases w; cases v) (auto simp: create_thread_def nth_append nth_list_update split: loop_pc.splits if_splits)

lemma owns_create:
  assumes "call_of w s = Some old"
  shows "owns_thread (create_thread w s) v = (if v = w then True else owns_thread s v)"
  using call_of_create [OF assms] by (simp add: owns_thread_def)

lemma call_goes_owner:
  assumes pc: "call_of w s = Some pc" and goes: "call_goes w pc s = Some t"
  shows "moves_owner s t"
proof (cases pc)
  case (Start_loop seen)
  then show ?thesis using goes
    by (cases seen) (auto simp: start_turn_def phase_free intro!: moves_owner_call [OF pc] split: if_splits)
next
  case (Stop_loop seen)
  then show ?thesis using goes
    by (cases seen) (auto simp: stop_turn_def phase_free intro!: moves_owner_call [OF pc] split: if_splits)
next
  case Start_thread
  have "owns_thread s w" using pc Start_thread by (simp add: owns_thread_def)
  then have "owns_thread (create_thread w s) v = owns_thread s v" for v using owns_create [OF pc] by simp
  then show ?thesis using goes Start_thread by (auto intro!: moves_owner_frame) (simp add: create_thread_def)
next
  case Start_join
  then show ?thesis using goes
    by (auto simp: join_thread_def intro!: moves_owner_call [OF pc] intro: moves_owner_frame split: option.splits if_splits)
      (auto simp: owns_thread_def call_of_same [of "s\<lparr>aborted := True\<rparr>" s] intro!: moves_owner_frame)
next
  case Stop_join
  then show ?thesis using goes
    by (auto simp: join_thread_def intro!: moves_owner_call [OF pc] intro: moves_owner_frame split: option.splits if_splits)
      (auto simp: owns_thread_def call_of_same [of "s\<lparr>aborted := True\<rparr>" s] intro!: moves_owner_frame)
next
  case (Request joins)
  then show ?thesis using goes by (auto simp: request_stop_def intro!: moves_owner_call [OF pc] split: if_splits)
qed (use goes in \<open>auto simp: thread_taken_def intro!: moves_owner_call [OF pc]\<close>)

text \<open>Outside a call nothing is owned or given back.\<close>

lemma owns_loop:
  assumes "k < length (loops s)" "apps t = apps s" "loops t = (loops s)[k := l]"
    and "\<And>p pc. loops s ! k = Callback p pc \<Longrightarrow> \<not> owner_call pc" "\<And>p pc. l = Callback p pc \<Longrightarrow> \<not> owner_call pc"
  shows "owns_thread t w = owns_thread s w"
  using assms by (cases w) (auto simp: owns_thread_def nth_list_update split: loop_pc.splits option.splits if_splits)

lemma loop_goes_shape:
  assumes "loop_goes k l calls s = Some t"
  shows "apps t = apps s \<and> phase t = phase s \<and> thread_object t = thread_object s \<and> run_flag t = run_flag s
    \<and> busy_poll t = busy_poll s \<and> aborted t = aborted s \<and> (\<exists>l'. loops t = (loops s)[k := l'] \<and> l \<noteq> Gone \<and> (\<forall>p pc. l \<noteq> Callback p pc)
      \<and> (\<forall>p pc. l' = Callback p pc \<longrightarrow> pc = No_call) \<and> (run_flag s \<and> l \<noteq> Loop_end \<longrightarrow> l' \<noteq> Loop_end \<and> l' \<noteq> Gone))"
  using assms by (cases l) (auto simp: loop_at_def split: if_splits)

lemma callback_ends_shape:
  assumes "service_moved (Callback_ends k throws) s = Some t"
  shows "k < length (loops s) \<and> (\<exists>p l. loops s ! k = Callback p No_call \<and> t = loop_at k l s
    \<and> (l = Loop_check \<or> p \<and> l = In_poll True \<or> \<not> p \<and> l = In_run))"
  using assms by (auto simp: loop_at_def split: if_splits loop_pc.splits call_pc.splits)

lemma set_busy_shape:
  "set_busy_poll w enable s = s \<or> (\<exists>b. set_busy_poll w enable s = s\<lparr>busy_poll := b\<rparr>)
    \<or> \<not> busy_poll s \<and> set_busy_poll w enable s = call_at w Busy_stop (s\<lparr>busy_poll := True\<rparr>)"
  by (auto simp: set_busy_poll_def)

lemma service_moved_owner:
  assumes "service_moved m s = Some t"
  shows "moves_owner s t"
proof (cases m)
  case (Starts_service w)
  then show ?thesis using assms by (auto intro!: moves_owner_call split: if_splits)
next
  case (Stops_service w)
  then show ?thesis using assms by (auto intro!: moves_owner_call split: if_splits)
next
  case (Sets_busy w enable)
  then have w: "call_of w s = Some No_call" and t: "t = set_busy_poll w enable s" using assms by (auto split: if_splits)
  have same: "owns_thread (s\<lparr>busy_poll := b\<rparr>) v = owns_thread s v" for b v
    by (simp add: owns_thread_def call_of_same [of "s\<lparr>busy_poll := b\<rparr>" s])
  from set_busy_shape [of w enable s] show ?thesis
    unfolding t [symmetric]
    by (elim disjE exE conjE) (auto intro: moves_owner_frame simp: same intro!: moves_owner_call [OF w])
next
  case (Call_goes w)
  then show ?thesis using assms call_goes_owner by (auto split: option.splits)
next
  case (Fails_spuriously w)
  then show ?thesis using assms by (auto intro!: moves_owner_call split: option.splits call_pc.splits if_splits)
next
  case (Loop_goes k calls)
  then have k: "k < length (loops s)" and goes: "loop_goes k (loops s ! k) calls s = Some t" using assms by (auto split: if_splits)
  obtain l' where l': "loops t = (loops s)[k := l']" "\<forall>p pc. loops s ! k \<noteq> Callback p pc" "\<forall>p pc. l' = Callback p pc \<longrightarrow> pc = No_call"
    and rest: "apps t = apps s" "phase t = phase s"
    using loop_goes_shape [OF goes] by auto
  have "owns_thread t w = owns_thread s w" for w
    by (rule owns_loop [OF k rest(1) l'(1)]) (use l'(2,3) in auto)
  then show ?thesis using rest(2) by (intro moves_owner_frame)
next
  case (Callback_ends k throws)
  then obtain p l where k: "k < length (loops s)" "loops s ! k = Callback p No_call" "t = loop_at k l s" "\<forall>q pc. l \<noteq> Callback q pc"
    using callback_ends_shape assms by blast
  show ?thesis using owns_loop [OF k(1), of t l] k by (intro moves_owner_frame) (auto simp: loop_at_def)
qed

interpretation service_owner: exclusive_owner "ws_service_init n" service_step owns_thread thread_taken for n
proof unfold_locales
  show "\<not> thread_taken (ws_service_init n)" "\<not> owns_thread (ws_service_init n) w" for w
    by (simp add: thread_taken_def ws_service_init_def, cases w) (auto simp: owns_thread_def ws_service_init_def)
  show "owner_change (owns_thread s) (thread_taken s) (owns_thread t) (thread_taken t)" if "service_step s t" for s t
    using that service_moved_owner by (auto elim!: service_stepE simp: moves_owner_def)
qed

section \<open>The invariant\<close>

text \<open>The thread \<open>service_thread_\<close> holds is in its loop and stays there.\<close>

definition serving :: "ws_service \<Rightarrow> bool" where
  "serving s \<longleftrightarrow> run_flag s \<and> (\<exists>k. thread_object s = Some k \<and> k < length (loops s) \<and> loops s ! k \<noteq> Loop_end \<and> loops s ! k \<noteq> Gone)"

definition winding_down :: "ws_service \<Rightarrow> bool" where
  "winding_down s \<longleftrightarrow> phase s = Stop_requested_phase \<or> phase s = Stopping_phase"

fun owner_data :: "call_pc \<Rightarrow> ws_service \<Rightarrow> bool" where
  "owner_data Start_join s \<longleftrightarrow> phase s = Stopping_phase"
| "owner_data Start_claim s \<longleftrightarrow> phase s = Stopping_phase \<and> thread_object s = None"
| "owner_data Start_run s \<longleftrightarrow> phase s = Starting_phase \<and> thread_object s = None"
| "owner_data Start_thread s \<longleftrightarrow> phase s = Starting_phase \<and> thread_object s = None \<and> run_flag s"
| "owner_data Start_done s \<longleftrightarrow> phase s = Starting_phase \<and> serving s"
| "owner_data (Request joins) s \<longleftrightarrow> phase s = Stopping_phase"
| "owner_data (Request_stop joins) s \<longleftrightarrow> phase s = Stopping_phase \<and> \<not> run_flag s"
| "owner_data Stop_join s \<longleftrightarrow> phase s = Stopping_phase \<and> \<not> run_flag s"
| "owner_data Stop_done s \<longleftrightarrow> phase s = Stopping_phase \<and> \<not> run_flag s \<and> thread_object s = None"
| "owner_data pc s \<longleftrightarrow> True"

text \<open>A call from a callback that is about to request the stop does so while the service winds down.\<close>

fun pending_request :: "bool \<Rightarrow> call_pc \<Rightarrow> bool" where
  "pending_request inside (Request joins) = True"
| "pending_request inside (Request_stop joins) = True"
| "pending_request inside (Stop_loop seen) = (inside \<and> (seen = Stop_requested_phase \<or> seen = Stopping_phase))"
| "pending_request inside _ = False"

definition call_ok :: "caller \<Rightarrow> call_pc \<Rightarrow> ws_service \<Rightarrow> bool" where
  "call_ok w pc s \<longleftrightarrow> (if owner_call pc then \<not> on_service_thread w \<and> owner_data pc s
     else pending_request (on_service_thread w) pc \<longrightarrow> on_service_thread w \<and> winding_down s)"

definition loops_ok :: "ws_service \<Rightarrow> bool" where
  "loops_ok s \<longleftrightarrow> (\<forall>k < length (loops s). loops s ! k \<noteq> Gone \<longrightarrow> thread_object s = Some k)
     \<and> (\<forall>k. thread_object s = Some k \<longrightarrow> k < length (loops s))"

definition phase_ok :: "ws_service \<Rightarrow> bool" where
  "phase_ok s \<longleftrightarrow> (phase s = Stopped_phase \<longrightarrow> thread_object s = None \<and> \<not> run_flag s) \<and> (phase s = Running_phase \<longrightarrow> serving s)"

definition service_inv :: "ws_service \<Rightarrow> bool" where
  "service_inv s \<longleftrightarrow> one_owner (owns_thread s) (thread_taken s) \<and> (\<forall>w pc. call_of w s = Some pc \<longrightarrow> call_ok w pc s)
     \<and> loops_ok s \<and> phase_ok s \<and> \<not> aborted s"

lemma service_invD:
  assumes "service_inv s"
  shows "one_owner (owns_thread s) (thread_taken s)" "call_of w s = Some pc \<Longrightarrow> call_ok w pc s" "loops_ok s" "phase_ok s"
    "\<not> aborted s"
  using assms by (simp_all add: service_inv_def)

text \<open>Moving a call changes none of this but the call itself.\<close>

lemma serving_call_at [simp]: "serving (call_at w pc s) = serving s"
proof (cases "thread_object s")
  case (Some k)
  show ?thesis
  proof (cases "k < length (loops s)")
    case True
    then have "same_place (loops s ! k) (loops (call_at w pc s) ! k)" by (rule same_place_call_at)
    then have "loops (call_at w pc s) ! k = Loop_end \<longleftrightarrow> loops s ! k = Loop_end" "loops (call_at w pc s) ! k = Gone \<longleftrightarrow> loops s ! k = Gone"
      by (cases "loops s ! k"; auto)+
    then show ?thesis using Some by (simp add: serving_def)
  qed (simp add: serving_def Some)
qed (simp add: serving_def)

lemma loops_ok_call_at [simp]: "loops_ok (call_at w pc s) = loops_ok s"
proof -
  have "loops (call_at w pc s) ! k = Gone \<longleftrightarrow> loops s ! k = Gone" if "k < length (loops s)" for k
    using same_place_call_at [OF that, of w pc] by (cases "loops s ! k") auto
  then show ?thesis by (auto simp: loops_ok_def)
qed

lemma owner_data_call_at [simp]: "owner_data pc (call_at w pc' s) = owner_data pc s"
  by (cases pc) simp_all

lemma call_ok_call_at [simp]: "call_ok v pc (call_at w pc' s) = call_ok v pc s"
  by (simp add: call_ok_def winding_down_def)

lemma phase_ok_call_at [simp]: "phase_ok (call_at w pc s) = phase_ok s"
  by (simp add: phase_ok_def)

text \<open>Without a thread object no service thread is left to be in a call.\<close>

lemma no_thread_no_call: "loops_ok s \<Longrightarrow> thread_object s = None \<Longrightarrow> call_of (On_thread k) s = None"
  by (auto simp: loops_ok_def split: loop_pc.split)

lemma service_inv_call:
  assumes inv: "service_inv s" and w: "call_of w s = Some old" and u: "apps u = apps s" "loops u = loops s"
    and moves: "moves_owner s (call_at w pc u)"
    and others: "(\<forall>v pc. owner_call pc \<and> owner_data pc s \<longrightarrow> owner_data pc u) \<or> owner_call old \<or> owner_call pc"
    and winds: "winding_down s \<longrightarrow> winding_down u \<or> thread_object s = None"
    and ok: "call_ok w pc u" "loops_ok u" "phase_ok u" "\<not> aborted u"
  shows "service_inv (call_at w pc u)"
proof -
  have one: "one_owner (owns_thread (call_at w pc u)) (thread_taken (call_at w pc u))"
    using one_owner_change service_invD(1) [OF inv] moves by (simp only: moves_owner_def)
  note calls = call_of_call_at [OF w u]
  have "call_ok v pc' u" if v: "call_of v s = Some pc'" "v \<noteq> w" for v pc'
  proof (cases "owner_call pc'")
    case True
    then have "owns_thread s v" "owns_thread (call_at w pc u) v" using v calls [where v = v and pc = pc] by (simp_all add: owns_thread_def)
    then have "\<not> owns_thread s w" "\<not> owns_thread (call_at w pc u) w"
      using one service_invD(1) [OF inv] v(2) by (auto simp: one_owner_def)
    then have "\<not> owner_call old" "\<not> owner_call pc" using w calls [where v = w and pc = pc] by (simp_all add: owns_thread_def)
    then show ?thesis using others service_invD(2) [OF inv v(1)] True by (auto simp: call_ok_def)
  next
    case False
    then show ?thesis
      using service_invD(2) [OF inv v(1)] winds no_thread_no_call [OF service_invD(3) [OF inv]] v(1)
      by (cases v) (auto simp: call_ok_def)
  qed
  then have "call_ok v pc' (call_at w pc u)" if "call_of v (call_at w pc u) = Some pc'" for v pc'
    using that calls [where v = v and pc = pc] ok(1) by (auto split: if_splits)
  then show ?thesis unfolding service_inv_def using one ok by simp
qed

lemma service_inv_stay:
  assumes inv: "service_inv s" and w: "call_of w s = Some old" and moves: "moves_owner s (call_at w pc s)" and ok: "call_ok w pc s"
  shows "service_inv (call_at w pc s)"
  by (rule service_inv_call [OF inv w refl refl moves]) (use ok service_invD(3-5) [OF inv] in auto)

lemma serving_same: "run_flag u = run_flag s \<Longrightarrow> thread_object u = thread_object s \<Longrightarrow> loops u = loops s \<Longrightarrow> serving u = serving s"
  by (simp add: serving_def)

lemma loops_ok_same: "thread_object u = thread_object s \<Longrightarrow> loops u = loops s \<Longrightarrow> loops_ok u = loops_ok s"
  by (simp add: loops_ok_def)

lemma service_inv_same:
  assumes inv: "service_inv s" and w: "call_of w s = Some old"
    and u: "apps u = apps s" "loops u = loops s" "thread_object u = thread_object s" "aborted u = aborted s"
    and moves: "moves_owner s (call_at w pc u)"
    and others: "(\<forall>v pc. owner_call pc \<and> owner_data pc s \<longrightarrow> owner_data pc u) \<or> owner_call old \<or> owner_call pc"
    and winds: "winding_down s \<longrightarrow> winding_down u \<or> thread_object s = None"
    and ok: "call_ok w pc u" "phase_ok u"
  shows "service_inv (call_at w pc u)"
proof (rule service_inv_call [OF inv w u(1,2) moves others winds ok(1) _ ok(2)])
  show "loops_ok u" using service_invD(3) [OF inv] loops_ok_same [OF u(3,2)] by simp
  show "\<not> aborted u" using service_invD(5) [OF inv] u(4) by simp
qed

lemma owner_data_phase: "owner_call pc \<Longrightarrow> owner_data pc s \<Longrightarrow> phase s = Starting_phase \<or> phase s = Stopping_phase"
  by (cases pc) auto

lemma owner_data_run: "winding_down s \<Longrightarrow> owner_data pc s \<Longrightarrow> owner_data pc (s\<lparr>run_flag := False\<rparr>)"
  by (cases pc) (auto simp: winding_down_def)

lemma owner_data_stop: "owner_data pc s \<Longrightarrow> owner_data pc (s\<lparr>ioc_stopped := b\<rparr>)" "owner_data pc s \<Longrightarrow> owner_data pc (s\<lparr>busy_poll := b\<rparr>)"
  by (cases pc; simp add: serving_def)+

lemma stop_frame:
  "loops_ok (s\<lparr>ioc_stopped := b\<rparr>) = loops_ok s" "phase_ok (s\<lparr>ioc_stopped := b\<rparr>) = phase_ok s"
  "loops_ok (s\<lparr>busy_poll := b\<rparr>) = loops_ok s" "phase_ok (s\<lparr>busy_poll := b\<rparr>) = phase_ok s"
  "winding_down (s\<lparr>ioc_stopped := b\<rparr>) = winding_down s" "winding_down (s\<lparr>busy_poll := b\<rparr>) = winding_down s"
  by (simp_all add: loops_ok_def phase_ok_def serving_def winding_down_def)

lemma call_ok_simple: "\<not> owner_call pc \<Longrightarrow> \<not> pending_request (on_service_thread w) pc \<Longrightarrow> call_ok w pc s"
  by (simp add: call_ok_def)

lemma call_ok_stop_loop: "call_ok w (Stop_loop (phase s)) s"
  by (auto simp: call_ok_def winding_down_def)

lemma start_turn_inv:
  assumes inv: "service_inv s" and w: "call_of w s = Some (Start_loop seen)"
  shows "service_inv (start_turn w seen s)"
proof -
  have moves: "moves_owner s (start_turn w seen s)" using call_goes_owner [OF w] by simp
  show ?thesis
  proof (cases "on_service_thread w \<or> seen = Running_phase \<or> seen = Starting_phase \<or> seen = Stopping_phase \<or> phase s \<noteq> seen")
    case True
    then have "start_turn w seen s = call_at w No_call s \<or> start_turn w seen s = call_at w (Start_loop (phase s)) s"
      by (auto simp: start_turn_def)
    then obtain pc where pc: "start_turn w seen s = call_at w pc s" "pc = No_call \<or> pc = Start_loop (phase s)" by blast
    then have "call_ok w pc s" by (auto intro: call_ok_simple)
    then show ?thesis using service_inv_stay [OF inv w] moves pc(1) by simp
  next
    case False
    let ?u = "s\<lparr>phase := if seen = Stopped_phase then Starting_phase else Stopping_phase\<rparr>"
    have t: "start_turn w seen s = call_at w (if seen = Stopped_phase then Start_run else Start_join) ?u"
      using False by (cases seen) (simp_all add: start_turn_def)
    have "seen = Stopped_phase \<or> seen = Stop_requested_phase" using False by (cases seen) simp_all
    then show ?thesis
      using False moves service_invD(3-5) [OF inv] unfolding t
      by (intro service_inv_call [OF inv w])
        (auto simp: call_ok_def winding_down_def phase_ok_def loops_ok_same [of ?u s])
  qed
qed

lemma stop_turn_inv:
  assumes inv: "service_inv s" and w: "call_of w s = Some (Stop_loop seen)"
  shows "service_inv (stop_turn w seen s)"
proof -
  have moves: "moves_owner s (stop_turn w seen s)" using call_goes_owner [OF w] by simp
  note ok = service_invD(2) [OF inv w]
  show ?thesis
  proof (cases "stop_claims w seen \<and> phase s = seen")
    case True
    let ?u = "s\<lparr>phase := if on_service_thread w then Stop_requested_phase else Stopping_phase\<rparr>"
    have t: "stop_turn w seen s = call_at w (Request (\<not> on_service_thread w)) ?u"
      using True by (auto simp: stop_turn_def stop_claims_def)
    have "\<not> (owner_call pc \<and> owner_data pc s)" for pc
      using owner_data_phase [of pc s] True by (auto simp: stop_claims_def)
    then show ?thesis
      using True moves service_invD(3-5) [OF inv] unfolding t
      by (intro service_inv_call [OF inv w])
        (auto simp: call_ok_def winding_down_def phase_ok_def stop_claims_def loops_ok_same [of ?u s])
  next
    case False
    then have "stop_turn w seen s = call_at w No_call s \<or> stop_turn w seen s = call_at w (Stop_loop (phase s)) s
        \<or> stop_turn w seen s = call_at w (Request False) s \<and> on_service_thread w \<and> (seen = Stop_requested_phase \<or> seen = Stopping_phase)"
      by (cases seen) (auto simp: stop_turn_def stop_claims_def)
    then obtain pc where pc: "stop_turn w seen s = call_at w pc s"
        "pc = No_call \<or> pc = Stop_loop (phase s) \<or> pc = Request False \<and> on_service_thread w \<and> (seen = Stop_requested_phase \<or> seen = Stopping_phase)"
      by blast
    then have "call_ok w pc s" using ok call_ok_stop_loop by (auto simp: call_ok_def)
    then show ?thesis using service_inv_stay [OF inv w] moves pc(1) by simp
  qed
qed

lemma request_stop_inv:
  assumes inv: "service_inv s" and w: "call_of w s = Some (Request joins)"
  shows "service_inv (request_stop w joins s)"
proof -
  have moves: "moves_owner s (request_stop w joins s)" using call_goes_owner [OF w] by simp
  have ok: "if joins then \<not> on_service_thread w \<and> phase s = Stopping_phase else on_service_thread w \<and> winding_down s"
    using service_invD(2) [OF inv w] by (cases joins) (simp_all add: call_ok_def)
  then have wind: "winding_down s" by (auto simp: winding_down_def split: if_splits)
  show ?thesis
  proof (cases "run_flag s")
    case True
    then have t: "request_stop w joins s = call_at w (Request_stop joins) (s\<lparr>run_flag := False\<rparr>)" by (simp add: request_stop_def)
    show ?thesis unfolding t
    proof (rule service_inv_same [OF inv w])
      show "moves_owner s (call_at w (Request_stop joins) (s\<lparr>run_flag := False\<rparr>))" using moves t by simp
      show "(\<forall>v pc. owner_call pc \<and> owner_data pc s \<longrightarrow> owner_data pc (s\<lparr>run_flag := False\<rparr>)) \<or> owner_call (Request joins) \<or> owner_call (Request_stop joins)"
        using owner_data_run [OF wind] by blast
      show "phase_ok (s\<lparr>run_flag := False\<rparr>)" using wind by (auto simp: phase_ok_def winding_down_def)
      show "call_ok w (Request_stop joins) (s\<lparr>run_flag := False\<rparr>)" using ok by (cases joins) (simp_all add: call_ok_def winding_down_def)
      show "winding_down s \<longrightarrow> winding_down (s\<lparr>run_flag := False\<rparr>) \<or> thread_object s = None" by (simp add: winding_down_def)
    qed simp_all
  next
    case False
    then have "request_stop w joins s = call_at w (requested joins) s" by (simp add: request_stop_def)
    then show ?thesis using service_inv_stay [OF inv w, of "requested joins"] moves ok False
      by (auto simp: call_ok_def requested_def split: if_splits)
  qed
qed

lemma join_thread_inv:
  assumes inv: "service_inv s" and w: "call_of w s = Some pc" and t: "call_goes w pc s = Some t"
    and pc: "pc = Start_join \<and> next = Start_claim \<or> pc = Stop_join \<and> next = Stop_done"
  shows "service_inv t"
proof -
  have moves: "moves_owner s t" by (rule call_goes_owner [OF w t])
  have ok: "\<not> on_service_thread w" "owner_data pc s" using service_invD(2) [OF inv w] pc by (auto simp: call_ok_def)
  have j: "join_thread w next s = Some t" using t pc by auto
  show ?thesis
  proof (cases "thread_object s")
    case None
    then have "t = call_at w next s" using j by (simp add: join_thread_def)
    moreover have "call_ok w next s" using ok pc None by (auto simp: call_ok_def)
    ultimately show ?thesis using service_inv_stay [OF inv w] moves by simp
  next
    case (Some k)
    let ?u = "s\<lparr>thread_object := None\<rparr>"
    have "w \<noteq> On_thread k" using ok(1) by auto
    then have k: "loops s ! k = Gone" "t = call_at w next ?u" using j Some by (auto simp: join_thread_def split: if_splits)
    have "loops_ok ?u" using service_invD(3) [OF inv] Some k(1) by (auto simp: loops_ok_def)
    moreover have "phase_ok ?u" "call_ok w next ?u" using ok pc by (auto simp: phase_ok_def call_ok_def)
    ultimately show ?thesis unfolding k(2) using moves k(2) service_invD(5) [OF inv] pc
      by (intro service_inv_call [OF inv w]) (auto simp: winding_down_def)
  qed
qed

lemma create_thread_inv:
  assumes inv: "service_inv s" and w: "call_of w s = Some Start_thread"
  shows "service_inv (create_thread w s)"
proof -
  let ?t = "create_thread w s"
  have moves: "moves_owner s ?t" using call_goes_owner [OF w] by simp
  have ok: "\<not> on_service_thread w" "phase s = Starting_phase" "thread_object s = None" "run_flag s"
    using service_invD(2) [OF inv w] by (simp_all add: call_ok_def)
  have t: "phase ?t = Starting_phase" "run_flag ?t" "thread_object ?t = Some (length (loops s))" "\<not> aborted ?t"
    using ok service_invD(5) [OF inv] by (simp_all add: create_thread_def)
  obtain i where i: "w = App i" using ok(1) by (cases w) simp_all
  then have l: "loops ?t = loops s @ [Loop_begin]" by (simp add: create_thread_def)
  have gone: "loops s ! k = Gone" if "k < length (loops s)" for k
    using service_invD(3) [OF inv] ok(3) that by (auto simp: loops_ok_def)
  have s: "serving ?t" using t l by (simp add: serving_def)
  have "call_ok v pc ?t" if v: "call_of v ?t = Some pc" for v pc
  proof (cases "v = w")
    case True
    then have "pc = Start_done" using v call_of_create [OF w, of v] by simp
    then show ?thesis using True ok(1) t s by (simp add: call_ok_def)
  next
    case False
    then have v': "call_of v s = Some pc" using v call_of_create [OF w, of v] by simp
    have "\<not> owns_thread s v" using service_invD(1) [OF inv] False w by (auto simp: one_owner_def owns_thread_def)
    then show ?thesis using service_invD(2) [OF inv v'] v' ok(2)
      by (auto simp: call_ok_def owns_thread_def winding_down_def)
  qed
  moreover have "one_owner (owns_thread ?t) (thread_taken ?t)"
    using one_owner_change service_invD(1) [OF inv] moves by (simp only: moves_owner_def)
  moreover have "loops_ok ?t" using t(3) l gone by (auto simp: loops_ok_def nth_append)
  moreover have "phase_ok ?t" using t by (simp add: phase_ok_def)
  ultimately show ?thesis using t(4) by (simp add: service_inv_def)
qed

lemma call_goes_inv:
  assumes inv: "service_inv s" and w: "call_of w s = Some pc" and goes: "call_goes w pc s = Some t"
  shows "service_inv t"
proof -
  note moves = call_goes_owner [OF w goes] and ok = service_invD(2) [OF inv w]
  note same = service_inv_same [OF inv w]
  show ?thesis
  proof (cases pc)
    case (Start_loop seen)
    then show ?thesis using start_turn_inv [OF inv] w goes by auto
  next
    case (Stop_loop seen)
    then show ?thesis using stop_turn_inv [OF inv] w goes by auto
  next
    case (Request joins)
    then show ?thesis using request_stop_inv [OF inv] w goes by auto
  next
    case Start_join
    then show ?thesis using join_thread_inv [OF inv w goes] by blast
  next
    case Stop_join
    then show ?thesis using join_thread_inv [OF inv w goes] by blast
  next
    case Start_thread
    then show ?thesis using create_thread_inv [OF inv] w goes by auto
  next
    case Start_claim
    then have t: "t = call_at w Start_run (s\<lparr>phase := Starting_phase\<rparr>)" and k: "\<not> on_service_thread w" "thread_object s = None"
      using goes ok by (simp_all add: call_ok_def)
    show ?thesis unfolding t by (rule same) (use Start_claim moves t k in \<open>simp_all add: call_ok_def phase_ok_def\<close>)
  next
    case Start_run
    then have t: "t = call_at w Start_thread (s\<lparr>run_flag := True\<rparr>)"
      and k: "\<not> on_service_thread w" "thread_object s = None" "phase s = Starting_phase"
      using goes ok by (simp_all add: call_ok_def)
    show ?thesis unfolding t by (rule same) (use Start_run moves t k in \<open>simp_all add: call_ok_def phase_ok_def\<close>)
  next
    case Start_done
    then have t: "t = call_at w No_call (s\<lparr>phase := Running_phase\<rparr>)"
      and k: "\<not> on_service_thread w" "phase s = Starting_phase" "serving s"
      using goes ok by (simp_all add: call_ok_def)
    have "serving (s\<lparr>phase := Running_phase\<rparr>)" using k(3) by (simp add: serving_def)
    then show ?thesis unfolding t
      by (intro same) (use Start_done moves t k in \<open>simp_all add: call_ok_def phase_ok_def winding_down_def\<close>)
  next
    case (Request_stop joins)
    then have t: "t = call_at w (requested joins) (s\<lparr>ioc_stopped := True\<rparr>)" using goes by simp
    have "call_ok w (requested joins) (s\<lparr>ioc_stopped := True\<rparr>)"
      using ok Request_stop by (cases joins) (simp_all add: call_ok_def requested_def)
    moreover have "(\<forall>v pc. owner_call pc \<and> owner_data pc s \<longrightarrow> owner_data pc (s\<lparr>ioc_stopped := True\<rparr>))"
      using owner_data_stop(1) by blast
    ultimately show ?thesis unfolding t
      by (intro same) (use moves t service_invD(4) [OF inv] in \<open>simp_all add: stop_frame\<close>)
  next
    case Busy_stop
    then have t: "t = call_at w No_call (s\<lparr>ioc_stopped := True\<rparr>)" using goes by simp
    moreover have "(\<forall>v pc. owner_call pc \<and> owner_data pc s \<longrightarrow> owner_data pc (s\<lparr>ioc_stopped := True\<rparr>))"
      using owner_data_stop(1) by blast
    ultimately show ?thesis unfolding t
      by (intro same) (use moves t service_invD(4) [OF inv] in \<open>simp_all add: stop_frame call_ok_def\<close>)
  next
    case Stop_done
    then have t: "t = call_at w No_call (s\<lparr>phase := Stopped_phase\<rparr>)"
      and k: "\<not> on_service_thread w" "phase s = Stopping_phase" "\<not> run_flag s" "thread_object s = None"
      using goes ok by (simp_all add: call_ok_def)
    show ?thesis unfolding t by (rule same) (use Stop_done moves t k in \<open>simp_all add: call_ok_def phase_ok_def\<close>)
  qed (use goes in simp)
qed

lemma owner_data_loop:
  assumes "phase t = phase s" "thread_object t = thread_object s" "run_flag t = run_flag s" "serving s \<longrightarrow> serving t" "owner_data pc s"
  shows "owner_data pc t"
  using assms by (cases pc) auto

text \<open>A step of the service thread itself.\<close>

lemma service_inv_loop:
  assumes inv: "service_inv s" and k: "k < length (loops s)" "loops s ! k \<noteq> Gone"
    and t: "apps t = apps s" "loops t = (loops s)[k := l]" "phase t = phase s" "thread_object t = thread_object s"
      "run_flag t = run_flag s" "aborted t = aborted s"
    and calls: "\<And>p pc. loops s ! k = Callback p pc \<Longrightarrow> pc = No_call" "\<And>p pc. l = Callback p pc \<Longrightarrow> pc = No_call"
    and stays: "run_flag s \<Longrightarrow> loops s ! k \<noteq> Loop_end \<Longrightarrow> l \<noteq> Loop_end \<and> l \<noteq> Gone"
  shows "service_inv t"
proof -
  have owns: "owns_thread t w = owns_thread s w" for w
    by (rule owns_loop [OF k(1) t(1,2)]) (use calls in \<open>auto dest!: calls\<close>)
  have "thread_taken t = thread_taken s" using t(3) by (simp add: thread_taken_def)
  moreover have "owns_thread t = owns_thread s" using owns by (simp add: fun_eq_iff)
  ultimately have one: "one_owner (owns_thread t) (thread_taken t)" using service_invD(1) [OF inv] by simp
  have serving: "serving s \<longrightarrow> serving t"
  proof
    assume "serving s"
    then obtain j where j: "run_flag s" "thread_object s = Some j" "j < length (loops s)" "loops s ! j \<noteq> Loop_end" "loops s ! j \<noteq> Gone"
      by (auto simp: serving_def)
    have "loops t ! j \<noteq> Loop_end \<and> loops t ! j \<noteq> Gone" using j stays t(2) by (cases "j = k") simp_all
    then show "serving t" using j t(2,4,5) by (simp add: serving_def)
  qed
  have "call_ok v pc t" if "call_of v t = Some pc" for v pc
  proof (cases "call_of v s = Some pc")
    case True
    then show ?thesis using service_invD(2) [OF inv True] owner_data_loop [OF t(3,4,5) serving] t(3)
      by (auto simp: call_ok_def winding_down_def split: if_splits)
  next
    case False
    have "call_of v t = call_of v s" if "v \<noteq> On_thread k" using that t(1,2) by (cases v) auto
    then have "v = On_thread k" using False that by auto
    then have "\<exists>p. l = Callback p pc" using that t(2) k(1) by (cases l) simp_all
    then have "pc = No_call" using calls(2) by blast
    then show ?thesis by (simp add: call_ok_def)
  qed
  moreover have "loops_ok t"
    unfolding loops_ok_def t(4)
  proof (intro conjI allI impI)
    fix j assume j: "j < length (loops t)" "loops t ! j \<noteq> Gone"
    then have "j < length (loops s)" "loops s ! j \<noteq> Gone" using k t(2) by (cases "j = k"; simp)+
    then show "thread_object s = Some j" using service_invD(3) [OF inv] unfolding loops_ok_def by blast
  next
    fix j assume "thread_object s = Some j"
    then have "j < length (loops s)" using service_invD(3) [OF inv] unfolding loops_ok_def by blast
    then show "j < length (loops t)" using t(2) by simp
  qed
  moreover have "phase_ok t" using service_invD(4) [OF inv] serving t(3,4,5) by (simp add: phase_ok_def)
  ultimately show ?thesis using one service_invD(5) [OF inv] t(6) by (simp add: service_inv_def)
qed

lemma service_moved_inv:
  assumes inv: "service_inv s" and moved: "service_moved m s = Some t"
  shows "service_inv t"
proof (cases m)
  case (Starts_service w)
  then have w: "call_of w s = Some No_call" and t: "t = call_at w (Start_loop (phase s)) s" using moved by (auto split: if_splits)
  show ?thesis using service_inv_stay [OF inv w] service_moved_owner [OF moved] unfolding t by (simp add: call_ok_def)
next
  case (Stops_service w)
  then have w: "call_of w s = Some No_call" and t: "t = call_at w (Stop_loop (phase s)) s" using moved by (auto split: if_splits)
  show ?thesis using service_inv_stay [OF inv w] service_moved_owner [OF moved] call_ok_stop_loop unfolding t by blast
next
  case (Sets_busy w enable)
  then have w: "call_of w s = Some No_call" and t: "t = set_busy_poll w enable s" using moved by (auto split: if_splits)
  have data: "(\<forall>v pc. owner_call pc \<and> owner_data pc s \<longrightarrow> owner_data pc (s\<lparr>busy_poll := b\<rparr>))" for b
    using owner_data_stop(2) by blast
  consider "t = s" | b where "t = s\<lparr>busy_poll := b\<rparr>" | "t = call_at w Busy_stop (s\<lparr>busy_poll := True\<rparr>)"
    using set_busy_shape [of w enable s] t by blast
  then show ?thesis
  proof cases
    case 1
    then show ?thesis using inv by simp
  next
    case (2 b)
    have same: "call_of v t = call_of v s" for v using 2 by (intro call_of_same) simp_all
    then have "owns_thread t = owns_thread s" by (simp add: owns_thread_def fun_eq_iff)
    moreover have "call_ok v pc t" if "call_of v t = Some pc" for v pc
      using service_invD(2) [OF inv, of v pc] that same data 2 by (auto simp: call_ok_def stop_frame)
    ultimately show ?thesis using inv 2 by (simp add: service_inv_def stop_frame)
  next
    case 3
    show ?thesis using 3 service_moved_owner [OF moved] data service_invD(4) [OF inv]
      by (simp only:) (rule service_inv_same [OF inv w]; simp add: stop_frame call_ok_def)
  qed
next
  case (Call_goes w)
  then show ?thesis using moved call_goes_inv [OF inv] by (auto split: option.splits)
next
  case (Fails_spuriously w)
  then obtain pc old where w: "call_of w s = Some old" and t: "t = call_at w pc s" and pc: "pc = Start_loop (phase s) \<or> pc = Stop_loop (phase s)"
    using moved by (auto split: option.splits call_pc.splits if_splits)
  have "call_ok w pc s" using pc call_ok_stop_loop by (auto simp: call_ok_def)
  then show ?thesis using service_inv_stay [OF inv w] service_moved_owner [OF moved] t by blast
next
  case (Loop_goes k calls)
  then have k: "k < length (loops s)" and goes: "loop_goes k (loops s ! k) calls s = Some t" using moved by (auto split: if_splits)
  obtain l' where "loops t = (loops s)[k := l']" "loops s ! k \<noteq> Gone" "\<forall>p pc. loops s ! k \<noteq> Callback p pc"
      "\<forall>p pc. l' = Callback p pc \<longrightarrow> pc = No_call" "run_flag s \<and> loops s ! k \<noteq> Loop_end \<longrightarrow> l' \<noteq> Loop_end \<and> l' \<noteq> Gone"
    and "apps t = apps s" "phase t = phase s" "thread_object t = thread_object s" "run_flag t = run_flag s" "aborted t = aborted s"
    using loop_goes_shape [OF goes] by blast
  then show ?thesis using service_inv_loop [OF inv k] by blast
next
  case (Callback_ends k throws)
  then obtain p l where "k < length (loops s)" "loops s ! k = Callback p No_call" "t = loop_at k l s"
      "l = Loop_check \<or> p \<and> l = In_poll True \<or> \<not> p \<and> l = In_run"
    using callback_ends_shape moved by blast
  then show ?thesis by (intro service_inv_loop [OF inv, of k t l]) (auto simp: loop_at_def)
qed

lemma service_inv_init: "service_inv (ws_service_init n)"
proof -
  have "call_ok w pc (ws_service_init n)" if "call_of w (ws_service_init n) = Some pc" for w pc
    using that by (cases w) (auto simp: ws_service_init_def call_ok_def split: if_splits)
  moreover have "one_owner (owns_thread (ws_service_init n)) (thread_taken (ws_service_init n))"
    by (simp add: one_owner_def service_owner.free_init)
  ultimately show ?thesis
    by (simp add: service_inv_def) (simp add: loops_ok_def phase_ok_def ws_service_init_def)
qed

interpretation service_safe: inductive_invariant "ws_service_init n" service_step service_inv for n
  by unfold_locales (auto intro: service_inv_init service_moved_inv elim!: service_stepE)

end
