(* ===== verification/Ws_Service_Props.thy ===== *)
theory Ws_Service_Props
  imports Ws_Service_Safety
begin

text \<open>
  What the WebSocket service promises: its thread has one owner, a stop ends the thread, and a request to stop or to
  poll reaches a thread that is about to sleep.
\<close>

section \<open>No wake-up is lost\<close>

fun may_sleep :: "loop_pc \<Rightarrow> bool" where
  "may_sleep Loop_mode = True"
| "may_sleep In_run = True"
| "may_sleep (Callback polling pc) = (\<not> polling)"
| "may_sleep l = False"

fun in_run :: "loop_pc \<Rightarrow> bool" where
  "in_run In_run = True"
| "in_run (Callback polling pc) = (\<not> polling)"
| "in_run l = False"

fun requests :: "call_pc \<Rightarrow> bool" where
  "requests (Request joins) = True"
| "requests pc = False"

fun stops_context :: "call_pc \<Rightarrow> bool" where
  "stops_context (Request_stop joins) = True"
| "stops_context pc = False"

definition some_call :: "(call_pc \<Rightarrow> bool) \<Rightarrow> ws_service \<Rightarrow> bool" where
  "some_call P s \<longleftrightarrow> (\<exists>w pc. call_of w s = Some pc \<and> P pc)"

definition awake :: "loop_pc \<Rightarrow> ws_service \<Rightarrow> bool" where
  "awake l s \<longleftrightarrow> (may_sleep l \<and> \<not> run_flag s \<longrightarrow> ioc_stopped s \<or> some_call stops_context s)
     \<and> (in_run l \<and> busy_poll s \<longrightarrow> ioc_stopped s \<or> some_call ((=) Busy_stop) s)"

definition wake_inv :: "ws_service \<Rightarrow> bool" where
  "wake_inv s \<longleftrightarrow> (\<forall>l \<in> set (loops s). awake l s) \<and> (winding_down s \<and> run_flag s \<longrightarrow> some_call requests s)"

lemma some_call_moved:
  assumes w: "call_of w s = Some old" "apps u = apps s" "loops u = loops s"
  shows "some_call P (call_at w pc u) \<longleftrightarrow> P pc \<or> (\<exists>v pc'. v \<noteq> w \<and> call_of v s = Some pc' \<and> P pc')"
proof
  assume "some_call P (call_at w pc u)"
  then obtain v pc' where "call_of v (call_at w pc u) = Some pc'" "P pc'" unfolding some_call_def by blast
  then show "P pc \<or> (\<exists>v pc'. v \<noteq> w \<and> call_of v s = Some pc' \<and> P pc')"
    using call_of_call_at [OF w, of v pc] by (auto split: if_splits)
next
  assume "P pc \<or> (\<exists>v pc'. v \<noteq> w \<and> call_of v s = Some pc' \<and> P pc')"
  then show "some_call P (call_at w pc u)"
  proof (elim disjE exE conjE)
    assume "P pc"
    moreover have "call_of w (call_at w pc u) = Some pc" using call_of_call_at [OF w, of w pc] by simp
    ultimately show ?thesis unfolding some_call_def by blast
  next
    fix v pc' assume "v \<noteq> w" "call_of v s = Some pc'" "P pc'"
    moreover from this have "call_of v (call_at w pc u) = Some pc'" using call_of_call_at [OF w, of v pc] by simp
    ultimately show ?thesis unfolding some_call_def by blast
  qed
qed

lemma some_call_kept:
  assumes w: "call_of w s = Some old" "apps u = apps s" "loops u = loops s" and "some_call P s \<and> \<not> P old \<or> P pc"
  shows "some_call P (call_at w pc u)"
proof -
  have "\<exists>v pc'. v \<noteq> w \<and> call_of v s = Some pc' \<and> P pc'" if "some_call P s" "\<not> P old"
    using that w(1) unfolding some_call_def by (metis option.inject)
  then show ?thesis using assms(4) some_call_moved [OF w] by blast
qed

lemma places_call_at:
  assumes "l \<in> set (loops (call_at w pc u))"
  shows "\<exists>l' \<in> set (loops u). may_sleep l = may_sleep l' \<and> in_run l = in_run l'"
proof -
  obtain k where k: "k < length (loops u)" "l = loops (call_at w pc u) ! k" using assms by (auto simp: in_set_conv_nth)
  have "same_place (loops u ! k) l" using same_place_call_at [OF k(1)] k(2) by simp
  then have "may_sleep l = may_sleep (loops u ! k)" "in_run l = in_run (loops u ! k)" by (cases "loops u ! k"; auto)+
  then show ?thesis using k(1) nth_mem by blast
qed

text \<open>A step of a call.\<close>

lemma wake_inv_call:
  assumes inv: "wake_inv s" and w: "call_of w s = Some old" "apps u = apps s" "loops u = loops s"
    and stop: "\<not> run_flag u \<and> \<not> ioc_stopped u \<longrightarrow> \<not> run_flag s \<and> \<not> ioc_stopped s \<and> \<not> stops_context old \<or> stops_context pc"
    and busy: "busy_poll u \<and> \<not> ioc_stopped u \<longrightarrow> busy_poll s \<and> \<not> ioc_stopped s \<and> old \<noteq> Busy_stop \<or> pc = Busy_stop"
    and winds: "winding_down u \<and> run_flag u \<longrightarrow> winding_down s \<and> run_flag s \<and> \<not> requests old \<or> requests pc"
  shows "wake_inv (call_at w pc u)"
proof -
  note kept = some_call_kept [OF w]
  have "awake l (call_at w pc u)" if l: "l \<in> set (loops (call_at w pc u))" for l
  proof -
    obtain l' where l': "l' \<in> set (loops s)" "may_sleep l = may_sleep l'" "in_run l = in_run l'"
      using places_call_at [OF l] unfolding w(3) by blast
    have "awake l' s" using inv l'(1) by (simp add: wake_inv_def)
    then show ?thesis using stop busy kept [of stops_context pc] kept [of "(=) Busy_stop" pc] l'(2,3)
      unfolding awake_def call_at_simps by blast
  qed
  moreover have "some_call requests (call_at w pc u)" if "winding_down u" "run_flag u"
    using that winds kept [of requests pc] inv unfolding wake_inv_def by blast
  ultimately show ?thesis by (simp add: wake_inv_def winding_down_def)
qed

lemma create_thread_wake:
  assumes inv: "service_inv s" "wake_inv s" and w: "call_of w s = Some Start_thread"
  shows "wake_inv (create_thread w s)"
proof -
  let ?t = "create_thread w s"
  have ok: "\<not> on_service_thread w" "phase s = Starting_phase" "run_flag s"
    using service_invD(2) [OF inv(1) w] by (simp_all add: call_ok_def)
  obtain i where i: "w = App i" using ok(1) by (cases w) simp_all
  have t: "loops ?t = loops s @ [Loop_begin]" "run_flag ?t" "busy_poll ?t = busy_poll s" "ioc_stopped ?t = ioc_stopped s"
      "\<not> winding_down ?t"
    using i ok(2,3) by (simp_all add: create_thread_def winding_down_def)
  have "some_call ((=) Busy_stop) ?t" if busy: "some_call ((=) Busy_stop) s"
  proof -
    obtain v where v: "call_of v s = Some Busy_stop" using busy unfolding some_call_def by auto
    then have "v \<noteq> w" using w by auto
    then have "call_of v ?t = Some Busy_stop" using v call_of_create [OF w, of v] by simp
    then show ?thesis unfolding some_call_def by blast
  qed
  then have "awake l ?t" if "l \<in> set (loops s)" for l
    using inv(2) that t(2-4) unfolding wake_inv_def awake_def by metis
  moreover have "awake Loop_begin ?t" by (simp add: awake_def)
  ultimately show ?thesis using t(1,5) by (auto simp: wake_inv_def)
qed

lemma call_goes_wake:
  assumes inv: "service_inv s" "wake_inv s" and w: "call_of w s = Some pc" and goes: "call_goes w pc s = Some t"
  shows "wake_inv t"
proof -
  note ok = service_invD(2) [OF inv(1) w] and call = wake_inv_call [OF inv(2) w]
  have whole: "\<not> aborted t" using call_goes_inv [OF inv(1) w goes] by (rule service_invD)
  show ?thesis
  proof (cases pc)
    case (Start_loop seen)
    then show ?thesis using goes
      by (cases seen) (auto simp: start_turn_def winding_down_def intro!: call split: if_splits)
  next
    case (Stop_loop seen)
    then show ?thesis using goes
      by (cases seen) (auto simp: stop_turn_def winding_down_def intro!: call split: if_splits)
  next
    case (Request joins)
    then show ?thesis using goes by (auto simp: request_stop_def winding_down_def intro!: call split: if_splits)
  next
    case Start_join
    then show ?thesis using goes whole
      by (auto simp: join_thread_def winding_down_def intro!: call split: option.splits if_splits)
  next
    case Stop_join
    then show ?thesis using goes whole
      by (auto simp: join_thread_def winding_down_def intro!: call split: option.splits if_splits)
  next
    case Start_thread
    then show ?thesis using create_thread_wake [OF inv] w goes by auto
  next
    case Start_run
    then have "phase s = Starting_phase" using ok by (simp add: call_ok_def)
    then show ?thesis using Start_run goes by (auto simp: winding_down_def intro!: call)
  qed (use goes in \<open>auto simp: winding_down_def intro!: call\<close>)
qed

text \<open>A step of the service thread.\<close>

lemma some_call_loop:
  assumes "some_call P s" "\<not> P No_call" "apps t = apps s" "loops t = (loops s)[k := l]"
    and k: "\<And>p pc. loops s ! k = Callback p pc \<Longrightarrow> pc = No_call"
  shows "some_call P t"
proof -
  obtain w pc where w: "call_of w s = Some pc" "P pc" using assms(1) unfolding some_call_def by blast
  have "call_of w t = Some pc"
  proof (cases w)
    case (App i)
    then show ?thesis using w(1) assms(3) by (auto split: if_splits)
  next
    case (On_thread j)
    then obtain p where "j < length (loops s)" "loops s ! j = Callback p pc"
      using w(1) by (auto split: if_splits loop_pc.splits)
    moreover from this have "j \<noteq> k" using k w(2) assms(2) by auto
    ultimately show ?thesis using On_thread assms(4) by simp
  qed
  then show ?thesis using w(2) unfolding some_call_def by blast
qed

lemma wake_inv_loop:
  assumes inv: "service_inv s" "wake_inv s" and k: "k < length (loops s)" "loops s ! k \<noteq> Gone"
    and calls: "\<And>p pc. loops s ! k = Callback p pc \<Longrightarrow> pc = No_call"
    and t: "apps t = apps s" "loops t = (loops s)[k := l]" "phase t = phase s" "run_flag t = run_flag s" "busy_poll t = busy_poll s"
    and sleep: "may_sleep l \<Longrightarrow> run_flag s \<or> may_sleep (loops s ! k) \<and> ioc_stopped t = ioc_stopped s"
    and in_run: "in_run l \<Longrightarrow> \<not> busy_poll s \<or> in_run (loops s ! k) \<and> ioc_stopped t = ioc_stopped s"
  shows "wake_inv t"
proof -
  note kept = some_call_loop [OF _ _ t(1,2) calls]
  have "awake l' t" if l': "l' \<in> set (loops t)" for l'
  proof (cases "l' = l")
    case True
    have "awake (loops s ! k) s" using inv(2) k(1) by (simp add: wake_inv_def)
    then show ?thesis using True sleep in_run kept [of stops_context] kept [of "(=) Busy_stop"] t(4,5)
      unfolding awake_def by fastforce
  next
    case False
    then obtain j where j: "j < length (loops s)" "j \<noteq> k" "l' = loops s ! j"
      using l' t(2) k(1) by (auto simp: in_set_conv_nth nth_list_update split: if_splits)
    then have "l' = Gone" using service_invD(3) [OF inv(1)] k unfolding loops_ok_def by (metis option.inject)
    then show ?thesis by (simp add: awake_def)
  qed
  moreover have "winding_down t = winding_down s" using t(3) by (simp add: winding_down_def)
  ultimately show ?thesis using inv(2) kept [of requests] t(4) by (auto simp: wake_inv_def)
qed

lemma service_moved_wake:
  assumes inv: "service_inv s" "wake_inv s" and moved: "service_moved m s = Some t"
  shows "wake_inv t"
proof (cases m)
  case (Starts_service w)
  then show ?thesis using moved by (auto intro!: wake_inv_call [OF inv(2)] split: if_splits)
next
  case (Stops_service w)
  then show ?thesis using moved by (auto intro!: wake_inv_call [OF inv(2)] split: if_splits)
next
  case (Sets_busy w enable)
  then have w: "call_of w s = Some No_call" and t: "t = set_busy_poll w enable s" using moved by (auto split: if_splits)
  have calls: "some_call P (s\<lparr>busy_poll := False\<rparr>) = some_call P s" for P
    by (simp add: some_call_def call_of_same [of "s\<lparr>busy_poll := False\<rparr>" s])
  consider "t = s" | "t = s\<lparr>busy_poll := False\<rparr>" | "t = call_at w Busy_stop (s\<lparr>busy_poll := True\<rparr>)"
    unfolding t set_busy_poll_def by (cases enable; cases "busy_poll s") simp_all
  then show ?thesis
  proof cases
    case 2
    then show ?thesis using inv(2) by (simp add: wake_inv_def awake_def winding_down_def calls)
  next
    case 3
    then show ?thesis by (auto simp: winding_down_def intro!: wake_inv_call [OF inv(2) w])
  qed (use inv in simp)
next
  case (Call_goes w)
  then show ?thesis using moved call_goes_wake [OF inv] by (auto split: option.splits)
next
  case (Fails_spuriously w)
  then show ?thesis using moved
    by (auto intro!: wake_inv_call [OF inv(2)] split: option.splits call_pc.splits if_splits)
next
  case (Loop_goes k calls)
  then have k: "k < length (loops s)" and goes: "loop_goes k (loops s ! k) calls s = Some t" using moved by (auto split: if_splits)
  show ?thesis
    by (cases "loops s ! k") (use goes k in \<open>auto simp: loop_at_def intro!: wake_inv_loop [OF inv k] split: if_splits\<close>)
next
  case (Callback_ends k throws)
  then obtain p l where "k < length (loops s)" "loops s ! k = Callback p No_call" "t = loop_at k l s"
      "l = Loop_check \<or> p \<and> l = In_poll True \<or> \<not> p \<and> l = In_run"
    using callback_ends_shape moved by blast
  then show ?thesis by (intro wake_inv_loop [OF inv, of k t l]) (auto simp: loop_at_def)
qed

interpretation service_wakes: inductive_invariant "ws_service_init n" service_step "\<lambda>s. service_inv s \<and> wake_inv s" for n
proof unfold_locales
  show "service_inv (ws_service_init n) \<and> wake_inv (ws_service_init n)"
    using service_inv_init by (simp add: wake_inv_def winding_down_def) (simp add: ws_service_init_def)
qed (auto intro: service_moved_inv service_moved_wake elim!: service_stepE)

section \<open>Properties\<close>

lemma reachable_service: "reachable (ws_service_init n) service_step s \<Longrightarrow> service_inv s \<and> wake_inv s"
  by (rule service_wakes.reachable_inv)

text \<open>The moves of a schedule, \<open>None\<close> when one is not enabled.\<close>

fun service_schedule :: "ws_service_move list \<Rightarrow> ws_service \<Rightarrow> ws_service option" where
  "service_schedule [] s = Some s"
| "service_schedule (m # ms) s = (case service_moved m s of Some t \<Rightarrow> service_schedule ms t | None \<Rightarrow> None)"

lemma service_schedule_reachable:
  "service_schedule ms s = Some t \<Longrightarrow> reachable init service_step s \<Longrightarrow> reachable init service_step t"
  by (induction ms s rule: service_schedule.induct)
    (auto split: option.splits intro: reachable.next_step service_step.move)

definition scheduled :: "nat \<Rightarrow> ws_service_move list \<Rightarrow> ws_service" where
  "scheduled n ms = the (service_schedule ms (ws_service_init n))"

lemma scheduled_reachable:
  "service_schedule ms (ws_service_init n) \<noteq> None \<Longrightarrow> reachable (ws_service_init n) service_step (scheduled n ms)"
  using service_schedule_reachable reachable.start by (fastforce simp: scheduled_def)

text \<open>
  C11. In every reachable state of the WebSocket service at most one call is starting, joining or stopping the thread, and only
  while the state says starting or stopping; no thread ever joins itself or is overwritten while joinable; every thread
  but the one \<open>service_thread_\<close> holds has ended; and while the state says running that thread is in its loop and stays
  there, whatever calls of start, stop and set_busy_poll the application threads and the callbacks make.
\<close>

theorem service_thread_has_one_owner:
  assumes "reachable (ws_service_init n) service_step s"
  shows "(\<forall>v w. owns_thread s v \<and> owns_thread s w \<longrightarrow> v = w) \<and> (thread_taken s \<longleftrightarrow> (\<exists>w. owns_thread s w)) \<and> \<not> aborted s
    \<and> (\<forall>k < length (loops s). loops s ! k \<noteq> Gone \<longrightarrow> thread_object s = Some k)
    \<and> (phase s = Running_phase \<longrightarrow> serving s) \<and> (phase s = Stopped_phase \<longrightarrow> (\<forall>k < length (loops s). loops s ! k = Gone))"
proof -
  have inv: "service_inv s" using reachable_service [OF assms] by simp
  have "\<forall>v w. owns_thread s v \<and> owns_thread s w \<longrightarrow> v = w" "thread_taken s \<longleftrightarrow> (\<exists>w. owns_thread s w)"
    using service_invD(1) [OF inv] unfolding one_owner_def by blast+
  moreover have held: "\<forall>k < length (loops s). loops s ! k \<noteq> Gone \<longrightarrow> thread_object s = Some k"
    using service_invD(3) [OF inv] unfolding loops_ok_def by blast
  moreover have "\<forall>k < length (loops s). loops s ! k = Gone" if "phase s = Stopped_phase"
  proof -
    have "thread_object s = None" using service_invD(4) [OF inv] that by (simp add: phase_ok_def)
    then show ?thesis using held by (metis option.distinct(1))
  qed
  moreover have "phase s = Running_phase \<longrightarrow> serving s" using service_invD(4) [OF inv] by (simp add: phase_ok_def)
  ultimately show ?thesis using service_invD(5) [OF inv] by blast
qed

abbreviation "restart_in_callback \<equiv>
  [Starts_service (App 0), Call_goes (App 0), Call_goes (App 0), Call_goes (App 0), Call_goes (App 0), Loop_goes 0 True,
   Loop_goes 0 True, Loop_goes 0 True, Loop_goes 0 True, Stops_service (On_thread 0), Call_goes (On_thread 0),
   Starts_service (App 1), Call_goes (App 1), Stops_service (App 0), Call_goes (App 0)]"

theorem service_thread_has_one_owner_witness:
  "phase (scheduled 2 restart_in_callback) = Stopping_phase \<and> owns_thread (scheduled 2 restart_in_callback) (App 1)
   \<and> \<not> aborted (scheduled 2 restart_in_callback)"
proof -
  have "service_schedule restart_in_callback (ws_service_init 2) \<noteq> None" by code_simp
  from service_thread_has_one_owner [OF scheduled_reachable [OF this]]
  have "\<not> aborted (scheduled 2 restart_in_callback)" by blast
  moreover have "phase (scheduled 2 restart_in_callback) = Stopping_phase" by code_simp
  moreover have "owns_thread (scheduled 2 restart_in_callback) (App 1)" by code_simp
  ultimately show ?thesis by blast
qed

text \<open>Thread \<open>k\<close> goes on by itself, outside callbacks, for at most \<open>n\<close> steps.\<close>

fun loop_alone :: "nat \<Rightarrow> nat \<Rightarrow> ws_service \<Rightarrow> ws_service" where
  "loop_alone 0 k s = s"
| "loop_alone (Suc n) k s = (case service_moved (Loop_goes k False) s of Some t \<Rightarrow> loop_alone n k t | None \<Rightarrow> s)"

text \<open>
  Once a stop has been requested and no call is between clearing \<open>run_\<close> and stopping the context, the service
  thread, left alone outside a callback, ends within six steps of its loop: it is never left asleep in
  \<open>ioc_.run()\<close>.
\<close>

lemma stopped_service_thread_ends:
  assumes "reachable (ws_service_init n) service_step s" "\<not> run_flag s" "\<not> some_call stops_context s" "k < length (loops s)"
    and "\<And>polling pc. loops s ! k \<noteq> Callback polling pc"
  shows "loops (loop_alone 6 k s) ! k = Gone"
proof -
  have "awake (loops s ! k) s" using reachable_service [OF assms(1)] assms(4) by (simp add: wake_inv_def)
  then show ?thesis using assms(2-5)
    by (cases "loops s ! k") (auto simp: awake_def loop_at_def eval_nat_numeral)
qed

abbreviation "stopped_while_running \<equiv>
  [Starts_service (App 0), Call_goes (App 0), Call_goes (App 0), Call_goes (App 0), Call_goes (App 0), Loop_goes 0 True,
   Loop_goes 0 True, Loop_goes 0 True, Stops_service (App 1), Call_goes (App 1), Call_goes (App 1), Call_goes (App 1)]"

lemma stopped_service_thread_ends_witness:
  "loops (scheduled 2 stopped_while_running) = [In_run]
   \<and> loops (loop_alone 6 0 (scheduled 2 stopped_while_running)) ! 0 = Gone"
proof -
  let ?s = "scheduled 2 stopped_while_running"
  have "service_schedule stopped_while_running (ws_service_init 2) \<noteq> None" by code_simp
  note reach = scheduled_reachable [OF this]
  have s: "loops ?s = [In_run]" "apps ?s = [No_call, Stop_join]" "\<not> run_flag ?s" by code_simp+
  have "\<not> stops_context pc" if w: "call_of w ?s = Some pc" for w pc
  proof (cases w)
    case (App i)
    then show ?thesis using w s(2) by (cases i rule: nat.exhaust; auto simp: less_Suc_eq split: if_splits)
  next
    case (On_thread j)
    then show ?thesis using w s(1) by (auto split: if_splits)
  qed
  then have "\<not> some_call stops_context ?s" by (auto simp: some_call_def)
  from stopped_service_thread_ends [OF reach s(3) this, of 0] s(1) show ?thesis by simp
qed

end
