(* ===== verification/Ws_Service_Ends.thy ===== *)
theory Ws_Service_Ends
  imports Ws_Service_Props
begin

text \<open>
  A start or a stop of the WebSocket service that has begun ends, and so does its thread once it was asked to: the steps of
  the call that owns the thread, of the callback the thread is in and of its loop come to rest.
\<close>

section \<open>The steps\<close>

text \<open>A call made in a callback that does not wait for a start to be over.\<close>

fun waits_for_start :: "call_pc \<Rightarrow> bool" where
  "waits_for_start (Stop_loop seen) = (seen = Starting_phase)"
| "waits_for_start pc = False"

text \<open>
  Calls that wait for the owner load the state again and again and are left out; the callbacks that run return, and no new
  one starts.
\<close>

inductive service_internal :: "ws_service \<Rightarrow> ws_service \<Rightarrow> bool" where
  owner: "owns_thread s w \<Longrightarrow> service_moved (Call_goes w) s = Some t \<Longrightarrow> service_internal s t"
| in_callback: "call_of (On_thread k) s = Some pc \<Longrightarrow> waits_for_start pc \<longrightarrow> phase s \<noteq> Starting_phase \<Longrightarrow>
    service_moved (Call_goes (On_thread k)) s = Some t \<Longrightarrow> service_internal s t"
| returns: "service_moved (Callback_ends k throws) s = Some t \<Longrightarrow> service_internal s t"
| loops: "\<not> run_flag s \<Longrightarrow> service_moved (Loop_goes k False) s = Some t \<Longrightarrow> service_internal s t"

section \<open>The measure\<close>

fun owner_weight :: "call_pc \<Rightarrow> nat" where
  "owner_weight Start_join = 20"
| "owner_weight Start_claim = 18"
| "owner_weight Start_run = 16"
| "owner_weight Start_thread = 14"
| "owner_weight Start_done = 2"
| "owner_weight (Request joins) = (if joins then 8 else 0)"
| "owner_weight (Request_stop joins) = (if joins then 6 else 0)"
| "owner_weight Stop_join = 4"
| "owner_weight Stop_done = 2"
| "owner_weight pc = 0"

fun call_weight :: "service_phase \<Rightarrow> call_pc \<Rightarrow> nat" where
  "call_weight p No_call = 0"
| "call_weight p (Stop_loop seen) = (if seen = p then 4 else 5)"
| "call_weight p (Request joins) = 2"
| "call_weight p pc = 1"

fun loop_weight :: "service_phase \<Rightarrow> loop_pc \<Rightarrow> nat" where
  "loop_weight p Gone = 0"
| "loop_weight p Loop_end = 1"
| "loop_weight p Loop_check = 2"
| "loop_weight p Loop_restart = 3"
| "loop_weight p Loop_begin = 3"
| "loop_weight p Polled = 4"
| "loop_weight p In_run = 4"
| "loop_weight p (In_poll some_ran) = 5"
| "loop_weight p Loop_mode = 6"
| "loop_weight p (Callback polling pc) = 6 + call_weight p pc"

definition held_weight :: "ws_service \<Rightarrow> nat" where
  "held_weight s = (case thread_object s of None \<Rightarrow> 0 | Some k \<Rightarrow> loop_weight (phase s) (loops s ! k))"

definition service_weight :: "ws_service \<Rightarrow> nat" where
  "service_weight s = sum_list (map owner_weight (apps s)) + held_weight s"

lemma loop_weight_phase: "loop_weight p l \<le> Suc (loop_weight q l)"
proof -
  have "call_weight p pc \<le> Suc (call_weight q pc)" for pc by (cases pc) simp_all
  then show ?thesis by (cases l) simp_all
qed

lemma held_thread: "service_inv s \<Longrightarrow> k < length (loops s) \<Longrightarrow> loops s ! k \<noteq> Gone \<Longrightarrow> thread_object s = Some k"
  using service_invD(3) [of s] unfolding loops_ok_def by blast

lemma owner_is_app:
  assumes "service_inv s" "call_of w s = Some pc" "owner_call pc"
  shows "\<exists>i. w = App i \<and> i < length (apps s) \<and> apps s ! i = pc"
proof -
  have "\<not> on_service_thread w" using service_invD(2) [OF assms(1,2)] assms(3) by (simp add: call_ok_def)
  then obtain i where "w = App i" by (cases w) simp_all
  then show ?thesis using assms(2) by (simp split: if_splits)
qed

lemma held_weight_phase: "thread_object u = thread_object s \<Longrightarrow> loops u = loops s \<Longrightarrow> held_weight u \<le> Suc (held_weight s)"
  by (cases "thread_object s") (simp_all add: held_weight_def loop_weight_phase)

section \<open>Every step decreases it\<close>

lemma app_less:
  assumes "i < length (apps s)" "apps u = apps s" "loops u = loops s"
    and "owner_weight pc + held_weight u < owner_weight (apps s ! i) + held_weight s"
  shows "service_weight (call_at (App i) pc u) < service_weight s"
proof -
  have "held_weight (call_at (App i) pc u) = held_weight u"
    by (simp add: held_weight_def split: option.split)
  then show ?thesis using sum_list_upd [OF assms(1), of owner_weight pc] assms(2-4) by (simp add: service_weight_def)
qed

lemma owner_step_less:
  assumes inv: "service_inv s" and own: "owns_thread s w" and goes: "service_moved (Call_goes w) s = Some t"
  shows "service_weight t < service_weight s"
proof -
  obtain pc where pc: "call_of w s = Some pc" "owner_call pc" using own by (auto simp: owns_thread_def split: option.splits)
  then obtain i where i: "w = App i" "i < length (apps s)" "apps s ! i = pc" using owner_is_app [OF inv] by blast
  have goes: "call_goes w pc s = Some t" using goes pc(1) by simp
  have data: "owner_data pc s" using service_invD(2) [OF inv pc(1)] pc(2) by (simp add: call_ok_def)
  have whole: "\<not> aborted t" using call_goes_inv [OF inv pc(1) goes] by (rule service_invD)
  show ?thesis
  proof (cases pc)
    case Start_thread
    then have "thread_object s = None" using data by simp
    then show ?thesis using goes Start_thread i sum_list_upd [OF i(2), of owner_weight Start_done]
      by (auto simp: create_thread_def service_weight_def held_weight_def)
  next
    case Start_join
    then show ?thesis using goes whole i
      by (auto simp: join_thread_def held_weight_def simp del: call_at.simps intro!: app_less split: option.splits if_splits)
  next
    case Stop_join
    then show ?thesis using goes whole i
      by (auto simp: join_thread_def held_weight_def simp del: call_at.simps intro!: app_less split: option.splits if_splits)
  next
    case (Request joins)
    then show ?thesis using goes pc(2) i
      by (auto simp: request_stop_def requested_def held_weight_def simp del: call_at.simps intro!: app_less split: if_splits option.split)
  next
    case (Request_stop joins)
    then show ?thesis using goes pc(2) i by (auto simp: requested_def held_weight_def simp del: call_at.simps intro!: app_less split: option.split)
  next
    case Start_claim
    then show ?thesis using goes i held_weight_phase [of "s\<lparr>phase := Starting_phase\<rparr>" s] by (auto simp del: call_at.simps intro!: app_less)
  next
    case Start_run
    then show ?thesis using goes i held_weight_phase [of "s\<lparr>run_flag := True\<rparr>" s] by (auto simp del: call_at.simps intro!: app_less)
  next
    case Start_done
    then show ?thesis using goes i held_weight_phase [of "s\<lparr>phase := Running_phase\<rparr>" s] by (auto simp del: call_at.simps intro!: app_less)
  next
    case Stop_done
    then show ?thesis using goes i held_weight_phase [of "s\<lparr>phase := Stopped_phase\<rparr>" s] by (auto simp del: call_at.simps intro!: app_less)
  qed (use pc(2) in simp_all)
qed

text \<open>The thread itself: only what it does counts.\<close>

lemma thread_less:
  assumes "thread_object s = Some k" "apps t = apps s" "thread_object t = Some k"
    and "loop_weight (phase t) (loops t ! k) < loop_weight (phase s) (loops s ! k)"
  shows "service_weight t < service_weight s"
  using assms by (simp add: service_weight_def held_weight_def)

lemma callback_of: "call_of (On_thread k) s = Some pc \<longleftrightarrow> k < length (loops s) \<and> (\<exists>p. loops s ! k = Callback p pc)"
  by (auto split: loop_pc.splits)

lemma in_callback_less:
  assumes inv: "service_inv s" and pc: "call_of (On_thread k) s = Some pc" "waits_for_start pc \<longrightarrow> phase s \<noteq> Starting_phase"
    and goes: "service_moved (Call_goes (On_thread k)) s = Some t"
  shows "service_weight t < service_weight s"
proof -
  obtain p where k: "k < length (loops s)" "loops s ! k = Callback p pc" using pc(1) unfolding callback_of by blast
  have held: "thread_object s = Some k" using held_thread [OF inv k(1)] k(2) by simp
  have not_owner: "\<not> owner_call pc" using owner_is_app [OF inv pc(1)] by auto
  have goes: "call_goes (On_thread k) pc s = Some t" using goes pc(1) by simp
  have less: "service_weight (call_at (On_thread k) pc' u) < service_weight s"
    if "apps u = apps s" "loops u = loops s" "thread_object u = Some k" "call_weight (phase u) pc' < call_weight (phase s) pc" for pc' u
    by (rule thread_less [OF held]) (use that k in simp_all)
  show ?thesis
  proof (cases pc)
    case (Start_loop seen)
    then show ?thesis using goes held by (auto simp: start_turn_def simp del: call_at.simps intro!: less split: if_splits)
  next
    case (Stop_loop seen)
    then show ?thesis using goes held pc(2) by (cases seen) (auto simp: stop_turn_def simp del: call_at.simps intro!: less split: if_splits)
  next
    case (Request joins)
    then show ?thesis using goes held not_owner by (auto simp: request_stop_def requested_def simp del: call_at.simps intro!: less split: if_splits)
  qed (use goes held not_owner in \<open>auto simp: requested_def simp del: call_at.simps intro!: less\<close>)
qed

lemma returns_less:
  assumes inv: "service_inv s" and goes: "service_moved (Callback_ends k throws) s = Some t"
  shows "service_weight t < service_weight s"
proof -
  obtain p l where k: "k < length (loops s)" "loops s ! k = Callback p No_call" "t = loop_at k l s"
      "l = Loop_check \<or> p \<and> l = In_poll True \<or> \<not> p \<and> l = In_run"
    using callback_ends_shape [OF goes] by blast
  then have "thread_object s = Some k" using held_thread [OF inv k(1)] by simp
  then show ?thesis by (rule thread_less) (use k \<open>thread_object s = Some k\<close> in \<open>auto simp: loop_at_def\<close>)
qed

lemma loops_less:
  assumes inv: "service_inv s" and "\<not> run_flag s" and goes: "service_moved (Loop_goes k False) s = Some t"
  shows "service_weight t < service_weight s"
proof -
  have k: "k < length (loops s)" "loop_goes k (loops s ! k) False s = Some t" using goes by (auto split: if_splits)
  then have "loops s ! k \<noteq> Gone" by auto
  then have held: "thread_object s = Some k" by (rule held_thread [OF inv k(1)])
  have "loop_weight (phase t) (loops t ! k) < loop_weight (phase s) (loops s ! k)"
    using k assms(2) by (cases "loops s ! k") (auto simp: loop_at_def split: if_splits)
  then show ?thesis using loop_goes_shape [OF k(2)] held by (intro thread_less [OF held]) auto
qed

lemma service_internal_less: "service_inv s \<Longrightarrow> service_internal s t \<Longrightarrow> service_weight t < service_weight s"
  by (elim service_internal.cases) (simp_all add: owner_step_less in_callback_less returns_less loops_less del: service_moved.simps)

lemma service_internal_step: "service_internal s t \<Longrightarrow> service_step s t"
  by (elim service_internal.cases) (auto intro: service_step.move simp del: service_moved.simps)

interpretation service_rest: comes_to_rest "ws_service_init n" service_step "\<lambda>s. service_inv s \<and> wake_inv s" service_internal service_weight for n
  by unfold_locales (auto dest: service_internal_step service_internal_less)

section \<open>Nothing gets stuck\<close>

lemma requester_can_go:
  assumes inv: "service_inv s" and w: "call_of w s = Some (Request joins) \<or> call_of w s = Some (Request_stop joins)"
  shows "\<exists>t. service_internal s t"
proof -
  obtain pc where pc: "call_of w s = Some pc" "pc = Request joins \<or> pc = Request_stop joins" using w by blast
  then obtain t where t: "service_moved (Call_goes w) s = Some t" by auto
  show ?thesis
  proof (cases joins)
    case True
    then have "owns_thread s w" using pc by (auto simp: owns_thread_def)
    then show ?thesis using service_internal.owner t by blast
  next
    case False
    then have "on_service_thread w" using service_invD(2) [OF inv pc(1)] pc(2) by (auto simp: call_ok_def)
    then obtain k where k: "w = On_thread k" by (cases w) simp_all
    have "\<not> waits_for_start pc" using pc(2) by auto
    then show ?thesis using service_internal.in_callback [of k s pc t] pc(1) t unfolding k by blast
  qed
qed

lemma thread_can_go:
  assumes inv: "service_inv s" "wake_inv s" and k: "k < length (loops s)" "loops s ! k \<noteq> Gone"
    and ends: "\<not> run_flag s" "phase s \<noteq> Starting_phase"
  shows "\<exists>t. service_internal s t"
proof -
  have go: ?thesis if "loop_goes k (loops s ! k) False s \<noteq> None"
    using that service_internal.loops [OF ends(1), of k] k(1) by auto
  show ?thesis
  proof (cases "loops s ! k")
    case (Callback p pc)
    then have pc: "call_of (On_thread k) s = Some pc" using k(1) by simp
    show ?thesis
    proof (cases "pc = No_call")
      case True
      then show ?thesis using Callback k(1) service_internal.returns [of k False s] by auto
    next
      case False
      have "\<not> owner_call pc" using owner_is_app [OF inv(1) pc] by auto
      then have "call_goes (On_thread k) pc s \<noteq> None" using False by (cases pc) auto
      then show ?thesis using service_internal.in_callback [OF pc] pc ends(2) by auto
    qed
  next
    case In_run
    show ?thesis
    proof (cases "ioc_stopped s")
      case True
      then show ?thesis using In_run go by simp
    next
      case False
      have "awake In_run s" using inv(2) k(1) In_run nth_mem unfolding wake_inv_def by metis
      then have "some_call stops_context s" using False ends(1) by (simp add: awake_def)
      then obtain w pc where w: "call_of w s = Some pc" "stops_context pc" unfolding some_call_def by blast
      then obtain joins where "pc = Request_stop joins" by (cases pc) simp_all
      then show ?thesis using requester_can_go [OF inv(1)] w(1) by blast
    qed
  qed (use go k(2) in simp_all)
qed

lemma stop_is_requested:
  assumes inv: "service_inv s" "wake_inv s" and "winding_down s" "run_flag s"
  shows "\<exists>t. service_internal s t"
proof -
  obtain w pc where w: "call_of w s = Some pc" "requests pc" using assms(2-4) unfolding wake_inv_def some_call_def by blast
  then obtain joins where "pc = Request joins" by (cases pc) simp_all
  then show ?thesis using requester_can_go [OF inv(1)] w(1) by blast
qed

lemma owning_call_can_go:
  assumes inv: "service_inv s" "wake_inv s" and own: "owns_thread s w"
  shows "\<exists>t. service_internal s t"
proof (cases "service_moved (Call_goes w) s")
  case (Some t)
  then show ?thesis using service_internal.owner [OF own] by blast
next
  case None
  obtain pc where pc: "call_of w s = Some pc" "owner_call pc" using own by (auto simp: owns_thread_def split: option.splits)
  then have data: "owner_data pc s" using service_invD(2) [OF inv(1) pc(1)] by (simp add: call_ok_def)
  have stuck: "call_goes w pc s = None" using None pc(1) by simp
  have joins: "pc = Start_join \<or> pc = Stop_join" using stuck pc(2) by (cases pc) simp_all
  then have phase: "phase s = Stopping_phase" using data by auto
  have "\<exists>next. join_thread w next s = None" using joins stuck by auto
  then obtain k where k: "thread_object s = Some k" "\<not> (k < length (loops s) \<and> loops s ! k = Gone)"
    by (auto simp: join_thread_def split: option.splits if_splits)
  have "k < length (loops s)" using service_invD(3) [OF inv(1)] k(1) unfolding loops_ok_def by blast
  then show ?thesis
    using k(2) thread_can_go [OF inv] stop_is_requested [OF inv] phase by (cases "run_flag s") (auto simp: winding_down_def)
qed

section \<open>Property\<close>

text \<open>
  C19. A start or a stop of the WebSocket service that has begun ends, whoever else waits, and so does a stop asked for in a
  callback: the steps of the call that owns the thread, of the callback and of the loop are finitely many, and after them no
  call is starting or stopping the thread, which is serving a running service or has ended.
\<close>
theorem ws_start_and_stop_end:
  assumes "reachable (ws_service_init n) service_step s"
  shows "(\<forall>k t. (service_internal ^^ k) s t \<longrightarrow> k \<le> service_weight s)
    \<and> (\<exists>t. service_internal\<^sup>*\<^sup>* s t \<and> (\<nexists>u. service_internal t u))
    \<and> (\<forall>t. service_internal\<^sup>*\<^sup>* s t \<and> (\<nexists>u. service_internal t u) \<longrightarrow> (\<nexists>w. owns_thread t w)
        \<and> (phase t = Running_phase \<and> serving t \<or> (\<forall>l \<in> set (loops t). l = Gone)))"
proof (intro conjI allI impI)
  have inv: "service_inv s \<and> wake_inv s" by (rule reachable_service [OF assms])
  show "k \<le> service_weight s" if "(service_internal ^^ k) s t" for k t by (rule service_rest.run_bounded [OF that inv])
  show "\<exists>t. service_internal\<^sup>*\<^sup>* s t \<and> (\<nexists>u. service_internal t u)" by (rule service_rest.rests [OF inv])
  fix t assume t: "service_internal\<^sup>*\<^sup>* s t \<and> (\<nexists>u. service_internal t u)"
  then have inv': "service_inv t" "wake_inv t" using service_rest.internal_inv inv by blast+
  show free: "\<nexists>w. owns_thread t w" using owning_call_can_go [OF inv'] t by blast
  then have "\<not> thread_taken t" using service_invD(1) [OF inv'(1)] by (simp add: one_owner_def)
  moreover have "l = Gone" if "phase t \<noteq> Running_phase" "l \<in> set (loops t)" for l
  proof -
    obtain k where k: "k < length (loops t)" "l = loops t ! k" using \<open>l \<in> set (loops t)\<close> by (auto simp: in_set_conv_nth)
    have "\<not> run_flag t"
      using stop_is_requested [OF inv'] t that(1) \<open>\<not> thread_taken t\<close> service_invD(4) [OF inv'(1)]
      by (cases "phase t") (auto simp: winding_down_def thread_taken_def phase_ok_def)
    then show ?thesis using thread_can_go [OF inv' k(1)] t k(2) \<open>\<not> thread_taken t\<close> by (auto simp: thread_taken_def)
  qed
  ultimately show "phase t = Running_phase \<and> serving t \<or> (\<forall>l \<in> set (loops t). l = Gone)"
    using service_invD(4) [OF inv'(1)] by (auto simp: phase_ok_def)
qed

theorem ws_start_and_stop_end_witness:
  "\<exists>t. service_internal\<^sup>*\<^sup>* (scheduled 2 restart_in_callback) t \<and> (\<nexists>u. service_internal t u)"
proof -
  have "service_schedule restart_in_callback (ws_service_init 2) \<noteq> None" by code_simp
  from ws_start_and_stop_end [OF scheduled_reachable [OF this]] show ?thesis by blast
qed

end
