(* ===== verification/Ws_Session.thy ===== *)
theory Ws_Session
  imports Transitions
begin

text \<open>
  One session of a \<open>Websocket\<close>: \<open>Impl\<close> of \<open>detail/websocket_impl.hpp\<close> with its coroutine (\<open>do_ws_session_ssl\<close>,
  \<open>do_ws_session_plain\<close>), the completion handler of \<open>open\<close>, \<open>on_read\<close>, \<open>on_write\<close>, \<open>on_close\<close>, \<open>close\<close> and the
  hand-over of the read buffer.  The service thread runs one handler at a time; other threads call \<open>close\<close>,
  \<open>detach\<close> and the functions of the outer class between any two of its atomic operations.  The network, the
  other end and the callbacks are chosen by the environment.
\<close>

section \<open>State\<close>

datatype ws_status = CONNECTING | CONNECTED | DISCONNECTING | DISCONNECTED

fun status_rank :: "ws_status \<Rightarrow> nat" where
  "status_rank CONNECTING = 0" | "status_rank CONNECTED = 1"
| "status_rank DISCONNECTING = 2" | "status_rank DISCONNECTED = 3"

lemma status_rank_inject: "status_rank a = status_rank b \<longleftrightarrow> a = b"
  by (cases a; cases b) simp_all

instantiation ws_status :: linorder
begin

definition less_eq_ws_status :: "ws_status \<Rightarrow> ws_status \<Rightarrow> bool" where
  "less_eq_ws_status a b \<longleftrightarrow> status_rank a \<le> status_rank b"

definition less_ws_status :: "ws_status \<Rightarrow> ws_status \<Rightarrow> bool" where
  "less_ws_status a b \<longleftrightarrow> status_rank a < status_rank b"

instance
  by intro_classes (auto simp: less_eq_ws_status_def less_ws_status_def status_rank_inject)

end

datatype release_state = KActive | KCallbackSet | KReleased

datatype ws_callback = On_connected | On_disconnected | On_data string | On_error

text \<open>What follows a callback in the handler that makes it.\<close>

datatype ws_after =
    A_connected        \<comment> \<open>the rest of the coroutine\<close>
  | A_session_error    \<comment> \<open>the completion handler, after \<open>on_error_\<close>\<close>
  | A_late_error       \<comment> \<open>the completion handler of a session that was reading, after \<open>on_error_\<close>\<close>
  | A_release          \<comment> \<open>\<open>release_buffer()\<close>, then the handler ends\<close>
  | A_read_error       \<comment> \<open>\<open>on_read\<close>, after \<open>on_error_\<close>\<close>
  | A_data             \<comment> \<open>\<open>on_read\<close>, after \<open>on_data_\<close>\<close>
  | A_write_error      \<comment> \<open>\<open>on_write\<close>, after \<open>on_error_\<close>\<close>
  | A_close_error      \<comment> \<open>\<open>on_close\<close>, after \<open>on_error_\<close>\<close>
  | A_end              \<comment> \<open>the handler ends\<close>

text \<open>Where the handler is that the service thread runs for this session.\<close>

datatype ws_handler =
    H_none
  | H_begin                           \<comment> \<open>the coroutine starts\<close>
  | H_abort                           \<comment> \<open>compare-exchange CONNECTING to DISCONNECTED, then \<open>co_return\<close>\<close>
  | H_shaken                          \<comment> \<open>the handshake is done\<close>
  | H_connect                         \<comment> \<open>compare-exchange CONNECTING to CONNECTED\<close>
  | H_completion bool                 \<comment> \<open>the completion handler; did the coroutine throw\<close>
  | H_completed bool ws_status        \<comment> \<open>after its exchange\<close>
  | H_read_error bool                 \<comment> \<open>\<open>on_read\<close> with an error; is it one to report\<close>
  | H_read_status                     \<comment> \<open>the second look at \<open>status_\<close>\<close>
  | H_read_store                      \<comment> \<open>the store of DISCONNECTED\<close>
  | H_data string                     \<comment> \<open>\<open>on_read\<close> with data\<close>
  | H_write_error bool                \<comment> \<open>\<open>on_write\<close> with an error\<close>
  | H_close_done bool                 \<comment> \<open>\<open>on_close\<close>\<close>
  | H_close_store
  | H_release                         \<comment> \<open>\<open>release_buffer()\<close>\<close>
  | H_check ws_callback ws_after      \<comment> \<open>\<open>if (!is_detached()) callback\<close>\<close>
  | H_about ws_callback ws_after      \<comment> \<open>the callback is called next\<close>
  | H_in ws_callback ws_after         \<comment> \<open>the callback runs\<close>
  | H_after ws_after

datatype ws_await = A_start | A_resolve | A_connect | A_tls | A_handshake

datatype ws_coroutine = No_session | Awaiting ws_await | In_handler | Finished bool | Over

datatype ws_closing = No_close | Closing ws_status | Close_posted ws_status | Close_ran ws_status

datatype ws_event = Calls ws_callback | Cleared | Handed_over | Threw ws_callback

record ws =
  is_shared :: bool                   \<comment> \<open>\<open>is_shared_buffer<BufferT>\<close>\<close>
  uses_tls :: bool                    \<comment> \<open>\<open>use_ssl_\<close>\<close>
  service_up :: bool                  \<comment> \<open>\<open>websocket_running()\<close>\<close>
  unopened :: bool                    \<comment> \<open>\<open>Impl::open\<close> has not been called\<close>
  ws_status :: ws_status
  detached :: bool
  open_cancelled :: bool
  session_started :: bool
  read_started :: bool
  release_state :: release_state
  coroutine :: ws_coroutine
  handler :: ws_handler
  reading :: bool                     \<comment> \<open>an \<open>async_read\<close> is in flight\<close>
  writing :: bool                     \<comment> \<open>an \<open>async_write\<close> is in flight\<close>
  closing :: ws_closing               \<comment> \<open>the \<open>close()\<close> that won\<close>
  close_handshake :: bool             \<comment> \<open>an \<open>async_close\<close> is in flight\<close>
  trace :: "ws_event list"            \<comment> \<open>history\<close>

text \<open>A new \<open>Impl\<close>; \<open>pending\<close> after \<open>mark_pending_open()\<close>.\<close>

definition ws_init :: "bool \<Rightarrow> bool \<Rightarrow> bool \<Rightarrow> ws" where
  "ws_init shared tls pending = \<lparr>is_shared = shared, uses_tls = tls, service_up = True, unopened = True,
     ws_status = (if pending then CONNECTING else DISCONNECTED), detached = False, open_cancelled = False,
     session_started = False, read_started = False, release_state = KActive, coroutine = No_session, handler = H_none,
     reading = False, writing = False, closing = No_close, close_handshake = False, trace = []\<rparr>"

definition happens :: "ws_event \<Rightarrow> ws \<Rightarrow> ws" where
  "happens e s = s\<lparr>trace := trace s @ [e]\<rparr>"

section \<open>Operations\<close>

text \<open>\<open>release_buffer\<close> and \<open>set_on_buffer_released\<close>; the hand-over calls the callback that opens the next session.\<close>

definition release_buffer :: "ws \<Rightarrow> ws" where
  "release_buffer s =
     (if \<not> is_shared s then s
      else let prev = release_state s; s = s\<lparr>release_state := KReleased\<rparr> in
           if prev = KCallbackSet then happens Handed_over s else s)"

definition set_on_buffer_released :: "ws \<Rightarrow> ws" where
  "set_on_buffer_released s =
     (if \<not> is_shared s then happens Handed_over s
      else if release_state s = KActive then s\<lparr>release_state := KCallbackSet\<rparr> else happens Handed_over s)"

text \<open>\<open>close\<close> up to its compare-exchange, which another thread's loop reaches in one step, and its post.\<close>

definition close_swap :: "ws \<Rightarrow> ws option" where
  "close_swap s = (if ws_status s \<ge> DISCONNECTING then None
     else Some (s\<lparr>ws_status := DISCONNECTING, closing := Closing (ws_status s)\<rparr>))"

definition close_post :: "ws \<Rightarrow> ws" where
  "close_post s = (case closing s of Closing was \<Rightarrow> s\<lparr>closing := Close_posted was\<rparr> | _ \<Rightarrow> s)"

definition close :: "ws \<Rightarrow> ws" where
  "close s = (case close_swap s of None \<Rightarrow> s | Some t \<Rightarrow> close_post t)"

text \<open>The handler that \<open>close\<close> posts.\<close>

definition run_close :: "ws \<Rightarrow> ws option" where
  "run_close s = (case closing s of
     Close_posted was \<Rightarrow>
       Some (if was = CONNECTING then s\<lparr>closing := Close_ran was\<rparr> else s\<lparr>closing := Close_ran was, close_handshake := True\<rparr>)
   | _ \<Rightarrow> None)"

text \<open>\<open>Impl::open\<close> up to the spawn; the first resumption of the coroutine follows.\<close>

definition open_impl :: "ws \<Rightarrow> ws" where
  "open_impl s =
     (let s = s\<lparr>unopened := False\<rparr> in
      if open_cancelled s \<or> detached s
      then release_buffer (if ws_status s = CONNECTING then s\<lparr>ws_status := DISCONNECTED\<rparr> else s)
      else if ws_status s = DISCONNECTED
      then s\<lparr>ws_status := CONNECTING, session_started := True, coroutine := Awaiting A_start\<rparr>
      else if ws_status s \<noteq> CONNECTING \<or> session_started s then s
      else s\<lparr>session_started := True, coroutine := Awaiting A_start\<rparr>)"

section \<open>The coroutine\<close>

fun resumed :: "ws_await \<Rightarrow> ws \<Rightarrow> ws" where
  "resumed A_start s = s\<lparr>coroutine := In_handler, handler := H_begin\<rparr>"
| "resumed A_resolve s = s\<lparr>coroutine := Awaiting A_connect\<rparr>"
| "resumed A_connect s = s\<lparr>coroutine := Awaiting (if uses_tls s then A_tls else A_handshake)\<rparr>"
| "resumed A_tls s = s\<lparr>coroutine := Awaiting A_handshake\<rparr>"
| "resumed A_handshake s = s\<lparr>coroutine := In_handler, handler := H_shaken\<rparr>"

text \<open>
  An operation fails: every exception but \<open>websocket::error::closed\<close>, which only the handshake of the
  WebSocket can report, leaves the coroutine.
\<close>

definition await_failed :: "ws_await \<Rightarrow> bool \<Rightarrow> ws \<Rightarrow> ws option" where
  "await_failed a closed s =
     (if a = A_start \<or> closed \<and> a \<noteq> A_handshake then None else Some (s\<lparr>coroutine := Finished (\<not> closed)\<rparr>))"

definition begin_session :: "ws \<Rightarrow> ws" where
  "begin_session s =
     (if ws_status s \<noteq> CONNECTING \<or> open_cancelled s \<or> detached s then s\<lparr>handler := H_abort\<rparr>
      else s\<lparr>handler := H_none, coroutine := Awaiting A_resolve\<rparr>)"

definition abort_session :: "ws \<Rightarrow> ws" where
  "abort_session s =
     (let s = (if ws_status s = CONNECTING then s\<lparr>ws_status := DISCONNECTED\<rparr> else s)
      in s\<lparr>handler := H_none, coroutine := Finished False\<rparr>)"

definition shaken :: "ws \<Rightarrow> ws" where
  "shaken s =
     (if \<not> service_up s \<or> open_cancelled s \<or> detached s then s\<lparr>handler := H_abort\<rparr> else s\<lparr>handler := H_connect\<rparr>)"

definition connect :: "ws \<Rightarrow> ws" where
  "connect s =
     (if ws_status s = CONNECTING then s\<lparr>ws_status := CONNECTED, handler := H_check On_connected A_connected\<rparr>
      else s\<lparr>handler := H_none, coroutine := Finished False\<rparr>)"

definition after_connected :: "ws \<Rightarrow> ws" where
  "after_connected s =
     (if ws_status s \<noteq> CONNECTED \<or> detached s then s\<lparr>handler := H_none, coroutine := Finished False\<rparr>
      else happens Cleared (s\<lparr>read_started := True, reading := True, handler := H_none, coroutine := Finished False\<rparr>))"

section \<open>The handlers\<close>

text \<open>The completion handler of \<open>co_spawn\<close>.\<close>

definition completion :: "bool \<Rightarrow> ws \<Rightarrow> ws" where
  "completion failed s =
     (if read_started s
      then (if \<not> failed then s\<lparr>handler := H_none\<rparr>
            else let s = (close s)\<lparr>ws_status := DISCONNECTED\<rparr> in
                 if service_up s \<and> \<not> detached s then s\<lparr>handler := H_about On_error A_late_error\<rparr> else s\<lparr>handler := H_none\<rparr>)
      else s\<lparr>ws_status := DISCONNECTED, handler := H_completed failed (ws_status s)\<rparr>)"

definition completed :: "bool \<Rightarrow> ws_status \<Rightarrow> ws \<Rightarrow> ws" where
  "completed failed prev s =
     (if service_up s \<and> \<not> detached s
      then if failed \<and> prev \<noteq> DISCONNECTING then s\<lparr>handler := H_about On_error A_session_error\<rparr>
           else if failed \<or> prev = DISCONNECTING then s\<lparr>handler := H_about On_disconnected A_release\<rparr>
           else s\<lparr>handler := H_release\<rparr>
      else s\<lparr>handler := H_release\<rparr>)"

definition read_error :: "bool \<Rightarrow> ws \<Rightarrow> ws" where
  "read_error report s =
     (if service_up s \<and> ws_status s = CONNECTED \<and> report then s\<lparr>handler := H_check On_error A_read_error\<rparr>
      else s\<lparr>handler := H_read_status\<rparr>)"

definition read_status :: "ws \<Rightarrow> ws" where
  "read_status s = s\<lparr>handler := (if ws_status s = CONNECTED then H_read_store else H_release)\<rparr>"

definition read_data :: "string \<Rightarrow> ws \<Rightarrow> ws" where
  "read_data bs s =
     (if service_up s \<and> ws_status s = CONNECTED \<and> \<not> detached s then s\<lparr>handler := H_about (On_data bs) A_data\<rparr>
      else s\<lparr>handler := H_release\<rparr>)"

definition write_error :: "bool \<Rightarrow> ws \<Rightarrow> ws" where
  "write_error report s =
     (if service_up s \<and> ws_status s = CONNECTED \<and> report then s\<lparr>handler := H_check On_error A_write_error\<rparr>
      else s\<lparr>handler := H_none\<rparr>)"

definition close_done :: "bool \<Rightarrow> ws \<Rightarrow> ws" where
  "close_done report s =
     (if report \<and> service_up s then s\<lparr>handler := H_check On_error A_close_error\<rparr> else s\<lparr>handler := H_close_store\<rparr>)"

fun after_callback :: "ws_after \<Rightarrow> ws \<Rightarrow> ws" where
  "after_callback A_connected s = after_connected s"
| "after_callback A_session_error s = s\<lparr>handler := H_about On_disconnected A_release\<rparr>"
| "after_callback A_late_error s = s\<lparr>handler := H_about On_disconnected A_end\<rparr>"
| "after_callback A_release s = s\<lparr>handler := H_release\<rparr>"
| "after_callback A_read_error s = (close s)\<lparr>handler := H_release\<rparr>"
| "after_callback A_data s = s\<lparr>reading := True, handler := H_none\<rparr>"
| "after_callback A_write_error s = (close s)\<lparr>handler := H_none\<rparr>"
| "after_callback A_close_error s = s\<lparr>handler := H_close_store\<rparr>"
| "after_callback A_end s = s\<lparr>handler := H_none\<rparr>"

text \<open>One step of the running handler that is not a callback returning.\<close>

fun handler_runs :: "ws_handler \<Rightarrow> ws \<Rightarrow> ws option" where
  "handler_runs H_none s = None"
| "handler_runs H_begin s = Some (begin_session s)"
| "handler_runs H_abort s = Some (abort_session s)"
| "handler_runs H_shaken s = Some (shaken s)"
| "handler_runs H_connect s = Some (connect s)"
| "handler_runs (H_completion failed) s = Some (completion failed s)"
| "handler_runs (H_completed failed prev) s = Some (completed failed prev s)"
| "handler_runs (H_read_error report) s = Some (read_error report s)"
| "handler_runs H_read_status s = Some (read_status s)"
| "handler_runs H_read_store s = Some (s\<lparr>ws_status := DISCONNECTED, handler := H_check On_disconnected A_release\<rparr>)"
| "handler_runs (H_data bs) s = Some (read_data bs s)"
| "handler_runs (H_write_error report) s = Some (write_error report s)"
| "handler_runs (H_close_done report) s = Some (close_done report s)"
| "handler_runs H_close_store s = Some (s\<lparr>ws_status := DISCONNECTED, handler := H_check On_disconnected A_end\<rparr>)"
| "handler_runs H_release s = Some (release_buffer (s\<lparr>handler := H_none\<rparr>))"
| "handler_runs (H_check c k) s = Some (s\<lparr>handler := (if detached s then H_after k else H_about c k)\<rparr>)"
| "handler_runs (H_about c k) s = Some (happens (Calls c) (s\<lparr>handler := H_in c k\<rparr>))"
| "handler_runs (H_in c k) s = None"
| "handler_runs (H_after k) s = Some (after_callback k s)"

text \<open>
  A callback that throws a \<open>std::exception\<close>: out of the coroutine it becomes the argument of the completion
  handler, out of any other handler it is logged by the service loop.
\<close>

definition callback_throws :: "ws_callback \<Rightarrow> ws_after \<Rightarrow> ws \<Rightarrow> ws" where
  "callback_throws c k s = happens (Threw c)
     (if k = A_connected then s\<lparr>handler := H_none, coroutine := Finished True\<rparr> else s\<lparr>handler := H_none\<rparr>)"

section \<open>Moves\<close>

datatype ws_move =
    Opens                   \<comment> \<open>\<open>Impl::open\<close>, once for each \<open>Impl\<close>\<close>
  | Closes                  \<comment> \<open>\<open>close\<close> of another thread, up to its compare-exchange\<close>
  | Posts_close             \<comment> \<open>the rest of it\<close>
  | Closes_inside           \<comment> \<open>a callback of this session calls \<open>close\<close>\<close>
  | Detaches
  | Cancels                 \<comment> \<open>\<open>cancel_open\<close>\<close>
  | Registers               \<comment> \<open>\<open>set_on_buffer_released\<close>\<close>
  | Service bool            \<comment> \<open>the service is started or stopped\<close>
  | Resumes                 \<comment> \<open>the awaited operation succeeded\<close>
  | Await_fails bool        \<comment> \<open>it failed; with \<open>websocket::error::closed\<close>?\<close>
  | Completes               \<comment> \<open>the completion handler is run\<close>
  | Reads string            \<comment> \<open>\<open>on_read\<close> without error\<close>
  | Read_fails bool         \<comment> \<open>\<open>on_read\<close> with an error; one that is reported while CONNECTED?\<close>
  | Writes                  \<comment> \<open>\<open>do_write\<close> starts a write\<close>
  | Written                 \<comment> \<open>\<open>on_write\<close> without error\<close>
  | Write_fails bool
  | Runs_close              \<comment> \<open>the posted close handler runs\<close>
  | Close_ends bool         \<comment> \<open>\<open>on_close\<close>\<close>
  | Runs                    \<comment> \<open>the running handler goes on\<close>
  | Returns                 \<comment> \<open>the running callback returns\<close>
  | Throws                  \<comment> \<open>the running callback throws\<close>

text \<open>The service thread starts a handler when none is running.\<close>

definition idle_do :: "bool \<Rightarrow> ws \<Rightarrow> ws \<Rightarrow> ws option" where
  "idle_do enabled s t = (if handler s = H_none \<and> enabled then Some t else None)"

fun ws_moved :: "ws_move \<Rightarrow> ws \<Rightarrow> ws option" where
  "ws_moved Opens s = (if unopened s then Some (open_impl s) else None)"
| "ws_moved Closes s = (if session_started s then (case close_swap s of None \<Rightarrow> Some s | Some t \<Rightarrow> Some t) else None)"
| "ws_moved Posts_close s = Some (close_post s)"
| "ws_moved Closes_inside s = (case handler s of H_in c k \<Rightarrow> Some (close s) | _ \<Rightarrow> None)"
| "ws_moved Detaches s = Some (s\<lparr>detached := True\<rparr>)"
| "ws_moved Cancels s = Some (s\<lparr>open_cancelled := True\<rparr>)"
| "ws_moved Registers s =
     (if Handed_over \<in> set (trace s) \<or> release_state s = KCallbackSet then None else Some (set_on_buffer_released s))"
| "ws_moved (Service up) s = Some (s\<lparr>service_up := up\<rparr>)"
| "ws_moved Resumes s = (case coroutine s of Awaiting a \<Rightarrow> idle_do True s (resumed a s) | _ \<Rightarrow> None)"
| "ws_moved (Await_fails closed) s = (case coroutine s of
     Awaiting a \<Rightarrow> (if handler s = H_none then await_failed a closed s else None) | _ \<Rightarrow> None)"
| "ws_moved Completes s = (case coroutine s of
     Finished failed \<Rightarrow> idle_do True s (s\<lparr>coroutine := Over, handler := H_completion failed\<rparr>) | _ \<Rightarrow> None)"
| "ws_moved (Reads bs) s = idle_do (reading s) s (s\<lparr>reading := False, handler := H_data bs\<rparr>)"
| "ws_moved (Read_fails report) s = idle_do (reading s) s (s\<lparr>reading := False, handler := H_read_error report\<rparr>)"
| "ws_moved Writes s = idle_do (\<not> writing s \<and> ws_status s = CONNECTED) s (s\<lparr>writing := True\<rparr>)"
| "ws_moved Written s = idle_do (writing s) s (s\<lparr>writing := False\<rparr>)"
| "ws_moved (Write_fails report) s = idle_do (writing s) s (s\<lparr>writing := False, handler := H_write_error report\<rparr>)"
| "ws_moved Runs_close s = (if handler s = H_none then run_close s else None)"
| "ws_moved (Close_ends report) s = idle_do (close_handshake s) s (s\<lparr>close_handshake := False, handler := H_close_done report\<rparr>)"
| "ws_moved Runs s = handler_runs (handler s) s"
| "ws_moved Returns s = (case handler s of H_in c k \<Rightarrow> Some (s\<lparr>handler := H_after k\<rparr>) | _ \<Rightarrow> None)"
| "ws_moved Throws s = (case handler s of H_in c k \<Rightarrow> Some (callback_throws c k s) | _ \<Rightarrow> None)"

inductive ws_step :: "ws \<Rightarrow> ws \<Rightarrow> bool" where
  move: "ws_moved m s = Some t \<Longrightarrow> ws_step s t"

inductive_cases ws_stepE: "ws_step s t"

fun ws_schedule :: "ws_move list \<Rightarrow> ws \<Rightarrow> ws option" where
  "ws_schedule [] s = Some s"
| "ws_schedule (m # ms) s = (case ws_moved m s of None \<Rightarrow> None | Some t \<Rightarrow> ws_schedule ms t)"

lemma ws_schedule_steps: "ws_schedule ms s = Some t \<Longrightarrow> ws_step\<^sup>*\<^sup>* s t"
proof (induction ms arbitrary: s)
  case (Cons m ms)
  show ?case
  proof (cases "ws_moved m s")
    case None
    then show ?thesis using Cons.prems by simp
  next
    case (Some u)
    then have "ws_step\<^sup>*\<^sup>* u t" using Cons by simp
    with ws_step.move [OF Some] show ?thesis by (rule converse_rtranclp_into_rtranclp)
  qed
qed simp

end
