(* ===== verification/Ws_System.thy ===== *)
theory Ws_System
  imports Ws_Service_Ends Ws_Session
begin

text \<open>
  All WebSocket sessions of a program (\<open>detail/websocket_impl.hpp\<close>) on the one service thread (\<open>websocket.cpp\<close>): the loop of
  \<open>Ws_Service\<close> runs the handlers of the sessions of \<open>Ws_Session\<close>, whose callbacks may call start, stop and
  \<open>set_busy_poll\<close> again, while application threads do the same and open, close and detach sessions.
\<close>

section \<open>State\<close>

record ws_system =
  service :: ws_service
  ws_sessions :: "ws list"
  running :: "nat option"        \<comment> \<open>the session whose handler the service thread is in\<close>

text \<open>\<open>n\<close> application threads, and sessions over shared or own buffers, with or without TLS, deferred or not.\<close>

definition ws_system_init :: "nat \<Rightarrow> (bool \<times> bool \<times> bool) list \<Rightarrow> ws_system" where
  "ws_system_init n kinds =
     \<lparr>service = ws_service_init n, ws_sessions = map (\<lambda>(shared, tls, pending). ws_init shared tls pending) kinds, running = None\<rparr>"

section \<open>Steps\<close>

text \<open>The moves of a session by which the service thread takes one of its handlers, and those of a handler that runs.\<close>

fun starts_handler :: "ws_move \<Rightarrow> bool" where
  "starts_handler Resumes = True"
| "starts_handler (Await_fails closed) = True"
| "starts_handler Completes = True"
| "starts_handler (Reads bs) = True"
| "starts_handler (Read_fails report) = True"
| "starts_handler Writes = True"
| "starts_handler Written = True"
| "starts_handler (Write_fails report) = True"
| "starts_handler Runs_close = True"
| "starts_handler (Close_ends report) = True"
| "starts_handler m = False"

fun continues_handler :: "ws_move \<Rightarrow> bool" where
  "continues_handler Runs = True"
| "continues_handler Returns = True"
| "continues_handler Throws = True"
| "continues_handler Closes_inside = True"
| "continues_handler m = False"

text \<open>What any thread does to a session.\<close>

fun from_outside :: "ws_move \<Rightarrow> bool" where
  "from_outside Opens = True"
| "from_outside Closes = True"
| "from_outside Posts_close = True"
| "from_outside Detaches = True"
| "from_outside Cancels = True"
| "from_outside Registers = True"
| "from_outside m = False"

text \<open>Session \<open>n\<close> moves, with what \<open>websocket_running()\<close> says at that moment.\<close>

definition session_moves :: "nat \<Rightarrow> ws_move \<Rightarrow> ws_system \<Rightarrow> ws_system option" where
  "session_moves n m s =
     (if n < length (ws_sessions s)
      then map_option (\<lambda>t. s\<lparr>ws_sessions := (ws_sessions s)[n := t]\<rparr>)
        (ws_moved m ((ws_sessions s ! n)\<lparr>service_up := run_flag (service s)\<rparr>))
      else None)"

definition in_user_code :: "ws_system \<Rightarrow> bool" where
  "in_user_code s \<longleftrightarrow> (case running s of None \<Rightarrow> False
     | Some n \<Rightarrow> (case handler (ws_sessions s ! n) of H_in c k \<Rightarrow> True | H_release \<Rightarrow> True | _ \<Rightarrow> False))"

text \<open>
  The service on its own: calls of application threads; calls in a callback, or in the \<open>open()\<close> of the session a buffer is
  handed to; the loop while it takes no handler.
\<close>

fun service_alone :: "ws_service_move \<Rightarrow> ws_system \<Rightarrow> bool" where
  "service_alone (Starts_service w) s \<longleftrightarrow> \<not> on_service_thread w \<or> in_user_code s"
| "service_alone (Stops_service w) s \<longleftrightarrow> \<not> on_service_thread w \<or> in_user_code s"
| "service_alone (Sets_busy w enable) s \<longleftrightarrow> \<not> on_service_thread w \<or> in_user_code s"
| "service_alone (Loop_goes k calls) s \<longleftrightarrow> \<not> calls"
| "service_alone (Callback_ends k throws) s \<longleftrightarrow> False"
| "service_alone m s \<longleftrightarrow> True"

text \<open>No call of the service is in progress in the callback, so the handler itself goes on.\<close>

definition at_handler :: "nat \<Rightarrow> ws_service \<Rightarrow> bool" where
  "at_handler k v \<longleftrightarrow> call_of (On_thread k) v = Some No_call"

datatype ws_system_move =
    Service_moves ws_service_move
  | Takes_handler nat nat ws_move      \<comment> \<open>service thread, session\<close>
  | Handler_goes nat ws_move
  | Handler_ends nat bool              \<comment> \<open>it returns or throws\<close>
  | Outside_moves nat ws_move

fun system_moves :: "ws_system_move \<Rightarrow> ws_system \<Rightarrow> ws_system option" where
  "system_moves (Service_moves m) s =
     (if service_alone m s then map_option (\<lambda>v. s\<lparr>service := v\<rparr>) (service_moved m (service s)) else None)"
| "system_moves (Takes_handler k n m) s =
     (if starts_handler m
      then Option.bind (session_moves n m s) (\<lambda>t.
        Option.bind (service_moved (Loop_goes k True) (service s)) (\<lambda>v.
          if at_handler k v then Some (t\<lparr>service := v, running := Some n\<rparr>) else None))
      else None)"
| "system_moves (Handler_goes k m) s =
     (if continues_handler m \<and> at_handler k (service s)
      then (case running s of None \<Rightarrow> None | Some n \<Rightarrow> session_moves n m s) else None)"
| "system_moves (Handler_ends k throws) s =
     (case running s of
        None \<Rightarrow> None
      | Some n \<Rightarrow>
          if handler (ws_sessions s ! n) = H_none
          then map_option (\<lambda>v. s\<lparr>service := v, running := None\<rparr>) (service_moved (Callback_ends k throws) (service s))
          else None)"
| "system_moves (Outside_moves n m) s = (if from_outside m then session_moves n m s else None)"

inductive ws_system_step :: "ws_system \<Rightarrow> ws_system \<Rightarrow> bool" where
  move: "system_moves m s = Some t \<Longrightarrow> ws_system_step s t"

inductive_cases ws_system_stepE: "ws_system_step s t"

fun system_schedule :: "ws_system_move list \<Rightarrow> ws_system \<Rightarrow> ws_system option" where
  "system_schedule [] s = Some s"
| "system_schedule (m # ms) s = (case system_moves m s of None \<Rightarrow> None | Some t \<Rightarrow> system_schedule ms t)"

lemma system_schedule_steps: "system_schedule ms s = Some t \<Longrightarrow> ws_system_step\<^sup>*\<^sup>* s t"
proof (induction ms arbitrary: s)
  case (Cons m ms)
  then obtain u where "system_moves m s = Some u" "system_schedule ms u = Some t"
    by (auto simp del: system_moves.simps split: option.splits)
  with Cons.IH show ?case by (meson converse_rtranclp_into_rtranclp ws_system_step.move)
qed simp

section \<open>Frames\<close>

lemma session_movesD:
  assumes "session_moves n m s = Some t"
  shows "n < length (ws_sessions s)"
    "\<exists>u. ws_moved m ((ws_sessions s ! n)\<lparr>service_up := run_flag (service s)\<rparr>) = Some u \<and> t = s\<lparr>ws_sessions := (ws_sessions s)[n := u]\<rparr>"
  using assms by (auto simp: session_moves_def split: if_splits)

definition one_session_moves :: "ws_system \<Rightarrow> ws_system \<Rightarrow> bool" where
  "one_session_moves s t \<longleftrightarrow> ws_sessions t = ws_sessions s
     \<or> (\<exists>n u. n < length (ws_sessions s) \<and> ws_step\<^sup>*\<^sup>* (ws_sessions s ! n) u \<and> ws_sessions t = (ws_sessions s)[n := u])"

lemma session_moves_one:
  assumes "session_moves n m s = Some t" "ws_sessions u = ws_sessions t"
  shows "one_session_moves s u"
proof -
  let ?v = "(ws_sessions s ! n)\<lparr>service_up := run_flag (service s)\<rparr>"
  obtain w where w: "ws_moved m ?v = Some w" "ws_sessions u = (ws_sessions s)[n := w]"
    using session_movesD(2) [OF assms(1)] assms(2) by auto
  have "ws_moved (Service (run_flag (service s))) (ws_sessions s ! n) = Some ?v" by simp
  then have "ws_step (ws_sessions s ! n) ?v" by (rule ws_step.move)
  then have "ws_step\<^sup>*\<^sup>* (ws_sessions s ! n) w" using ws_step.move [OF w(1)] by (meson converse_rtranclp_into_rtranclp r_into_rtranclp)
  then show ?thesis using session_movesD(1) [OF assms(1)] w(2) unfolding one_session_moves_def by blast
qed

lemma system_moves_session:
  assumes "system_moves m s = Some t"
  shows "one_session_moves s t"
proof (cases m)
  case (Takes_handler k n c)
  then obtain u where "session_moves n c s = Some u" "ws_sessions t = ws_sessions u"
    using assms by (auto simp: bind_eq_Some_conv simp del: service_moved.simps split: if_splits)
  then show ?thesis by (rule session_moves_one)
next
  case (Handler_goes k c)
  then obtain n where "session_moves n c s = Some t" using assms by (auto split: if_splits option.splits)
  then show ?thesis by (rule session_moves_one) simp
next
  case (Outside_moves n c)
  then have "session_moves n c s = Some t" using assms by (simp split: if_splits)
  then show ?thesis by (rule session_moves_one) simp
qed (use assms in \<open>auto simp: one_session_moves_def simp del: service_moved.simps split: if_splits option.splits\<close>)

end
