(* ===== verification/Ws_System_Props.thy ===== *)
theory Ws_System_Props
  imports Ws_System
begin

text \<open>
  What the one service thread gives its sessions: each still runs as \<open>Ws_Session\<close> has it, at most one handler runs at a
  time, on that thread, and none while the service is stopped.
\<close>

section \<open>Every session runs as a session\<close>

definition sessions_run :: "(bool \<times> bool \<times> bool) list \<Rightarrow> ws_system \<Rightarrow> bool" where
  "sessions_run kinds s \<longleftrightarrow> length (ws_sessions s) = length kinds \<and>
     (\<forall>n < length kinds. case kinds ! n of (shared, tls, pending) \<Rightarrow> reachable (ws_init shared tls pending) ws_step (ws_sessions s ! n))"

lemma sessions_run_moves:
  assumes "sessions_run kinds s" "one_session_moves s t"
  shows "sessions_run kinds t"
proof -
  consider "ws_sessions t = ws_sessions s"
    | n u where "n < length (ws_sessions s)" "ws_step\<^sup>*\<^sup>* (ws_sessions s ! n) u" "ws_sessions t = (ws_sessions s)[n := u]"
    using assms(2) unfolding one_session_moves_def by blast
  then show ?thesis
  proof cases
    case 2
    then show ?thesis using assms(1) steps_reachable [OF 2(2)] by (auto simp: sessions_run_def nth_list_update)
  qed (use assms(1) in \<open>simp add: sessions_run_def\<close>)
qed

interpretation system_sessions: inductive_invariant "ws_system_init n kinds" ws_system_step "sessions_run kinds" for n kinds
proof unfold_locales
  show "sessions_run kinds (ws_system_init n kinds)"
    by (auto simp: sessions_run_def ws_system_init_def intro: reachable.start split: prod.split)
qed (auto elim!: ws_system_stepE intro: sessions_run_moves dest: system_moves_session)

section \<open>One handler at a time\<close>

fun is_callback :: "loop_pc \<Rightarrow> bool" where
  "is_callback (Callback polling pc) = True"
| "is_callback l = False"

definition callback_on :: "ws_service \<Rightarrow> nat \<Rightarrow> bool" where
  "callback_on v k \<longleftrightarrow> k < length (loops v) \<and> is_callback (loops v ! k)"

lemma callback_on_call_at [simp]: "callback_on (call_at w pc v) k = callback_on v k"
proof (cases "k < length (loops v)")
  case True
  then have "same_place (loops v ! k) (loops (call_at w pc v) ! k)" by (rule same_place_call_at)
  then show ?thesis using True by (cases "loops v ! k") (auto simp: callback_on_def)
qed (simp add: callback_on_def)

lemma callback_on_simps [simp]:
  "callback_on (v\<lparr>phase := p\<rparr>) k = callback_on v k" "callback_on (v\<lparr>run_flag := b\<rparr>) k = callback_on v k"
  "callback_on (v\<lparr>busy_poll := b\<rparr>) k = callback_on v k" "callback_on (v\<lparr>ioc_stopped := b\<rparr>) k = callback_on v k"
  "callback_on (v\<lparr>thread_object := x\<rparr>) k = callback_on v k" "callback_on (v\<lparr>aborted := b\<rparr>) k = callback_on v k"
  by (simp_all add: callback_on_def)

lemma callback_on_loop:
  assumes "loops u = (loops v)[k := l]" "is_callback l = is_callback (loops v ! k)"
  shows "callback_on u j = callback_on v j"
  using assms by (cases "j = k") (auto simp: callback_on_def)

lemma call_goes_callback:
  assumes "call_goes w pc v = Some u"
  shows "callback_on u k = callback_on v k"
proof (cases pc)
  case Start_thread
  then have "u = create_thread w v" using assms by simp
  moreover have "callback_on (v\<lparr>aborted := a, thread_object := x, loops := loops v @ [Loop_begin]\<rparr>) k = callback_on v k" for a x
    by (auto simp: callback_on_def nth_append)
  ultimately show ?thesis by (simp add: create_thread_def)
qed (use assms in \<open>auto simp: start_turn_def stop_turn_def request_stop_def join_thread_def
    simp del: call_at.simps split: if_splits option.splits\<close>)

lemma loop_goes_callback:
  assumes "loop_goes k (loops v ! k) False v = Some u"
  shows "callback_on u j = callback_on v j"
proof -
  obtain l where "loops u = (loops v)[k := l]" "is_callback l = is_callback (loops v ! k)"
    using assms by (cases "loops v ! k") (auto simp: loop_at_def split: if_splits)
  then show ?thesis by (rule callback_on_loop)
qed

lemma service_alone_callback:
  assumes "service_alone m s" "service_moved m v = Some u"
  shows "callback_on u k = callback_on v k"
proof (cases m)
  case (Call_goes w)
  then show ?thesis using assms(2) call_goes_callback by (auto split: option.splits)
next
  case (Loop_goes j calls)
  then show ?thesis using assms loop_goes_callback by (auto split: if_splits)
next
  case (Sets_busy w enable)
  then show ?thesis using assms(2) by (auto simp: set_busy_poll_def simp del: call_at.simps split: if_splits)
qed (use assms in \<open>auto simp del: call_at.simps split: if_splits option.splits call_pc.splits\<close>)

lemma one_callback:
  assumes "service_inv v" "callback_on v j" "k < length (loops v)" "loops v ! k \<noteq> Gone"
  shows "j = k"
proof -
  have "loops v ! j \<noteq> Gone" using assms(2) by (auto simp: callback_on_def)
  then have "thread_object v = Some j" using held_thread [OF assms(1)] assms(2) by (simp add: callback_on_def)
  moreover have "thread_object v = Some k" using held_thread [OF assms(1,3,4)] .
  ultimately show ?thesis by simp
qed

lemma outside_handler: "from_outside m \<Longrightarrow> ws_moved m s = Some t \<Longrightarrow> handler t = handler s"
  by (cases m) (auto simp: open_impl_def Let_def release_buffer_def close_swap_def close_post_def set_on_buffer_released_def happens_def
      split: if_splits ws_closing.splits)

definition system_inv :: "ws_system \<Rightarrow> bool" where
  "system_inv s \<longleftrightarrow> service_inv (service s)
     \<and> (\<forall>n < length (ws_sessions s). handler (ws_sessions s ! n) \<noteq> H_none \<longrightarrow> running s = Some n)
     \<and> (running s \<noteq> None \<longleftrightarrow> (\<exists>k. callback_on (service s) k))"

lemma system_invD:
  assumes "system_inv s"
  shows "service_inv (service s)" "n < length (ws_sessions s) \<Longrightarrow> handler (ws_sessions s ! n) \<noteq> H_none \<Longrightarrow> running s = Some n"
    "running s \<noteq> None \<longleftrightarrow> (\<exists>k. callback_on (service s) k)"
  using assms by (simp_all add: system_inv_def)

lemma takes_handler_inv:
  assumes inv: "system_inv s" and t: "session_moves n m s = Some u" "service_moved (Loop_goes k True) (service s) = Some v" "at_handler k v"
  shows "system_inv (u\<lparr>service := v, running := Some n\<rparr>)"
proof -
  have k: "k < length (loops (service s))" "loop_goes k (loops (service s) ! k) True (service s) = Some v" using t(2) by (auto split: if_splits)
  have "loops (service s) ! k \<noteq> Gone" "\<not> is_callback (loops (service s) ! k)" using k(2) by (cases "loops (service s) ! k"; simp)+
  then have "\<not> callback_on (service s) j" for j
    using one_callback [OF system_invD(1) [OF inv], of j k] k(1) by (auto simp: callback_on_def)
  then have idle: "running s = None" using system_invD(3) [OF inv] by blast
  obtain w where u: "u = s\<lparr>ws_sessions := (ws_sessions s)[n := w]\<rparr>" using session_movesD(2) [OF t(1)] by blast
  have "handler ((ws_sessions s)[n := w] ! j) = H_none" if "j < length (ws_sessions s)" "j \<noteq> n" for j
    using that idle system_invD(2) [OF inv, of j] by auto
  then have "j = n" if "j < length (ws_sessions s)" "handler ((ws_sessions s)[n := w] ! j) \<noteq> H_none" for j
    using that by blast
  moreover have "service_inv v" by (rule service_moved_inv [OF system_invD(1) [OF inv] t(2)])
  moreover have "callback_on v k" using t(3) by (auto simp: at_handler_def callback_on_def split: if_splits loop_pc.splits)
  ultimately show ?thesis using u by (auto simp: system_inv_def)
qed

lemma handler_ends_inv:
  assumes inv: "system_inv s" and n: "running s = Some n" "handler (ws_sessions s ! n) = H_none"
    and v: "service_moved (Callback_ends k throws) (service s) = Some v"
  shows "system_inv (s\<lparr>service := v, running := None\<rparr>)"
proof -
  obtain p l where l: "k < length (loops (service s))" "loops (service s) ! k = Callback p No_call" "v = loop_at k l (service s)"
      "\<not> is_callback l"
    using callback_ends_shape [OF v] by auto
  have "\<not> callback_on v j" for j
  proof
    assume j: "callback_on v j"
    then have "j \<noteq> k" using l by (auto simp: callback_on_def loop_at_def)
    moreover have "callback_on (service s) j" using j \<open>j \<noteq> k\<close> l(3) by (simp add: callback_on_def loop_at_def)
    ultimately show False using one_callback [OF system_invD(1) [OF inv], of j k] l(1,2) by simp
  qed
  moreover have "handler (ws_sessions s ! j) = H_none" if "j < length (ws_sessions s)" for j
    using system_invD(2) [OF inv that] n by (cases "j = n") auto
  moreover have "service_inv v" by (rule service_moved_inv [OF system_invD(1) [OF inv] v])
  ultimately show ?thesis by (simp add: system_inv_def)
qed

lemma session_moves_inv:
  assumes inv: "system_inv s" and t: "session_moves n m s = Some t" and "from_outside m \<or> running s = Some n"
  shows "system_inv t"
proof -
  obtain u where u: "ws_moved m ((ws_sessions s ! n)\<lparr>service_up := run_flag (service s)\<rparr>) = Some u"
      "t = s\<lparr>ws_sessions := (ws_sessions s)[n := u]\<rparr>"
    using session_movesD(2) [OF t] by blast
  have "running s = Some j" if "j < length (ws_sessions s)" "handler ((ws_sessions s)[n := u] ! j) \<noteq> H_none" for j
  proof (cases "j = n")
    case True
    then show ?thesis using assms(3) that outside_handler [OF _ u(1)] system_invD(2) [OF inv that(1)] by auto
  next
    case False
    then show ?thesis using that system_invD(2) [OF inv that(1)] by simp
  qed
  then show ?thesis using system_invD(1,3) [OF inv] u(2) by (simp add: system_inv_def)
qed

lemma system_moves_inv:
  assumes inv: "system_inv s" and moves: "system_moves m s = Some t"
  shows "system_inv t"
proof (cases m)
  case (Service_moves sm)
  then obtain v where v: "service_alone sm s" "service_moved sm (service s) = Some v" "t = s\<lparr>service := v\<rparr>"
    using moves by (auto simp del: service_moved.simps split: if_splits)
  have "service_inv v" by (rule service_moved_inv [OF system_invD(1) [OF inv] v(2)])
  then show ?thesis using inv v(3) service_alone_callback [OF v(1,2)] by (simp add: system_inv_def)
next
  case (Takes_handler k n sm)
  then obtain u v where "session_moves n sm s = Some u" "service_moved (Loop_goes k True) (service s) = Some v" "at_handler k v"
      "t = u\<lparr>service := v, running := Some n\<rparr>"
    using moves by (auto simp: bind_eq_Some_conv simp del: service_moved.simps split: if_splits)
  then show ?thesis using takes_handler_inv [OF inv] by blast
next
  case (Handler_goes k sm)
  then show ?thesis using moves session_moves_inv [OF inv] by (auto split: if_splits option.splits)
next
  case (Handler_ends k throws)
  then obtain n v where "running s = Some n" "handler (ws_sessions s ! n) = H_none"
      "service_moved (Callback_ends k throws) (service s) = Some v" "t = s\<lparr>service := v, running := None\<rparr>"
    using moves by (auto simp del: service_moved.simps split: if_splits option.splits)
  then show ?thesis using handler_ends_inv [OF inv] by blast
next
  case (Outside_moves n sm)
  then show ?thesis using moves session_moves_inv [OF inv] by (auto split: if_splits)
qed

interpretation ws_system: inductive_invariant "ws_system_init n kinds" ws_system_step system_inv for n kinds
proof unfold_locales
  have "handler (ws_sessions (ws_system_init n kinds) ! j) = H_none" if "j < length kinds" for j
    using that by (simp add: ws_system_init_def ws_init_def split: prod.split)
  moreover have "running (ws_system_init n kinds) = None" "loops (service (ws_system_init n kinds)) = []"
      "length (ws_sessions (ws_system_init n kinds)) = length kinds" "service_inv (service (ws_system_init n kinds))"
    using service_inv_init by (simp_all add: ws_system_init_def) (simp add: ws_service_init_def)
  ultimately show "system_inv (ws_system_init n kinds)" by (simp add: system_inv_def callback_on_def)
qed (auto elim!: ws_system_stepE intro: system_moves_inv)

section \<open>Property\<close>

text \<open>
  C13. However many WebSockets a program has and whatever starts and stops come between, each session runs as \<open>Ws_Session\<close> has
  it; at most one of them is in a handler, a callback say, at a time, and then the one service thread there is runs it: the
  service is not stopped, and no call is about to store that it is.
\<close>
theorem one_handler_at_a_time:
  assumes "reachable (ws_system_init c kinds) ws_system_step s" "n < length kinds" "kinds ! n = (shared, tls, pending)"
  shows "reachable (ws_init shared tls pending) ws_step (ws_sessions s ! n)
    \<and> (handler (ws_sessions s ! n) \<noteq> H_none \<longrightarrow>
        (\<forall>m. m < length kinds \<and> handler (ws_sessions s ! m) \<noteq> H_none \<longrightarrow> m = n)
        \<and> (\<exists>k. callback_on (service s) k \<and> thread_object (service s) = Some k)
        \<and> phase (service s) \<noteq> Stopped_phase \<and> (\<forall>w. call_of w (service s) \<noteq> Some Stop_done))"
proof -
  have run: "length (ws_sessions s) = length kinds" "reachable (ws_init shared tls pending) ws_step (ws_sessions s ! n)"
    using system_sessions.reachable_inv [OF assms(1)] assms(2,3) by (auto simp: sessions_run_def)
  have inv: "system_inv s" by (rule ws_system.reachable_inv [OF assms(1)])
  note service = system_invD(1) [OF inv]
  have "(\<exists>k. callback_on (service s) k \<and> thread_object (service s) = Some k)
      \<and> phase (service s) \<noteq> Stopped_phase \<and> (\<forall>w. call_of w (service s) \<noteq> Some Stop_done)"
    if "handler (ws_sessions s ! n) \<noteq> H_none"
  proof -
    have "running s = Some n" using system_invD(2) [OF inv _ that] run(1) assms(2) by simp
    then obtain k where k: "callback_on (service s) k" using system_invD(3) [OF inv] by auto
    then have "loops (service s) ! k \<noteq> Gone" by (auto simp: callback_on_def)
    then have held: "thread_object (service s) = Some k" using held_thread [OF service] k by (simp add: callback_on_def)
    moreover have "phase (service s) \<noteq> Stopped_phase" using service_invD(4) [OF service] held by (auto simp: phase_ok_def)
    moreover have "call_of w (service s) \<noteq> Some Stop_done" for w
      using service_invD(2) [OF service, of w Stop_done] held by (auto simp: call_ok_def)
    ultimately show ?thesis using k by blast
  qed
  moreover have "m = n" if "handler (ws_sessions s ! n) \<noteq> H_none" "m < length kinds" "handler (ws_sessions s ! m) \<noteq> H_none" for m
    using system_invD(2) [OF inv, of n] system_invD(2) [OF inv, of m] that run(1) assms(2) by simp
  ultimately show ?thesis using run(2) by blast
qed

text \<open>The first of two sessions begins on the service thread.\<close>

definition first_begins :: "ws_system_move list" where
  "first_begins = [Outside_moves 0 Opens, Service_moves (Starts_service (App 0)), Service_moves (Call_goes (App 0)),
     Service_moves (Call_goes (App 0)), Service_moves (Call_goes (App 0)), Service_moves (Call_goes (App 0)),
     Service_moves (Loop_goes 0 False), Service_moves (Loop_goes 0 False), Service_moves (Loop_goes 0 False),
     Takes_handler 0 0 Resumes]"

theorem one_handler_at_a_time_witness:
  "\<exists>s. system_schedule first_begins (ws_system_init 1 [(False, False, False), (True, True, False)]) = Some s
     \<and> handler (ws_sessions s ! 0) = H_begin \<and> handler (ws_sessions s ! 1) = H_none \<and> phase (service s) \<noteq> Stopped_phase"
proof -
  let ?i = "ws_system_init 1 [(False, False, False), (True, True, False)]"
  obtain s where s: "system_schedule first_begins ?i = Some s" "handler (ws_sessions s ! 0) = H_begin"
    by (simp add: first_begins_def ws_system_init_def ws_service_init_def ws_init_def session_moves_def open_impl_def
        start_turn_def create_thread_def loop_at_def at_handler_def idle_do_def Let_def)
  have "reachable ?i ws_system_step s" by (rule steps_reachable [OF system_schedule_steps [OF s(1)] reachable.start])
  from one_handler_at_a_time [OF this, of 0 False False False] one_handler_at_a_time [OF this, of 1 True True False] s
  show ?thesis by auto
qed

end
