(* ===== verification/Stream_State.thy ===== *)
theory Stream_State
  imports Transitions "HOL-Library.Word"
begin

text \<open>
  \<open>HttpStream::state_\<close> (\<open>src/http_stream.cpp\<close>): one 64-bit word that packs the generation of a stream, the
  number of \<open>open()\<close> calls that started a session, above its \<open>Status\<close>; and the compare-and-swap loops of
  \<open>open\<close> and \<open>end_generation\<close> that change it.
\<close>

unbundle bit_operations_syntax

section \<open>Layout\<close>

text \<open>
  \<open>HttpStream::Status\<close> is a \<open>uint8_t\<close> enum of three values; \<^term>\<open>status_of\<close> can meet a fourth bit pattern, which
  has no enumerator.
\<close>

datatype status = CONNECTING | CONNECTED | DISCONNECTED | No_status

fun status_bits :: "status \<Rightarrow> 64 word" where
  "status_bits CONNECTING = 0"
| "status_bits CONNECTED = 1"
| "status_bits DISCONNECTED = 2"
| "status_bits No_status = 3"

definition make_state :: "64 word \<Rightarrow> status \<Rightarrow> 64 word" where
  "make_state generation status = push_bit 2 generation OR status_bits status"

definition generation_of :: "64 word \<Rightarrow> 64 word" where
  "generation_of state = drop_bit 2 state"

definition status_of :: "64 word \<Rightarrow> status" where
  "status_of state =
     (let b = state AND 3 in
      if b = 0 then CONNECTING else if b = 1 then CONNECTED else if b = 2 then DISCONNECTED else No_status)"

definition any_generation :: "64 word" where
  "any_generation = 0"

definition initial_state :: "64 word" where
  "initial_state = status_bits DISCONNECTED"

section \<open>Transitions\<close>

text \<open>
  The bodies of the two loops: from the value loaded, the value to swap in, or \<^term>\<open>None\<close> for the early return.
\<close>

definition open_update :: "64 word \<Rightarrow> 64 word option" where
  "open_update state =
     (if status_of state \<noteq> DISCONNECTED then None
      else Some (make_state (generation_of state + 1) CONNECTING))"

definition end_update :: "64 word \<Rightarrow> 64 word \<Rightarrow> 64 word option" where
  "end_update generation state =
     (if status_of state = DISCONNECTED \<or> generation \<noteq> any_generation \<and> generation_of state \<noteq> generation
      then None else Some (make_state (generation_of state) DISCONNECTED))"

definition is_current :: "64 word \<Rightarrow> 64 word \<Rightarrow> bool" where
  "is_current generation state \<longleftrightarrow> generation_of state = generation \<and> status_of state \<noteq> DISCONNECTED"

text \<open>
  The loops themselves, against other threads that change \<open>state_\<close> between the load and each
  compare-exchange.  The result says whether the loop swapped; \<open>end_generation\<close> returns it.
\<close>

definition open_loop :: "64 word \<Rightarrow> (64 word \<times> bool) list \<Rightarrow> 64 word cas_result option" where
  "open_loop = cas_loop open_update"

definition end_generation :: "64 word \<Rightarrow> 64 word \<Rightarrow> (64 word \<times> bool) list \<Rightarrow> 64 word cas_result option" where
  "end_generation generation = cas_loop (end_update generation)"

section \<open>Reading a packed state\<close>

lemma status_bits_and: "status_bits st AND 3 = status_bits st"
  by (cases st) simp_all

lemma status_bits_drop [simp]: "drop_bit 2 (status_bits st) = 0"
  by (cases st) (simp_all add: drop_bit_eq_div)

lemma push_and_3: "push_bit 2 (g :: 64 word) AND 3 = 0"
proof -
  have "(3 :: 64 word) = mask 2" by (simp add: mask_eq_exp_minus_1)
  then have "push_bit 2 g AND 3 = take_bit 2 (push_bit 2 g)" by (simp add: take_bit_eq_mask)
  then show ?thesis by (simp add: take_bit_push_bit)
qed

lemma status_of_make [simp]: "status_of (make_state g st) = st"
proof -
  have "make_state g st AND 3 = status_bits st"
    by (simp add: make_state_def bit.conj_disj_distrib2 push_and_3 status_bits_and)
  then show ?thesis by (cases st) (simp_all add: status_of_def)
qed

text \<open>A generation survives packing unless it needs one of the two bits that are shifted out.\<close>

lemma generation_of_make_mask: "generation_of (make_state g st) = take_bit 62 g"
proof -
  have "generation_of (make_state g st) = drop_bit 2 (push_bit 2 g)"
    by (simp add: generation_of_def make_state_def)
  also have "\<dots> = take_bit 62 g"
    by (rule bit_word_eqI) (auto simp: bit_simps)
  finally show ?thesis .
qed

lemma generation_of_less: "unat (generation_of state) < 2 ^ 62"
proof -
  have "unat (generation_of state) = unat state div 2 ^ 2"
    by (simp add: generation_of_def drop_bit_eq_div unat_div)
  moreover have "unat state < 2 ^ 64" using unsigned_less [of state, where 'a = nat] by simp
  ultimately show ?thesis by simp
qed

lemma generation_of_make [simp]: "generation_of (make_state (generation_of state) st) = generation_of state"
  unfolding generation_of_make_mask
  by (rule bit_word_eqI) (auto simp: generation_of_def bit_simps dest: bit_imp_le_length)

lemma unat_generation_next:
  assumes "unat (generation_of state) < 2 ^ 62 - 1"
  shows "unat (generation_of (make_state (generation_of state + 1) st)) = Suc (unat (generation_of state))"
proof -
  have "unat (generation_of state + 1) = Suc (unat (generation_of state))"
    using assms by (simp add: unat_word_ariths)
  then show ?thesis
    using assms by (simp add: generation_of_make_mask take_bit_eq_mod unat_mod)
qed

lemma initial_fields [simp]: "generation_of initial_state = 0" "status_of initial_state = DISCONNECTED"
  by (simp_all add: initial_state_def generation_of_def status_of_def drop_bit_eq_div)

lemma make_state_eqI:
  "generation_of x = generation_of y \<Longrightarrow> status_of x = status_of y \<Longrightarrow> x = y"
proof -
  assume g: "generation_of x = generation_of y" and s: "status_of x = status_of y"
  have low: "x AND 3 = status_bits (status_of x)" for x :: "64 word"
  proof -
    have three: "(3 :: 64 word) = mask 2" by (simp add: mask_eq_exp_minus_1)
    have "unat (x AND 3) = unat x mod 4"
      unfolding three by (simp add: take_bit_eq_mask [symmetric] take_bit_eq_mod unat_mod)
    then have "unat (x AND 3) < 4" by simp
    then have "unat (x AND 3) = unat (0 :: 64 word) \<or> unat (x AND 3) = unat (1 :: 64 word)
        \<or> unat (x AND 3) = unat (2 :: 64 word) \<or> unat (x AND 3) = unat (3 :: 64 word)"
      by auto
    then have "x AND 3 = 0 \<or> x AND 3 = 1 \<or> x AND 3 = 2 \<or> x AND 3 = 3"
      unfolding word_unat_eq_iff [symmetric] .
    then show ?thesis by (auto simp: status_of_def)
  qed
  show "x = y"
  proof (rule bit_word_eqI)
    fix n assume "n < LENGTH(64)"
    have hi: "bit x (2 + k) = bit y (2 + k)" for k
      using arg_cong [OF g, of "\<lambda>w. bit w k"] by (simp add: generation_of_def bit_simps)
    have lo: "bit (x AND 3) n = bit (y AND 3) n" using s by (simp add: low)
    have three: "(3 :: 64 word) = mask 2" by (simp add: mask_eq_exp_minus_1)
    show "bit x n = bit y n"
    proof (cases "n < 2")
      case True
      then show ?thesis using lo \<open>n < LENGTH(64)\<close> unfolding three by (simp add: bit_simps)
    next
      case False
      then have "2 + (n - 2) = n" by simp
      with hi [of "n - 2"] show ?thesis by (simp only:)
    qed
  qed
qed

lemma eq_make_state_iff:
  "unat g < 2 ^ 62 \<Longrightarrow> state = make_state g st \<longleftrightarrow> generation_of state = g \<and> status_of state = st"
proof -
  assume "unat g < 2 ^ 62"
  then have "take_bit 62 g = g" by (simp add: take_bit_eq_mod word_unat_eq_iff unat_mod)
  then have "generation_of (make_state g st) = g" by (simp add: generation_of_make_mask)
  then show ?thesis using make_state_eqI [of state "make_state g st"] by auto
qed

section \<open>The transitions, as generation and status\<close>

lemma open_update_Some:
  "open_update state = Some state' \<longleftrightarrow>
     status_of state = DISCONNECTED \<and> state' = make_state (generation_of state + 1) CONNECTING"
  by (auto simp: open_update_def)

lemma end_update_Some:
  "end_update g state = Some state' \<longleftrightarrow> (if g = any_generation then status_of state \<noteq> DISCONNECTED else is_current g state)
     \<and> state' = make_state (generation_of state) DISCONNECTED"
  by (auto simp: end_update_def is_current_def)

section \<open>Properties\<close>

text \<open>
  Packing is lossless for the first 2^62 - 1 generations: the generation and the status read back are the
  ones packed, and two states with the same generation and status are the same word.
\<close>
lemma state_packing:
  assumes "unat g < 2 ^ 62"
  shows "generation_of (make_state g st) = g \<and> status_of (make_state g st) = st
     \<and> (state = make_state g st \<longleftrightarrow> generation_of state = g \<and> status_of state = st)"
  using eq_make_state_iff [OF assms] by blast

lemma state_packing_witness:
  "generation_of (make_state 7 CONNECTED) = 7 \<and> make_state 7 CONNECTED = (29 :: 64 word)"
  using state_packing [of 7 CONNECTED "make_state 7 CONNECTED"] by (simp add: make_state_def)

text \<open>
  C32. \<open>end_generation\<close> is atomic against any other threads: it returns true exactly when, at the instant of its
  compare-exchange, its generation (or any one, for \<open>any_generation\<close>) was open, and then leaves that same
  generation DISCONNECTED; it returns false only if at some instant of the call it was not open.
\<close>
theorem end_generation_atomic:
  assumes "end_generation g seen env = Some r"
  shows "case r of
     Swapped old new \<Rightarrow> (old, False) \<in> set env
       \<and> (if g = any_generation then status_of old \<noteq> DISCONNECTED else is_current g old)
       \<and> generation_of new = generation_of old \<and> status_of new = DISCONNECTED
   | Stopped v \<Rightarrow> v \<in> insert seen (fst ` set env)
       \<and> \<not> (if g = any_generation then status_of v \<noteq> DISCONNECTED else is_current g v)"
proof (cases r)
  case (Stopped v)
  then have "end_update g v = None \<and> v \<in> insert seen (fst ` set env)"
    using assms cas_loop_Stopped by (simp add: end_generation_def)
  then show ?thesis using Stopped by (auto simp: end_update_def is_current_def split: if_splits)
next
  case (Swapped old new)
  then have "end_update g old = Some new \<and> (old, False) \<in> set env"
    using assms cas_loop_Swapped by (simp add: end_generation_def)
  then show ?thesis using Swapped by (simp add: end_update_Some)
qed

theorem end_generation_atomic_witness:
  "end_generation any_generation 4 [(5, False), (5, False)] = Some (Swapped 5 6)
   \<and> ((5, False) \<in> set [(5 :: 64 word, False), (5, False)] \<and> status_of 5 \<noteq> DISCONNECTED
     \<and> generation_of 6 = generation_of 5 \<and> status_of 6 = DISCONNECTED)"
proof -
  have "end_generation any_generation 4 [(5, False), (5, False)] = Some (Swapped 5 6)"
    by (simp add: end_generation_def end_update_def status_of_def generation_of_def make_state_def any_generation_def
        drop_bit_eq_div push_bit_eq_mult)
  with end_generation_atomic [OF this] show ?thesis by simp
qed

text \<open>
  \<open>open\<close> is atomic too: it starts a session exactly when the stream was DISCONNECTED at the instant of its
  compare-exchange, and then takes the next generation as CONNECTING; so no two calls start the same session.
\<close>
lemma open_atomic:
  assumes "open_loop seen env = Some r"
  shows "case r of
     Swapped old new \<Rightarrow> (old, False) \<in> set env \<and> status_of old = DISCONNECTED \<and> status_of new = CONNECTING
       \<and> (unat (generation_of old) < 2 ^ 62 - 1 \<longrightarrow> unat (generation_of new) = Suc (unat (generation_of old)))
   | Stopped v \<Rightarrow> v \<in> insert seen (fst ` set env) \<and> status_of v \<noteq> DISCONNECTED"
proof (cases r)
  case (Stopped v)
  then have "open_update v = None \<and> v \<in> insert seen (fst ` set env)"
    using assms cas_loop_Stopped by (simp add: open_loop_def)
  then show ?thesis using Stopped by (auto simp: open_update_def split: if_splits)
next
  case (Swapped old new)
  then have "open_update old = Some new \<and> (old, False) \<in> set env"
    using assms cas_loop_Swapped by (simp add: open_loop_def)
  then show ?thesis using Swapped unat_generation_next by (simp add: open_update_Some)
qed

lemma open_atomic_witness:
  "open_loop 2 [(6, False), (6, True), (6, False)] = Some (Swapped 6 8)
   \<and> ((6, False) \<in> set [(6, False), (6 :: 64 word, True), (6, False)] \<and> status_of 6 = DISCONNECTED
     \<and> status_of 8 = CONNECTING \<and> unat (generation_of 8) = Suc (unat (generation_of 6)))"
proof -
  have "open_loop 2 [(6, False), (6, True), (6, False)] = Some (Swapped 6 8)"
    by (simp add: open_loop_def open_update_def status_of_def generation_of_def make_state_def
        drop_bit_eq_div push_bit_eq_mult)
  moreover have "unat (generation_of 6) < 2 ^ 62 - 1" by (simp add: generation_of_def drop_bit_eq_div)
  ultimately show ?thesis using open_atomic [of 2 "[(6, False), (6, True), (6, False)]"] by simp
qed

end
