(* ===== verification/Sse_Parser.thy ===== *)
theory Sse_Parser
  imports Prelude
begin

text \<open>
  The incremental \<open>text/event-stream\<close> parser of \<open>include/slick/net/detail/sse_parser.hpp\<close>: its state,
  \<open>feed\<close>, \<open>reset\<close> and the private steps, and a line-based specification of what a body means.
\<close>

section \<open>State\<close>

datatype line_state = Field | Value_start | Value | Ignored

text \<open>\<open>matched_\<close> is a \<open>uint8_t\<close> that never exceeds 5 (\<open>sse_wf\<close> below), so it is a natural number here.\<close>

record sse_parser =
  sse_data :: string
  sse_state :: line_state
  sse_matched :: nat
  sse_after_cr :: bool

definition data_field :: string where
  "data_field = ''data:''"

definition sse_init :: sse_parser where
  "sse_init = \<lparr>sse_data = [], sse_state = Field, sse_matched = 0, sse_after_cr = False\<rparr>"

definition sse_reset :: "sse_parser \<Rightarrow> sse_parser" where
  "sse_reset p = p\<lparr>sse_data := [], sse_state := Field, sse_matched := 0, sse_after_cr := False\<rparr>"

section \<open>Operations\<close>

text \<open>\<open>find_line_end\<close>: the bytes up to the line ending (or the end of the piece), and the rest.\<close>

definition find_line_end :: "string \<Rightarrow> string \<times> string" where
  "find_line_end xs =
     (takeWhile (\<lambda>c. c \<noteq> LF \<and> c \<noteq> CR) xs, dropWhile (\<lambda>c. c \<noteq> LF \<and> c \<noteq> CR) xs)"

function consume_line_content :: "string \<Rightarrow> sse_parser \<Rightarrow> sse_parser" where
  "consume_line_content [] p = p"
| "consume_line_content (c # cs) p =
    (case sse_state p of
       Field \<Rightarrow>
         (if c \<noteq> data_field ! sse_matched p then p\<lparr>sse_state := Ignored\<rparr>
          else
            let q = p\<lparr>sse_matched := Suc (sse_matched p)\<rparr> in
            consume_line_content cs
              (if sse_matched q = length data_field
               then q\<lparr>sse_data := (if sse_data q \<noteq> [] then sse_data q @ [LF] else sse_data q),
                      sse_state := Value_start\<rparr>
               else q))
     | Value_start \<Rightarrow>
         consume_line_content (if c = SP then cs else c # cs) (p\<lparr>sse_state := Value\<rparr>)
     | Value \<Rightarrow> p\<lparr>sse_data := sse_data p @ (c # cs)\<rparr>
     | Ignored \<Rightarrow> p)"
  by pat_completeness auto
termination
  by (relation "measures [\<lambda>(cs, p). length cs, \<lambda>(cs, p). if sse_state p = Value_start then 1 else 0]")
    (auto simp: Let_def)

text \<open>
  The callback \<open>on_event\<close> takes the event data; it may change the state \<open>'s\<close> of the world and may
  return (\<^term>\<open>True\<close>) or throw (\<^term>\<open>False\<close>).  When it throws, \<open>end_line\<close> is left at the call: the data
  is not cleared and the line state not reset.
\<close>

type_synonym 's on_event = "string \<Rightarrow> 's \<Rightarrow> bool \<times> 's"

definition end_line :: "'s on_event \<Rightarrow> sse_parser \<Rightarrow> 's \<Rightarrow> bool \<times> sse_parser \<times> 's" where
  "end_line on_event p s =
     (if sse_state p = Field \<and> sse_matched p = 0 \<and> sse_data p \<noteq> []
      then (case on_event (sse_data p) s of (ok, s') \<Rightarrow>
              if ok then (True, p\<lparr>sse_data := [], sse_state := Field, sse_matched := 0\<rparr>, s')
              else (False, p, s'))
      else (True, p\<lparr>sse_state := Field, sse_matched := 0\<rparr>, s))"

text \<open>The loop of \<open>feed\<close>, from the pointer \<open>p\<close> to the end of the piece.\<close>

definition skip_lf :: "string \<Rightarrow> string" where
  "skip_lf xs = (case xs of [] \<Rightarrow> [] | c # cs \<Rightarrow> if c = LF then cs else xs)"

lemma length_skip_lf: "length (skip_lf xs) \<le> length xs"
  by (auto simp: skip_lf_def split: list.splits)

lemma find_line_end_less:
  "(ys, c # zs) = find_line_end xs \<Longrightarrow> length zs < length xs"
  "(ys, c # zs) = find_line_end xs \<Longrightarrow> length (skip_lf zs) < length xs"
  using length_dropWhile_le [of "\<lambda>c. c \<noteq> LF \<and> c \<noteq> CR" xs] length_skip_lf [of zs]
  by (auto simp: find_line_end_def dest!: arg_cong [where f = length])

function feed_loop :: "'s on_event \<Rightarrow> string \<Rightarrow> sse_parser \<Rightarrow> 's \<Rightarrow> bool \<times> sse_parser \<times> 's" where
  "feed_loop on_event p par s =
    (if p = [] then (True, par, s)
     else
       case find_line_end p of (line, eol) \<Rightarrow>
       let par1 = consume_line_content line par in
       case eol of
         [] \<Rightarrow> (True, par1, s)
       | c # rest \<Rightarrow>
           let par2 = (if c = CR \<and> rest = [] then par1\<lparr>sse_after_cr := True\<rparr> else par1);
               next = (if c = CR then skip_lf rest else rest) in
           case end_line on_event par2 s of (ok, par3, s') \<Rightarrow>
             if ok then feed_loop on_event next par3 s' else (False, par3, s'))"
  by pat_completeness auto
termination
  by (relation "measure (\<lambda>(_, p, _, _). length p)")
    (simp_all add: find_line_end_less split: if_splits)

declare feed_loop.simps [simp del]

definition feed :: "'s on_event \<Rightarrow> string \<Rightarrow> sse_parser \<Rightarrow> 's \<Rightarrow> bool \<times> sse_parser \<times> 's" where
  "feed on_event xs par s =
     (if sse_after_cr par \<and> xs \<noteq> []
      then feed_loop on_event (skip_lf xs) (par\<lparr>sse_after_cr := False\<rparr>) s
      else feed_loop on_event xs par s)"

section \<open>The loop and the byte-wise reading agree\<close>

text \<open>
  \<open>feed\<close> scans whole lines.  The same parser read one byte at a time: \<open>sse_byte\<close> is what a byte does,
  with \<open>after_cr_\<close> set after every CR rather than only at the end of a piece.
\<close>

definition sse_byte :: "'s on_event \<Rightarrow> char \<Rightarrow> sse_parser \<Rightarrow> 's \<Rightarrow> bool \<times> sse_parser \<times> 's" where
  "sse_byte on_event c p s =
     (if sse_after_cr p \<and> c = LF then (True, p\<lparr>sse_after_cr := False\<rparr>, s)
      else if c = LF then end_line on_event (p\<lparr>sse_after_cr := False\<rparr>) s
      else if c = CR then end_line on_event (p\<lparr>sse_after_cr := True\<rparr>) s
      else (True, consume_line_content [c] (p\<lparr>sse_after_cr := False\<rparr>), s))"

fun sse_bytes :: "'s on_event \<Rightarrow> string \<Rightarrow> sse_parser \<Rightarrow> 's \<Rightarrow> bool \<times> sse_parser \<times> 's" where
  "sse_bytes on_event [] p s = (True, p, s)"
| "sse_bytes on_event (c # cs) p s =
     (case sse_byte on_event c p s of (ok, p', s') \<Rightarrow>
        if ok then sse_bytes on_event cs p' s' else (False, p', s'))"

text \<open>What one byte of a line does; \<open>consume_line_content\<close> is its fold (\<open>consume_fold\<close>).\<close>

definition consume_byte :: "sse_parser \<Rightarrow> char \<Rightarrow> sse_parser" where
  "consume_byte p c =
    (case sse_state p of
       Field \<Rightarrow>
         (if c \<noteq> data_field ! sse_matched p then p\<lparr>sse_state := Ignored\<rparr>
          else if Suc (sse_matched p) = length data_field
          then p\<lparr>sse_matched := Suc (sse_matched p), sse_state := Value_start,
                 sse_data := (if sse_data p \<noteq> [] then sse_data p @ [LF] else [])\<rparr>
          else p\<lparr>sse_matched := Suc (sse_matched p)\<rparr>)
     | Value_start \<Rightarrow>
         p\<lparr>sse_state := Value, sse_data := (if c = SP then sse_data p else sse_data p @ [c])\<rparr>
     | Value \<Rightarrow> p\<lparr>sse_data := sse_data p @ [c]\<rparr>
     | Ignored \<Rightarrow> p)"

declare consume_line_content.simps(2) [simp del]

lemma consume_Ignored: "sse_state p = Ignored \<Longrightarrow> consume_line_content cs p = p"
  by (cases cs) (simp_all add: consume_line_content.simps(2))

lemma consume_Value:
  "sse_state p = Value \<Longrightarrow> consume_line_content cs p = p\<lparr>sse_data := sse_data p @ cs\<rparr>"
  by (cases cs) (simp_all add: consume_line_content.simps(2))

lemma consume_Cons [simp]:
  "consume_line_content (c # cs) p = consume_line_content cs (consume_byte p c)"
proof (cases "sse_state p")
  case Field
  then show ?thesis
    by (auto simp: consume_line_content.simps(2) [of c cs p] consume_byte_def Let_def consume_Ignored
        intro!: arg_cong [where f = "consume_line_content cs"])
qed (simp_all add: consume_line_content.simps(2) consume_byte_def consume_Ignored consume_Value)

lemma consume_fold: "consume_line_content cs p = foldl consume_byte p cs"
  by (induction cs arbitrary: p) simp_all

lemma consume_append:
  "consume_line_content (xs @ ys) p = consume_line_content ys (consume_line_content xs p)"
  by (simp add: consume_fold)

lemma consume_byte_after_cr [simp]:
  "consume_byte (p\<lparr>sse_after_cr := b\<rparr>) c = (consume_byte p c)\<lparr>sse_after_cr := b\<rparr>"
  "sse_after_cr (consume_byte p c) = sse_after_cr p"
  by (simp_all add: consume_byte_def split: line_state.split)

lemma sse_after_cr_consume [simp]: "sse_after_cr (consume_line_content cs p) = sse_after_cr p"
  by (induction cs arbitrary: p) simp_all

lemma end_line_after_cr:
  "end_line f (p\<lparr>sse_after_cr := b\<rparr>) s =
     (case end_line f p s of (ok, q, s') \<Rightarrow> (ok, q\<lparr>sse_after_cr := b\<rparr>, s'))"
  by (auto simp: end_line_def split: prod.splits)

lemma end_line_keeps_cr: "end_line f p s = (ok, q, t) \<Longrightarrow> sse_after_cr q = sse_after_cr p"
  by (auto simp: end_line_def split: if_splits prod.splits)

lemma feed_loop_Nil [simp]: "feed_loop f [] p s = (True, p, s)"
  by (subst feed_loop.simps) simp

lemma sse_bytes_append: "sse_bytes f (xs @ ys) p s = then_run (sse_bytes f xs p s) (sse_bytes f ys)"
  by (induction xs arbitrary: p s) (auto split: prod.splits)

lemma after_cr_same: "\<not> sse_after_cr p \<Longrightarrow> p\<lparr>sse_after_cr := False\<rparr> = p"
  by (cases p) simp

lemma sse_bytes_line:
  "LF \<notin> set xs \<Longrightarrow> CR \<notin> set xs \<Longrightarrow> \<not> sse_after_cr p \<Longrightarrow>
     sse_bytes f (xs @ ys) p s = sse_bytes f ys (consume_line_content xs p) s"
  by (induction xs arbitrary: p) (auto simp: sse_byte_def after_cr_same)

lemma sse_bytes_skip_lf:
  "cs \<noteq> [] \<Longrightarrow> sse_bytes f cs (p\<lparr>sse_after_cr := True\<rparr>) s = sse_bytes f (skip_lf cs) (p\<lparr>sse_after_cr := False\<rparr>) s"
  by (cases cs) (auto simp: skip_lf_def sse_byte_def)

lemma feed_loop_bytes:
  "\<not> sse_after_cr p \<Longrightarrow> same_run (feed_loop f xs p s) (sse_bytes f xs p s)"
proof (induction f xs p s rule: feed_loop.induct)
  case (1 f xs p s)
  obtain line eol where le: "find_line_end xs = (line, eol)" by fastforce
  then have xs: "xs = line @ eol" and nl: "LF \<notin> set line" "CR \<notin> set line"
    and eol: "eol \<noteq> [] \<Longrightarrow> hd eol = LF \<or> hd eol = CR"
    using hd_dropWhile [of "\<lambda>c. c \<noteq> LF \<and> c \<noteq> CR" xs]
    by (auto simp: find_line_end_def dest: set_takeWhileD)
  let ?p = "consume_line_content line p"
  have bytes: "sse_bytes f xs p s = sse_bytes f eol ?p s"
    using xs nl "1.prems" by (simp add: sse_bytes_line)
  show ?case
  proof (cases eol)
    case Nil
    then show ?thesis
      using bytes le xs by (subst feed_loop.simps) simp
  next
    case (Cons c rest)
    then have ne: "xs \<noteq> []" using xs by simp
    let ?p2 = "if c = CR \<and> rest = [] then ?p\<lparr>sse_after_cr := True\<rparr> else ?p"
    let ?nxt = "if c = CR then skip_lf rest else rest"
    obtain ok q t where el: "end_line f ?p2 s = (ok, q, t)" by (metis prod_cases3)
    have step: "feed_loop f xs p s = (if ok then feed_loop f ?nxt q t else (False, q, t))"
      using ne le Cons el by (subst feed_loop.simps) (simp add: Let_def)
    have IH: "ok \<Longrightarrow> \<not> sse_after_cr q \<Longrightarrow> same_run (feed_loop f ?nxt q t) (sse_bytes f ?nxt q t)"
      using "1.IH" [OF ne le [symmetric] refl Cons refl refl el [symmetric] refl] by simp
    have p: "\<not> sse_after_cr ?p" using "1.prems" by simp
    show ?thesis
    proof (cases "c = CR")
      case False
      with eol Cons p el have "sse_byte f c ?p s = (ok, q, t)" and "\<not> sse_after_cr q"
        by (auto simp: sse_byte_def after_cr_same dest: end_line_keeps_cr)
      with False IH show ?thesis by (cases ok) (simp_all add: step bytes Cons)
    next
      case CR: True
      show ?thesis
      proof (cases "rest = []")
        case True
        with CR p el have "sse_byte f c ?p s = (ok, q, t)"
          by (simp add: sse_byte_def)
        with CR True show ?thesis by (cases ok) (simp_all add: step bytes Cons skip_lf_def)
      next
        case False
        with CR el have "end_line f ?p s = (ok, q, t)" by simp
        then have b: "sse_byte f c ?p s = (ok, q\<lparr>sse_after_cr := True\<rparr>, t)" and q: "\<not> sse_after_cr q"
          using CR p by (auto simp: sse_byte_def end_line_after_cr dest: end_line_keeps_cr)
        show ?thesis
        proof (cases ok)
          case True
          with CR q IH b False show ?thesis
            by (simp add: step bytes Cons sse_bytes_skip_lf after_cr_same)
        next
          case False
          with b show ?thesis by (simp add: step bytes Cons same_run_def)
        qed
      qed
    qed
  qed
qed

lemma feed_bytes: "same_run (feed f xs p s) (sse_bytes f xs p s)"
proof (cases "sse_after_cr p \<and> xs \<noteq> []")
  case True
  then have "sse_bytes f xs p s = sse_bytes f (skip_lf xs) (p\<lparr>sse_after_cr := False\<rparr>) s"
    using sse_bytes_skip_lf [of xs f p s] by (cases p) simp
  moreover have "same_run (feed_loop f (skip_lf xs) (p\<lparr>sse_after_cr := False\<rparr>) s)
      (sse_bytes f (skip_lf xs) (p\<lparr>sse_after_cr := False\<rparr>) s)"
    by (rule feed_loop_bytes) simp
  ultimately show ?thesis using True by (simp add: feed_def)
next
  case False
  then show ?thesis
    by (cases "xs = []") (auto simp: feed_def intro: feed_loop_bytes)
qed

section \<open>Fragmentation\<close>

interpretation sse: incremental_consumer "feed on_event" for on_event :: "'s on_event"
proof unfold_locales
  fix xs ys :: string and p :: sse_parser and s :: 's
  show "feed on_event [] p s = (True, p, s)" by (simp add: feed_def)
  have "same_run (feed on_event (xs @ ys) p s) (then_run (sse_bytes on_event xs p s) (sse_bytes on_event ys))"
    using feed_bytes [of on_event "xs @ ys" p s] by (simp add: sse_bytes_append)
  moreover have "same_run (then_run (sse_bytes on_event xs p s) (sse_bytes on_event ys))
      (then_run (feed on_event xs p s) (feed on_event ys))"
    by (rule same_run_then [OF same_run_sym same_run_sym]) (rule feed_bytes)+
  ultimately show "same_run (feed on_event (xs @ ys) p s) (then_run (feed on_event xs p s) (feed on_event ys))"
    by (rule same_run_trans)
qed

section \<open>What a body means\<close>

text \<open>
  The specification reads the whole body line by line.  \<open>sse_lines\<close> lists the terminated lines (a
  line ends in CRLF, LF or CR; an unterminated last line is dropped); \<open>sse_dispatch\<close> is the text of
  the class comment: a \<open>data:\<close> line appends its value less one leading space, joined to earlier
  non-empty data by LF; a blank line dispatches non-empty data; other lines are ignored.
\<close>

fun sse_lines :: "string \<Rightarrow> string \<Rightarrow> string list" where
  "sse_lines acc [] = []"
| "sse_lines acc (c # cs) =
     (if c = LF then acc # sse_lines [] cs
      else if c = CR then acc # (case cs of [] \<Rightarrow> [] | d # ds \<Rightarrow> if d = LF then sse_lines [] ds else sse_lines [] cs)
      else sse_lines (acc @ [c]) cs)"

definition join_value :: "string \<Rightarrow> string \<Rightarrow> string" where
  "join_value d v = (if d = [] then v else d @ LF # v)"

definition drop_space :: "string \<Rightarrow> string" where
  "drop_space v = (case v of [] \<Rightarrow> [] | c # cs \<Rightarrow> if c = SP then cs else v)"

fun sse_dispatch :: "string \<Rightarrow> string list \<Rightarrow> string list" where
  "sse_dispatch d [] = []"
| "sse_dispatch d (l # ls) =
     (if l = [] then (if d = [] then sse_dispatch [] ls else d # sse_dispatch [] ls)
      else if prefix ''data:'' l then sse_dispatch (join_value d (drop_space (drop 5 l))) ls
      else sse_dispatch d ls)"

definition sse_events :: "string \<Rightarrow> string list" where
  "sse_events body = sse_dispatch [] (sse_lines [] body)"

text \<open>A callback that records the events it is given.\<close>

definition collect :: "string list on_event" where
  "collect e es = (True, es @ [e])"

definition line_start :: "string \<Rightarrow> sse_parser" where
  "line_start d = sse_init\<lparr>sse_data := d\<rparr>"

lemma line_start_sel [simp]:
  "sse_data (line_start d) = d" "sse_state (line_start d) = Field"
  "sse_matched (line_start d) = 0" "sse_after_cr (line_start d) = False"
  by (simp_all add: line_start_def sse_init_def)

lemma sse_parser_eqI:
  "sse_data p = sse_data q \<Longrightarrow> sse_state p = sse_state q \<Longrightarrow> sse_matched p = sse_matched q \<Longrightarrow>
     sse_after_cr p = sse_after_cr q \<Longrightarrow> p = (q :: sse_parser)"
  by (cases p; cases q) simp

lemma consume_data_line:
  "consume_line_content (''data:'' @ v) (line_start d) =
     \<lparr>sse_data = join_value d (drop_space v),
      sse_state = (if v = [] then Value_start else Value), sse_matched = 5, sse_after_cr = False\<rparr>"
  by (cases v)
    (auto simp: consume_byte_def data_field_def join_value_def drop_space_def consume_Value
      intro!: sse_parser_eqI)

lemma consume_other_line:
  assumes "\<not> prefix (drop k ''data:'') l" "k < 5" "sse_state p = Field" "sse_matched p = k"
  shows "sse_data (consume_line_content l p) = sse_data p
    \<and> (sse_state (consume_line_content l p) = Field \<and> k + length l = sse_matched (consume_line_content l p)
       \<or> sse_state (consume_line_content l p) = Ignored)"
  using assms
proof (induction l arbitrary: k p)
  case (Cons c l)
  have d: "drop k ''data:'' = (data_field ! k) # drop (Suc k) ''data:''"
    using Cons.prems(2) Cons_nth_drop_Suc [of k data_field] by (simp add: data_field_def)
  show ?case
  proof (cases "c = data_field ! k")
    case True
    then have np: "\<not> prefix (drop (Suc k) ''data:'') l" using Cons.prems(1) d by simp
    then have "Suc k \<noteq> 5" by auto
    with Cons.prems True have k: "Suc k < 5" "consume_byte p c = p\<lparr>sse_matched := Suc k\<rparr>"
      by (simp_all add: consume_byte_def data_field_def)
    with Cons.IH [OF np k(1), of "p\<lparr>sse_matched := Suc k\<rparr>"] Cons.prems show ?thesis
      by simp
  next
    case False
    with Cons.prems show ?thesis by (simp add: consume_byte_def consume_Ignored)
  qed
qed simp

lemma end_line_line:
  "end_line f (consume_line_content l (line_start d)) s =
    (if l = [] then
       (if d = [] then (True, line_start [], s)
        else case f d s of (ok, s') \<Rightarrow> (ok, line_start (if ok then [] else d), s'))
     else if prefix ''data:'' l then (True, line_start (join_value d (drop_space (drop 5 l))), s)
     else (True, line_start d, s))"
proof (cases "prefix ''data:'' l")
  case True
  then obtain v where "l = ''data:'' @ v" by (auto simp: prefix_def)
  then show ?thesis
    using consume_data_line [of v d]
    by (auto simp: end_line_def line_start_def sse_init_def)
next
  case False
  show ?thesis
  proof (cases "l = []")
    case True
    then show ?thesis
      by (auto simp: end_line_def line_start_def sse_init_def split: prod.splits)
  next
    case ne: False
    have "sse_data (consume_line_content l (line_start d)) = d"
      "\<not> (sse_state (consume_line_content l (line_start d)) = Field
        \<and> sse_matched (consume_line_content l (line_start d)) = 0)"
      using consume_other_line [of 0 l "line_start d"] False ne by (cases l; auto)+
    with False ne show ?thesis
      by (auto simp: end_line_def intro!: sse_parser_eqI)
  qed
qed

lemma sse_lines_CR: "sse_lines acc (CR # cs) = acc # sse_lines [] (skip_lf cs)"
  by (auto simp: skip_lf_def split: list.splits)

lemma collect_line:
  "end_line collect (consume_line_content l (line_start d)) es = (ok, q, es') \<Longrightarrow>
     ok \<and> (\<exists>d'. q = line_start d' \<and> (\<forall>ls. es @ sse_dispatch d (l # ls) = es' @ sse_dispatch d' ls))"
  by (auto simp: end_line_line collect_def split: if_splits)

lemma sse_bytes_events:
  "LF \<notin> set acc \<Longrightarrow> CR \<notin> set acc \<Longrightarrow>
     \<exists>q. sse_bytes collect xs (consume_line_content acc (line_start d)) es
           = (True, q, es @ sse_dispatch d (sse_lines acc xs))"
proof (induction xs arbitrary: acc d es rule: length_induct)
  case (1 xs)
  let ?p = "consume_line_content acc (line_start d)"
  obtain ok q es' where el: "end_line collect ?p es = (ok, q, es')" by (metis prod_cases3)
  then obtain d' where d': "ok" "q = line_start d'"
    "\<forall>ls. es @ sse_dispatch d (acc # ls) = es' @ sse_dispatch d' ls"
    using collect_line by blast
  have IH: "\<exists>r. sse_bytes collect ys (line_start d') es' = (True, r, es' @ sse_dispatch d' (sse_lines [] ys))"
    if "length ys < length xs" for ys
    using "1.IH" [rule_format, OF that, of "[]" d' es'] by simp
  show ?case
  proof (cases xs)
    case (Cons c cs)
    consider "c = LF" | "c = CR" | "c \<noteq> LF" "c \<noteq> CR" by blast
    then show ?thesis
    proof cases
      case 1
      then have "sse_bytes collect xs ?p es = sse_bytes collect cs (line_start d') es'"
        using Cons el d' by (simp add: sse_byte_def after_cr_same)
      then show ?thesis using IH [of cs] 1 Cons d'(3) by auto
    next
      case 2
      have "sse_bytes collect xs ?p es = sse_bytes collect cs ((line_start d')\<lparr>sse_after_cr := True\<rparr>) es'"
        using 2 Cons el d' by (simp add: sse_byte_def end_line_after_cr)
      moreover have "length (skip_lf cs) < length xs"
        using length_skip_lf [of cs] Cons by simp
      moreover have "sse_lines acc xs = acc # sse_lines [] (skip_lf cs)"
        using 2 Cons by (simp only: sse_lines_CR)
      ultimately show ?thesis
        using IH [of "skip_lf cs"] d'(3)
        by (cases "cs = []") (auto simp: sse_bytes_skip_lf after_cr_same skip_lf_def [of "[]"])
    next
      case 3
      then have "sse_bytes collect xs ?p es
          = sse_bytes collect cs (consume_line_content (acc @ [c]) (line_start d)) es"
        using Cons by (simp add: sse_byte_def after_cr_same consume_append)
      moreover have "\<exists>r. sse_bytes collect cs (consume_line_content (acc @ [c]) (line_start d)) es
          = (True, r, es @ sse_dispatch d (sse_lines (acc @ [c]) cs))"
        using "1.IH" Cons "1.prems" 3 by force
      ultimately show ?thesis using 3 Cons by auto
    qed
  qed simp
qed

lemma feed_events: "\<exists>q. feed collect xs (sse_reset p) es = (True, q, es @ sse_events xs)"
proof -
  have "sse_reset p = consume_line_content [] (line_start [])"
    by (cases p) (simp add: sse_reset_def line_start_def sse_init_def)
  then obtain q where "sse_bytes collect xs (sse_reset p) es = (True, q, es @ sse_events xs)"
    using sse_bytes_events [of "[]" xs "[]" es] by (auto simp: sse_events_def)
  then show ?thesis using feed_bytes [of collect xs "sse_reset p" es]
    by (auto simp: same_run_def)
qed

text \<open>Recording only adds to what was recorded, so a body can be collected piece by piece.\<close>

lemma end_line_collect: "\<exists>q ds. \<forall>es. end_line collect p es = (True, q, es @ ds)"
proof (cases "sse_state p = Field \<and> sse_matched p = 0 \<and> sse_data p \<noteq> []")
  case True
  then show ?thesis
    by (intro exI [of _ "p\<lparr>sse_data := [], sse_state := Field, sse_matched := 0\<rparr>"] exI [of _ "[sse_data p]"])
      (simp add: end_line_def collect_def)
next
  case False
  then show ?thesis
    by (intro exI [of _ "p\<lparr>sse_state := Field, sse_matched := 0\<rparr>"] exI [of _ "[]"]) (auto simp: end_line_def)
qed

lemma sse_byte_collect: "\<exists>q ds. \<forall>es. sse_byte collect c p es = (True, q, es @ ds)"
proof (cases "sse_after_cr p \<and> c = LF")
  case True
  then show ?thesis
    by (intro exI [of _ "p\<lparr>sse_after_cr := False\<rparr>"] exI [of _ "[]"]) (simp add: sse_byte_def)
next
  case no: False
  show ?thesis
  proof (cases "c = LF \<or> c = CR")
    case True
    with no have "\<exists>b. \<forall>es. sse_byte collect c p es = end_line collect (p\<lparr>sse_after_cr := b\<rparr>) es"
      unfolding sse_byte_def by metis
    then show ?thesis using end_line_collect by metis
  next
    case False
    with no show ?thesis
      by (intro exI [of _ "consume_line_content [c] (p\<lparr>sse_after_cr := False\<rparr>)"] exI [of _ "[]"])
        (simp add: sse_byte_def)
  qed
qed

lemma sse_bytes_collect: "\<exists>q ds. \<forall>es. sse_bytes collect xs p es = (True, q, es @ ds)"
proof (induction xs arbitrary: p)
  case Nil
  show ?case by (intro exI [of _ p] exI [of _ "[]"]) simp
next
  case (Cons c cs)
  obtain q ds where q: "sse_byte collect c p es = (True, q, es @ ds)" for es
    using sse_byte_collect [of c p] by blast
  obtain r fs where r: "sse_bytes collect cs q es = (True, r, es @ fs)" for es
    using Cons.IH [of q] by blast
  show ?case by (intro exI [of _ r] exI [of _ "ds @ fs"]) (simp add: q r)
qed

lemma feed_collect: "\<exists>q ds. \<forall>es. feed collect xs p es = (True, q, es @ ds)"
proof -
  obtain q ds where q: "sse_bytes collect xs p es = (True, q, es @ ds)" for es
    using sse_bytes_collect by blast
  have "feed collect xs p es = (True, q, es @ ds)" for es
    using feed_bytes [of collect xs p es] q [of es] by (auto simp: same_run_def)
  then show ?thesis by blast
qed

lemma feed_collect_append:
  assumes "feed collect xs p [] = (True, q, ds)" "feed collect ys q [] = (ok, r, fs)"
  shows "feed collect (xs @ ys) p [] = (True, r, ds @ fs)"
proof -
  obtain r' fs' where f: "feed collect ys q es = (True, r', es @ fs')" for es
    using feed_collect by blast
  then have "r = r'" "fs = fs'" using assms(2) f [of "[]"] by simp_all
  then show ?thesis
    using sse.feed_join [of collect xs ys p "[]"] assms(1) f [of ds] by (auto simp: same_run_def)
qed

section \<open>Invariants\<close>

text \<open>
  While a line is matched against \<open>data_field\<close> the index \<open>matched_\<close> is inside it, so
  \<open>data_field[matched_]\<close> never reads past the end; the data never holds a CR.
\<close>

definition sse_wf :: "sse_parser \<Rightarrow> bool" where
  "sse_wf p \<longleftrightarrow> sse_matched p \<le> length data_field \<and> CR \<notin> set (sse_data p)
     \<and> (sse_state p = Field \<longrightarrow> sse_matched p < length data_field)"

lemma sse_wf_reset: "sse_wf (sse_reset p)"
  by (simp add: sse_wf_def sse_reset_def data_field_def)

lemma sse_wf_after_cr [simp]: "sse_wf (p\<lparr>sse_after_cr := b\<rparr>) = sse_wf p"
  by (simp add: sse_wf_def)

lemma consume_byte_wf: "sse_wf p \<Longrightarrow> c \<noteq> CR \<Longrightarrow> sse_wf (consume_byte p c)"
  by (cases "sse_state p") (simp_all add: sse_wf_def consume_byte_def)

lemma consume_wf: "sse_wf p \<Longrightarrow> CR \<notin> set cs \<Longrightarrow> sse_wf (consume_line_content cs p)"
  by (induction cs arbitrary: p) (auto simp: consume_byte_wf)

lemma end_line_wf: "sse_wf p \<Longrightarrow> end_line f p s = (ok, q, t) \<Longrightarrow> sse_wf q"
  by (auto simp: end_line_def sse_wf_def data_field_def split: if_splits prod.splits)

lemma feed_loop_wf: "sse_wf p \<Longrightarrow> feed_loop f xs p s = (ok, q, t) \<Longrightarrow> sse_wf q"
proof (induction f xs p s arbitrary: ok q t rule: feed_loop.induct)
  case (1 f xs p s)
  obtain line eol where le: "find_line_end xs = (line, eol)" by fastforce
  let ?p = "consume_line_content line p"
  have wf: "sse_wf ?p"
    using le "1.prems"(1) by (auto simp: find_line_end_def dest: set_takeWhileD intro!: consume_wf)
  show ?case
  proof (cases "xs = [] \<or> eol = []")
    case True
    then have "feed_loop f xs p s = (True, if xs = [] then p else ?p, s)"
      using le by (subst feed_loop.simps) auto
    with "1.prems" wf show ?thesis by (auto split: if_splits)
  next
    case False
    then obtain c rest where eol: "eol = c # rest" and ne: "xs \<noteq> []" by (cases eol) auto
    let ?p2 = "if c = CR \<and> rest = [] then ?p\<lparr>sse_after_cr := True\<rparr> else ?p"
    let ?nxt = "if c = CR then skip_lf rest else rest"
    obtain ok' q' t' where el: "end_line f ?p2 s = (ok', q', t')" by (metis prod_cases3)
    have "feed_loop f xs p s = (if ok' then feed_loop f ?nxt q' t' else (False, q', t'))"
      using ne le eol el by (subst feed_loop.simps) (simp add: Let_def)
    moreover have "sse_wf q'" by (rule end_line_wf [OF _ el]) (use wf in simp)
    ultimately show ?thesis
      using "1.IH" [OF ne le [symmetric] refl eol refl refl el [symmetric] refl] "1.prems"(2)
      by (cases ok') (simp_all, metis)
  qed
qed

lemma feed_wf: "sse_wf p \<Longrightarrow> feed f xs p s = (ok, q, t) \<Longrightarrow> sse_wf q"
  using feed_loop_wf [of p f xs s ok q t] feed_loop_wf [of "p\<lparr>sse_after_cr := False\<rparr>" f "skip_lf xs" s ok q t]
  by (simp add: feed_def split: if_splits)

lemma sse_lines_no_eol:
  "LF \<notin> set acc \<Longrightarrow> CR \<notin> set acc \<Longrightarrow> l \<in> set (sse_lines acc xs) \<Longrightarrow> LF \<notin> set l \<and> CR \<notin> set l"
proof (induction xs arbitrary: acc rule: length_induct)
  case (1 xs)
  show ?case
  proof (cases xs)
    case (Cons c cs)
    have IH: "LF \<notin> set l \<and> CR \<notin> set l"
      if "l \<in> set (sse_lines a ys)" "length ys < length xs" "LF \<notin> set a" "CR \<notin> set a" for ys a
      using "1.IH" that by blast
    consider "c = LF" | "c = CR" | "c \<noteq> LF" "c \<noteq> CR" by blast
    then show ?thesis
    proof cases
      case 2
      then have "sse_lines acc xs = acc # sse_lines [] (skip_lf cs)"
        using Cons by (simp only: sse_lines_CR)
      then show ?thesis
        using "1.prems" IH [of "[]" "skip_lf cs"] length_skip_lf [of cs] Cons by auto
    qed (use "1.prems" IH [of "[]" cs] IH [of "acc @ [c]" cs] Cons in auto)
  qed (use "1.prems" in simp)
qed

lemma join_value_no_CR:
  "CR \<notin> set d \<Longrightarrow> CR \<notin> set l \<Longrightarrow> CR \<notin> set (join_value d (drop_space (drop n l)))"
  by (auto simp: join_value_def drop_space_def dest: in_set_dropD split: list.splits if_splits)
    (metis in_set_dropD list.set_intros(2))+

lemma sse_dispatch_no_CR:
  "CR \<notin> set d \<Longrightarrow> \<forall>l \<in> set ls. CR \<notin> set l \<Longrightarrow> e \<in> set (sse_dispatch d ls) \<Longrightarrow> e \<noteq> [] \<and> CR \<notin> set e"
  by (induction d ls rule: sse_dispatch.induct) (auto simp: join_value_no_CR split: if_splits)

section \<open>Round trip\<close>

text \<open>
  How a server writes an event: each line of the data in a \<open>data:\<close> line of its own, then a blank
  line.  \<open>eol\<close> is any of the three line endings.
\<close>

fun split_lf :: "string \<Rightarrow> string list" where
  "split_lf [] = [[]]"
| "split_lf (c # cs) =
     (if c = LF then [] # split_lf cs
      else case split_lf cs of [] \<Rightarrow> [[c]] | l # ls \<Rightarrow> (c # l) # ls)"

definition write_event :: "string \<Rightarrow> string \<Rightarrow> string" where
  "write_event eol d = concat (map (\<lambda>l. ''data: '' @ l @ eol) (split_lf d)) @ eol"

definition line_ending :: "string \<Rightarrow> bool" where
  "line_ending eol \<longleftrightarrow> eol = [LF] \<or> eol = [CR] \<or> eol = [CR, LF]"

lemma split_lf_ne [simp]: "split_lf xs \<noteq> []"
  by (induction xs) (auto split: list.splits)

lemma split_lf_no_lf: "l \<in> set (split_lf xs) \<Longrightarrow> LF \<notin> set l \<and> set l \<subseteq> set xs"
  by (induction xs arbitrary: l) (fastforce split: if_splits list.splits)+

lemma sse_lines_line:
  assumes "line_ending eol" "LF \<notin> set l" "CR \<notin> set l" "rest = [] \<or> hd rest \<noteq> LF \<or> eol = [LF]"
  shows "sse_lines acc (l @ eol @ rest) = (acc @ l) # sse_lines [] rest"
  using assms
proof (induction l arbitrary: acc)
  case Nil
  then show ?case
    by (cases rest) (auto simp: line_ending_def)
next
  case (Cons c l)
  then have "c \<noteq> LF" "c \<noteq> CR" by auto
  with Cons show ?case by simp
qed

lemma sse_lines_lines:
  assumes "line_ending eol" "\<forall>l \<in> set ls. LF \<notin> set l \<and> CR \<notin> set l" "rest \<noteq> []"
    "rest = [] \<or> hd rest \<noteq> LF \<or> eol = [LF]"
  shows "sse_lines [] (concat (map (\<lambda>l. ''data: '' @ l @ eol) ls) @ rest)
    = map (\<lambda>l. ''data: '' @ l) ls @ sse_lines [] rest"
  using assms(2)
proof (induction ls)
  case (Cons l ls)
  let ?tl = "concat (map (\<lambda>l. ''data: '' @ l @ eol) ls) @ rest"
  have "?tl = [] \<or> hd ?tl \<noteq> LF \<or> eol = [LF]"
    using assms(4) by (cases ls) auto
  then have "sse_lines [] ((''data: '' @ l) @ eol @ ?tl) = ([] @ ''data: '' @ l) # sse_lines [] ?tl"
    using Cons.prems assms(1) by (intro sse_lines_line) auto
  with Cons show ?case by simp
qed simp

lemma sse_lines_event:
  assumes "line_ending eol" "CR \<notin> set d" "rest = [] \<or> hd rest \<noteq> LF"
  shows "sse_lines [] (write_event eol d @ rest)
    = map (\<lambda>l. ''data: '' @ l) (split_lf d) @ [] # sse_lines [] rest"
proof -
  have "sse_lines [] ([] @ eol @ rest) = ([] @ []) # sse_lines [] rest"
    by (rule sse_lines_line) (use assms in auto)
  moreover have "\<forall>l \<in> set (split_lf d). LF \<notin> set l \<and> CR \<notin> set l"
    using assms(2) split_lf_no_lf by blast
  moreover have "eol @ rest \<noteq> []" "hd (eol @ rest) \<noteq> LF \<or> eol = [LF]"
    using assms(1) by (auto simp: line_ending_def)
  ultimately show ?thesis
    using sse_lines_lines [OF assms(1), of "split_lf d" "eol @ rest"] by (simp add: write_event_def)
qed

lemma sse_dispatch_data_lines:
  "sse_dispatch d (map (\<lambda>l. ''data: '' @ l) ls @ rest) = sse_dispatch (foldl join_value d ls) rest"
  by (induction ls arbitrary: d) (simp_all add: drop_space_def)

lemma foldl_join_value: "d \<noteq> [] \<Longrightarrow> foldl join_value d ls = d @ concat (map ((#) LF) ls)"
  by (induction ls arbitrary: d) (simp_all add: join_value_def)

lemma split_lf_join: "xs = hd (split_lf xs) @ concat (map ((#) LF) (tl (split_lf xs)))"
proof (induction xs)
  case (Cons c cs)
  show ?case
  proof (cases "split_lf cs")
    case (Cons l ls)
    with Cons.IH show ?thesis by (cases "c = LF") auto
  qed simp
qed simp

lemma foldl_split_lf: "d \<noteq> [] \<Longrightarrow> hd d \<noteq> LF \<Longrightarrow> foldl join_value [] (split_lf d) = d"
proof -
  assume "d \<noteq> []" "hd d \<noteq> LF"
  then have "hd (split_lf d) \<noteq> []" by (cases d) (auto split: list.splits)
  moreover obtain l ls where "split_lf d = l # ls" by (cases "split_lf d") auto
  ultimately show ?thesis
    using split_lf_join [of d] by (simp add: join_value_def foldl_join_value)
qed

lemma write_event_hd: "write_event eol d @ xs \<noteq> [] \<and> hd (write_event eol d @ xs) \<noteq> LF"
  by (cases "split_lf d") (auto simp: write_event_def)

lemma foldl_split_lf_all: "foldl join_value [] (split_lf d) = dropWhile ((=) LF) d"
proof (induction d)
  case (Cons c d)
  show ?case
  proof (cases "c = LF")
    case True
    then show ?thesis using Cons by (simp add: join_value_def)
  next
    case False
    then show ?thesis using foldl_split_lf [of "c # d"] by simp
  qed
qed (simp add: join_value_def)

text \<open>What of the data of an event reaches the callback: LF joins to earlier non-empty data only, and an empty event is none.\<close>

definition delivered_data :: "string list \<Rightarrow> string list" where
  "delivered_data ds = filter (\<lambda>d. d \<noteq> []) (map (dropWhile ((=) LF)) ds)"

lemma sse_events_written:
  assumes "line_ending eol" "\<forall>d \<in> set ds. CR \<notin> set d"
  shows "sse_events (concat (map (write_event eol) ds)) = delivered_data ds"
  using assms(2)
proof (induction ds)
  case Nil
  then show ?case by (simp add: sse_events_def delivered_data_def)
next
  case (Cons d ds)
  let ?rest = "concat (map (write_event eol) ds)"
  have "?rest = [] \<or> hd ?rest \<noteq> LF"
    using write_event_hd by (cases ds) auto
  then have "sse_lines [] (write_event eol d @ ?rest)
      = map (\<lambda>l. ''data: '' @ l) (split_lf d) @ [] # sse_lines [] ?rest"
    using Cons.prems assms(1) by (intro sse_lines_event) auto
  then show ?case
    using Cons by (simp add: sse_events_def delivered_data_def sse_dispatch_data_lines [simplified] foldl_split_lf_all)
qed

lemma delivered_data_id: "\<forall>d \<in> set ds. d \<noteq> [] \<and> hd d \<noteq> LF \<Longrightarrow> delivered_data ds = ds"
proof (induction ds)
  case (Cons d ds)
  then show ?case by (cases d) (auto simp: delivered_data_def)
qed (simp add: delivered_data_def)

section \<open>Properties\<close>

text \<open>
  C7. Whatever state an earlier body left behind, after \<open>reset\<close> the events delivered for a body are
  those its lines mean, however the body is cut into pieces (even inside a CRLF).
\<close>

theorem sse_feed_is_spec:
  "\<exists>q. feed_pieces (feed collect) pieces (sse_reset p) es = (True, q, es @ sse_events (concat pieces))"
  using sse.pieces_joined [of collect pieces "sse_reset p" es] feed_events [of "concat pieces" p es]
  by (auto simp: same_run_def)

text \<open>
  For any callback, also one that throws, and from any parser state: two ways of cutting the same
  bytes give the callback the same calls in the same order, and end in the same parser state unless
  the callback threw.
\<close>

lemma sse_fragmentation:
  assumes "concat xss = concat yss"
  shows "same_run (feed_pieces (feed on_event) xss p s) (feed_pieces (feed on_event) yss p s)"
  using assms by (rule sse.pieces_irrelevant)

lemma sse_fragmentation_witness:
  "same_run (feed_pieces (feed collect) [''data: a'' @ [CR], [LF, CR, LF]] sse_init [])
     (feed_pieces (feed collect) [''da'', ''ta: a'' @ [CR, LF, CR], [LF]] sse_init [])"
  by (rule sse_fragmentation) simp

text \<open>
  C33. Parsing what a server wrote, with any of the three line endings and cut into any pieces: of events whose data holds no
  CR, which no \<open>data:\<close> line can carry, each is delivered once, in order, as the data less its leading line feeds, and
  one with nothing left is not delivered (LF joins a value to earlier non-empty data, and empty events are not dispatched).
  So events with data that does not begin with a line feed come back unchanged.
\<close>
theorem sse_round_trip:
  assumes "line_ending eol" "\<forall>d \<in> set ds. CR \<notin> set d" "concat pieces = concat (map (write_event eol) ds)"
  shows "snd (snd (feed_pieces (feed collect) pieces (sse_reset p) [])) = filter (\<lambda>d. d \<noteq> []) (map (dropWhile ((=) LF)) ds)
    \<and> ((\<forall>d \<in> set ds. d \<noteq> [] \<and> hd d \<noteq> LF) \<longrightarrow> snd (snd (feed_pieces (feed collect) pieces (sse_reset p) [])) = ds)"
proof -
  have "snd (snd (feed_pieces (feed collect) pieces (sse_reset p) [])) = delivered_data ds"
    using sse.pieces_joined [of collect pieces "sse_reset p" "[]"] feed_events [of "concat pieces" p "[]"]
      sse_events_written [OF assms(1,2)] assms(3)
    by (auto simp: same_run_def)
  then show ?thesis using delivered_data_id [of ds] by (simp add: delivered_data_def)
qed

theorem sse_round_trip_witness:
  "snd (snd (feed_pieces (feed collect)
      [''data: a'' @ [CR], LF # ''data: b'' @ [CR, LF, CR, LF]] (sse_reset sse_init) [])) = [''a'' @ LF # ''b'']"
  using sse_round_trip [where eol = "[CR, LF]" and ds = "[''a'' @ LF # ''b'']" and p = sse_init
      and pieces = "[''data: a'' @ [CR], LF # ''data: b'' @ [CR, LF, CR, LF]]"]
  by (simp add: line_ending_def write_event_def)

text \<open>
  In every call the parser keeps its index into the field name inside the field name, and no CR
  reaches the event data; this holds after \<open>reset\<close> and is kept by \<open>feed\<close>, also when the callback throws.
\<close>

lemma sse_parser_stays_wf:
  assumes "sse_wf p"
  shows "sse_wf (sse_reset q) \<and> sse_wf (fst (snd (feed on_event xs p s)))"
  using sse_wf_reset feed_wf [OF assms, of on_event xs s] by (metis prod.collapse)

lemma sse_parser_stays_wf_witness:
  "sse_wf (sse_reset sse_init) \<and> sse_wf (fst (snd (feed collect ''dat'' sse_init [])))"
  by (rule sse_parser_stays_wf) (simp add: sse_wf_def sse_init_def data_field_def)

text \<open>Every event delivered has data, and the data holds no CR.\<close>

lemma sse_events_have_data:
  assumes "e \<in> set (snd (snd (feed_pieces (feed collect) pieces (sse_reset p) [])))"
  shows "e \<noteq> [] \<and> CR \<notin> set e"
  using assms sse.pieces_joined [of collect pieces "sse_reset p" "[]"] feed_events [of "concat pieces" p "[]"]
    sse_dispatch_no_CR [of "[]" "sse_lines [] (concat pieces)" e] sse_lines_no_eol [of "[]" _ "concat pieces"]
  by (auto simp: same_run_def sse_events_def)

lemma sse_events_have_data_witness: "''a'' \<noteq> [] \<and> CR \<notin> set ''a''"
proof (rule sse_events_have_data)
  show "''a'' \<in> set (snd (snd (feed_pieces (feed collect) [''data:a'' @ [LF, LF]] (sse_reset sse_init) [])))"
    by code_simp
qed

end
