(* ===== verification/Http_Stream.thy ===== *)
theory Http_Stream
  imports Stream_State Sse_Parser
begin

text \<open>
  One \<open>HttpStream\<close> (\<open>src/http_stream.cpp\<close>): \<open>open\<close> and \<open>close\<close> called from any thread, and on the stream's strand
  \<open>serve\<close>, the coroutines \<open>serve_sessions\<close>, \<open>run_session\<close>, \<open>do_stream_session_*\<close> and \<open>stream_response\<close>, and the
  handler that cancels a session's I/O.

  The only word other threads share with the strand is \<open>state_\<close>.  A move is one load or compare-exchange of
  it with the code up to the next one, one callback, or one completion of an asynchronous operation; between
  two moves any other thread may act.  What the network, the TLS library and the callbacks do is chosen by
  the environment, as the \<open>happening\<close> of a move.
\<close>

section \<open>State\<close>

text \<open>The callbacks of the constructor, with the arguments the stream passes.\<close>

datatype callback = On_connected | On_disconnected | On_data string | On_error string

text \<open>What an observer sees, per generation: a successful \<open>open\<close>, the end of the generation, the start of a callback.\<close>

datatype stream_event = Opened nat | Ended nat | Called nat callback

text \<open>The asynchronous operations of \<open>stream_response\<close> before the body.\<close>

datatype io = Resolve | Connect | Handshake | Write_request | Read_header

text \<open>How a read of the body ended: without error (or with \<open>need_buffer\<close>), or with an error and its message.\<close>

datatype read_end = Goes_on | Stops string

text \<open>What follows a callback that runs inside a session.\<close>

datatype continuation =
    After_rejected                        \<comment> \<open>\<open>on_error_\<close> for a status other than 200\<close>
  | After_connected
  | After_data "string list" read_end     \<comment> \<open>the events of this read still to deliver, and how the read ended\<close>
  | After_read_error
  | After_caught                          \<comment> \<open>\<open>on_error_\<close> in the catch block of \<open>run_session\<close>, by \<open>invoke_logged\<close>\<close>

text \<open>Where the coroutines are; the word is the session's generation.\<close>

datatype position =
    Not_serving
  | Spawned                               \<comment> \<open>\<open>co_spawn\<close> has queued \<open>serve_sessions\<close>\<close>
  | Serve_loop                            \<comment> \<open>top of the loop of \<open>serve_sessions\<close>\<close>
  | Catch_up "64 word"                    \<comment> \<open>\<open>while (++served_generation_ != generation)\<close>\<close>
  | Setup "64 word"                       \<comment> \<open>\<open>run_session\<close>, before \<open>session_io\<close> is constructed\<close>
  | Check "64 word" "io option"           \<comment> \<open>\<open>throw_if_closed\<close> after this operation (or before the first)\<close>
  | Wait "64 word" io                     \<comment> \<open>suspended on this operation\<close>
  | Got_header "64 word"
  | About_to "64 word" callback continuation  \<comment> \<open>the check before this callback has passed\<close>
  | In_callback "64 word" continuation
  | Body "64 word"                        \<comment> \<open>the condition of the body loop\<close>
  | Reading "64 word"                     \<comment> \<open>suspended on \<open>async_read_some\<close>\<close>
  | Read "64 word" string read_end        \<comment> \<open>the read returned these bytes\<close>
  | Deliver "64 word" "string list" read_end
  | Closing_socket "64 word"              \<comment> \<open>the graceful shutdown\<close>
  | Caught "64 word" string               \<comment> \<open>the catch block of \<open>run_session\<close>\<close>
  | Ending "64 word"                      \<comment> \<open>\<open>end_generation(generation)\<close>\<close>
  | Finishing "64 word"                   \<comment> \<open>\<open>on_disconnected_\<close>\<close>
  | Escaped                               \<comment> \<open>an exception left \<open>serve_sessions\<close>; its completion handler is next\<close>

record stream =
  use_ssl :: bool
  packed :: "64 word"                     \<comment> \<open>\<open>state_\<close>\<close>
  serving :: bool
  served :: "64 word"                     \<comment> \<open>\<open>served_generation_\<close>\<close>
  parser :: sse_parser
  session_io :: "64 word option"          \<comment> \<open>\<open>session_io_\<close>: the generation of the registered I/O\<close>
  cancelled :: bool                       \<comment> \<open>\<open>cancel()\<close> was called on the registered I/O\<close>
  is_sse :: bool
  body_done :: bool                       \<comment> \<open>\<open>parser.is_done()\<close>\<close>
  position :: position
  open_calls :: nat                          \<comment> \<open>\<open>open()\<close> calls between their swap and their \<open>post\<close>\<close>
  serve_posts :: nat                      \<comment> \<open>posted \<open>serve\<close> handlers\<close>
  close_calls :: nat                          \<comment> \<open>\<open>close()\<close> calls between their swap and their \<open>post\<close>\<close>
  cancel_posts :: nat                     \<comment> \<open>posted cancel handlers\<close>
  received :: string                      \<comment> \<open>history: the body bytes taken in by this session\<close>
  decoded :: "string list"                \<comment> \<open>history: the \<open>onData\<close> calls they stand for\<close>
  escaped :: bool                         \<comment> \<open>history: an exception has left \<open>serve_sessions\<close>\<close>
  trace :: "stream_event list"            \<comment> \<open>history\<close>

definition stream_init :: "bool \<Rightarrow> stream" where
  "stream_init ssl = \<lparr>use_ssl = ssl, packed = initial_state, serving = False, served = 0, parser = sse_init,
     session_io = None, cancelled = False, is_sse = False, body_done = False, position = Not_serving,
     open_calls = 0, serve_posts = 0, close_calls = 0, cancel_posts = 0, received = [], decoded = [],
     escaped = False, trace = []\<rparr>"

definition called :: "64 word \<Rightarrow> callback \<Rightarrow> stream \<Rightarrow> stream" where
  "called g c s = s\<lparr>trace := trace s @ [Called (unat g) c]\<rparr>"

text \<open>Leaving \<open>stream_response\<close> destroys \<open>io\<close>, which unregisters it.\<close>

definition leave :: "position \<Rightarrow> stream \<Rightarrow> stream" where
  "leave p s = s\<lparr>session_io := None, position := p\<rparr>"

section \<open>The session on the strand\<close>

datatype happening =
    Runs                                  \<comment> \<open>the code goes on\<close>
  | Done                                  \<comment> \<open>the operation completed, or the callback returned\<close>
  | Fails string                          \<comment> \<open>the operation failed, or the callback threw a \<open>std::exception\<close>\<close>
  | Throws                                \<comment> \<open>the callback threw something else\<close>
  | Header "string option"                \<comment> \<open>status 200, or the reason phrase of another status\<close>
  | Content bool bool                     \<comment> \<open>\<open>onConnected\<close> returned; is it an event stream, is the body complete\<close>
  | Bytes string read_end bool            \<comment> \<open>the decoded bytes, how the read ended, is the body complete\<close>

text \<open>What \<open>stream_response\<close> does after the check that follows an operation.\<close>

fun next_io :: "bool \<Rightarrow> 64 word \<Rightarrow> io option \<Rightarrow> position" where
  "next_io ssl g None = Wait g Resolve"
| "next_io ssl g (Some Resolve) = Wait g Connect"
| "next_io ssl g (Some Connect) = Wait g (if ssl then Handshake else Write_request)"
| "next_io ssl g (Some Handshake) = Wait g Write_request"
| "next_io ssl g (Some Write_request) = Wait g Read_header"
| "next_io ssl g (Some Read_header) = Got_header g"

definition serve_loop :: "stream \<Rightarrow> stream" where
  "serve_loop s =
     (let generation = generation_of (packed s) in
      if generation = served s then s\<lparr>serving := False, position := Not_serving\<rparr>
      else s\<lparr>position := Catch_up generation\<rparr>)"

definition catch_up :: "64 word \<Rightarrow> stream \<Rightarrow> stream" where
  "catch_up g s =
     (let n = served s + 1 in
      if n = g then s\<lparr>served := n, received := [], decoded := [], position := Setup g\<rparr>
      else called n On_disconnected (s\<lparr>served := n\<rparr>))"

definition caught :: "64 word \<Rightarrow> string \<Rightarrow> stream \<Rightarrow> stream" where
  "caught g e s =
     (if is_current g (packed s) then s\<lparr>position := About_to g (On_error e) After_caught\<rparr>
      else s\<lparr>position := Ending g\<rparr>)"

definition ending :: "64 word \<Rightarrow> stream \<Rightarrow> stream" where
  "ending g s =
     (case end_update g (packed s) of
        None \<Rightarrow> s\<lparr>position := Finishing g\<rparr>
      | Some w \<Rightarrow> s\<lparr>packed := w, trace := trace s @ [Ended (unat g)], position := Finishing g\<rparr>)"

fun serve_move :: "position \<Rightarrow> happening \<Rightarrow> stream \<Rightarrow> stream option" where
  "serve_move Spawned h s = (case h of Runs \<Rightarrow> Some (s\<lparr>position := Serve_loop\<rparr>) | _ \<Rightarrow> None)"
| "serve_move Serve_loop h s = (case h of Runs \<Rightarrow> Some (serve_loop s) | _ \<Rightarrow> None)"
| "serve_move (Catch_up g) h s = (case h of Runs \<Rightarrow> Some (catch_up g s) | _ \<Rightarrow> None)"
| "serve_move (Setup g) h s = (case h of
       Runs \<Rightarrow> Some (s\<lparr>session_io := Some g, cancelled := False, position := Check g None\<rparr>)
     | Fails e \<Rightarrow> if use_ssl s then Some (s\<lparr>position := Caught g e\<rparr>) else None
     | _ \<Rightarrow> None)"
| "serve_move (Closing_socket g) h s = (case h of Done \<Rightarrow> Some (s\<lparr>position := Ending g\<rparr>) | _ \<Rightarrow> None)"
| "serve_move (Caught g e) h s = (case h of Runs \<Rightarrow> Some (caught g e s) | _ \<Rightarrow> None)"
| "serve_move (Ending g) h s = (case h of Runs \<Rightarrow> Some (ending g s) | _ \<Rightarrow> None)"
| "serve_move (Finishing g) h s =
     (case h of Runs \<Rightarrow> Some (called g On_disconnected (s\<lparr>position := Serve_loop\<rparr>)) | _ \<Rightarrow> None)"
| "serve_move Escaped h s =
     (case h of Runs \<Rightarrow> Some (s\<lparr>serving := False, position := Not_serving\<rparr>) | _ \<Rightarrow> None)"
| "serve_move _ h s = None"

text \<open>
  \<open>stream_response\<close>.  The SSE parser is run for the whole read and its events are then delivered one by one,
  each behind the check of \<open>deliver_event\<close>; when a callback throws, the events left are dropped with the
  session (the parser is reset before the next response).
\<close>

definition check :: "64 word \<Rightarrow> io option \<Rightarrow> stream \<Rightarrow> stream" where
  "check g prev s =
     (if is_current g (packed s) then s\<lparr>position := next_io (use_ssl s) g prev\<rparr>
      else leave (Caught g ''operation aborted'') s)"

fun got_header :: "64 word \<Rightarrow> string option \<Rightarrow> stream \<Rightarrow> stream" where
  "got_header g (Some reason) s =
     called g (On_error (''HTTP error: '' @ reason)) (s\<lparr>position := In_callback g After_rejected\<rparr>)"
| "got_header g None s =
     (if packed s = make_state g CONNECTING
      then s\<lparr>packed := make_state g CONNECTED, position := About_to g On_connected After_connected\<rparr>
      else leave (Closing_socket g) s)"

fun after_callback :: "64 word \<Rightarrow> continuation \<Rightarrow> happening \<Rightarrow> stream \<Rightarrow> stream option" where
  "after_callback g k (Fails e) s =
     Some (if k = After_caught then s\<lparr>position := Ending g\<rparr> else leave (Caught g e) s)"
| "after_callback g k Throws s =
     Some (if k = After_caught then s\<lparr>position := Ending g\<rparr> else leave Escaped s\<lparr>escaped := True\<rparr>)"
| "after_callback g After_connected (Content sse complete) s =
     Some (s\<lparr>is_sse := sse, parser := sse_reset (parser s), body_done := complete, position := Body g\<rparr>)"
| "after_callback g After_rejected Done s = Some (leave (Ending g) s)"
| "after_callback g (After_data ds e) Done s = Some (s\<lparr>position := Deliver g ds e\<rparr>)"
| "after_callback g After_read_error Done s = Some (leave (Closing_socket g) s)"
| "after_callback g After_caught Done s = Some (s\<lparr>position := Ending g\<rparr>)"
| "after_callback g k h s = None"

definition body_loop :: "64 word \<Rightarrow> stream \<Rightarrow> stream" where
  "body_loop g s =
     (if \<not> body_done s \<and> is_current g (packed s) then s\<lparr>position := Reading g\<rparr>
      else leave (Closing_socket g) s)"

definition read_returned :: "64 word \<Rightarrow> string \<Rightarrow> read_end \<Rightarrow> stream \<Rightarrow> stream" where
  "read_returned g bs e s =
     (if \<not> is_current g (packed s) then leave (Closing_socket g) s
      else if bs = [] then s\<lparr>position := Deliver g [] e\<rparr>
      else if is_sse s
      then (case feed collect bs (parser s) [] of (_, p, ds) \<Rightarrow>
              s\<lparr>parser := p, received := received s @ bs, decoded := decoded s @ ds, position := Deliver g ds e\<rparr>)
      else s\<lparr>received := received s @ bs, decoded := decoded s @ [bs],
             position := About_to g (On_data bs) (After_data [] e)\<rparr>)"

fun deliver :: "64 word \<Rightarrow> string list \<Rightarrow> read_end \<Rightarrow> stream \<Rightarrow> stream" where
  "deliver g (d # ds) e s =
     (if is_current g (packed s) then s\<lparr>position := About_to g (On_data d) (After_data ds e)\<rparr>
      else s\<lparr>position := Deliver g ds e\<rparr>)"
| "deliver g [] Goes_on s = s\<lparr>position := Body g\<rparr>"
| "deliver g [] (Stops e) s =
     (if is_current g (packed s) then s\<lparr>position := About_to g (On_error e) After_read_error\<rparr>
      else leave (Closing_socket g) s)"

fun response_move :: "position \<Rightarrow> happening \<Rightarrow> stream \<Rightarrow> stream option" where
  "response_move (Check g prev) h s = (case h of Runs \<Rightarrow> Some (check g prev s) | _ \<Rightarrow> None)"
| "response_move (Wait g io) h s = (case h of
       Done \<Rightarrow> Some (s\<lparr>position := Check g (Some io)\<rparr>)
     | Fails e \<Rightarrow> Some (leave (Caught g e) s)
     | _ \<Rightarrow> None)"
| "response_move (Got_header g) h s = (case h of Header r \<Rightarrow> Some (got_header g r s) | _ \<Rightarrow> None)"
| "response_move (About_to g c k) h s =
     (case h of Runs \<Rightarrow> Some (called g c (s\<lparr>position := In_callback g k\<rparr>)) | _ \<Rightarrow> None)"
| "response_move (In_callback g k) h s = after_callback g k h s"
| "response_move (Body g) h s = (case h of Runs \<Rightarrow> Some (body_loop g s) | _ \<Rightarrow> None)"
| "response_move (Reading g) h s = (case h of
       Bytes bs e complete \<Rightarrow>
         if length bs \<le> 8192 then Some (s\<lparr>body_done := complete, position := Read g bs e\<rparr>) else None
     | _ \<Rightarrow> None)"
| "response_move (Read g bs e) h s = (case h of Runs \<Rightarrow> Some (read_returned g bs e s) | _ \<Rightarrow> None)"
| "response_move (Deliver g ds e) h s = (case h of Runs \<Rightarrow> Some (deliver g ds e s) | _ \<Rightarrow> None)"
| "response_move _ h s = None"

section \<open>Moves\<close>

text \<open>The strand runs another handler only while no coroutine of the stream is running.\<close>

fun suspended :: "position \<Rightarrow> bool" where
  "suspended Not_serving = True"
| "suspended Spawned = True"
| "suspended (Wait _ _) = True"
| "suspended (Reading _) = True"
| "suspended (Closing_socket _) = True"
| "suspended Escaped = True"
| "suspended _ = False"

datatype move =
    Serves happening        \<comment> \<open>\<open>serve_sessions\<close>, \<open>run_session\<close>\<close>
  | Responds happening      \<comment> \<open>\<open>stream_response\<close>\<close>
  | Opens                   \<comment> \<open>\<open>open()\<close> up to its swap\<close>
  | Posts_serve             \<comment> \<open>the rest of \<open>open()\<close>\<close>
  | Closes                  \<comment> \<open>\<open>close()\<close> up to its swap\<close>
  | Posts_cancel            \<comment> \<open>the rest of \<open>close()\<close>\<close>
  | Runs_serve              \<comment> \<open>a posted \<open>serve()\<close> runs on the strand\<close>
  | Runs_cancel             \<comment> \<open>a posted cancel handler runs on the strand\<close>

fun moved :: "move \<Rightarrow> stream \<Rightarrow> stream option" where
  "moved (Serves h) s = serve_move (position s) h s"
| "moved (Responds h) s = response_move (position s) h s"
| "moved Opens s = (case open_update (packed s) of
     None \<Rightarrow> Some s
   | Some w \<Rightarrow> Some (s\<lparr>packed := w, open_calls := Suc (open_calls s), trace := trace s @ [Opened (unat (generation_of w))]\<rparr>))"
| "moved Posts_serve s = (case open_calls s of
     0 \<Rightarrow> None | Suc n \<Rightarrow> Some (s\<lparr>open_calls := n, serve_posts := Suc (serve_posts s)\<rparr>))"
| "moved Closes s = (case end_update any_generation (packed s) of
     None \<Rightarrow> Some s
   | Some w \<Rightarrow> Some (s\<lparr>packed := w, close_calls := Suc (close_calls s), trace := trace s @ [Ended (unat (generation_of w))]\<rparr>))"
| "moved Posts_cancel s = (case close_calls s of
     0 \<Rightarrow> None | Suc n \<Rightarrow> Some (s\<lparr>close_calls := n, cancel_posts := Suc (cancel_posts s)\<rparr>))"
| "moved Runs_serve s = (case serve_posts s of
     0 \<Rightarrow> None
   | Suc n \<Rightarrow>
       if \<not> suspended (position s) then None
       else if serving s \<or> generation_of (packed s) = served s then Some (s\<lparr>serve_posts := n\<rparr>)
       else Some (s\<lparr>serve_posts := n, serving := True, position := Spawned\<rparr>))"
| "moved Runs_cancel s = (case cancel_posts s of
     0 \<Rightarrow> None
   | Suc n \<Rightarrow>
       if \<not> suspended (position s) then None
       else (case session_io s of
           None \<Rightarrow> Some (s\<lparr>cancel_posts := n\<rparr>)
         | Some g \<Rightarrow> Some (s\<lparr>cancel_posts := n, cancelled := cancelled s \<or> \<not> is_current g (packed s)\<rparr>)))"

inductive stream_step :: "stream \<Rightarrow> stream \<Rightarrow> bool" where
  move: "moved m s = Some t \<Longrightarrow> stream_step s t"

inductive_cases stream_stepE: "stream_step s t"

fun schedule :: "move list \<Rightarrow> stream \<Rightarrow> stream option" where
  "schedule [] s = Some s"
| "schedule (m # ms) s = (case moved m s of None \<Rightarrow> None | Some t \<Rightarrow> schedule ms t)"

lemma schedule_steps: "schedule ms s = Some t \<Longrightarrow> stream_step\<^sup>*\<^sup>* s t"
proof (induction ms arbitrary: s)
  case (Cons m ms)
  show ?case
  proof (cases "moved m s")
    case None
    then show ?thesis using Cons.prems by simp
  next
    case (Some u)
    then have "stream_step\<^sup>*\<^sup>* u t" using Cons by simp
    with stream_step.move [OF Some] show ?thesis by (rule converse_rtranclp_into_rtranclp)
  qed
qed simp

lemma schedule_reaches: "schedule ms (stream_init ssl) = Some t \<Longrightarrow> reachable (stream_init ssl) stream_step t"
  by (rule steps_reachable [OF schedule_steps reachable.start])

end
