(* ===== verification/Stream_Connect.thy ===== *)
theory Stream_Connect
  imports Http_Request Http_Stream
begin

text \<open>
  How an \<open>HttpStream\<close> connects (\<open>http_stream.cpp\<close>): the constructor, the request, and \<open>do_stream_session_ssl\<close>,
  \<open>do_stream_session_plain\<close> and \<open>stream_response\<close> up to the response header, over an arbitrary network; and that the
  step function of \<open>Http_Stream\<close>, which leaves the network to the environment, goes through the same operations.
\<close>

section \<open>The constructor and the request\<close>

record stream_config =
  cfg_host :: string
  cfg_target :: string
  cfg_port :: string
  cfg_use_ssl :: bool
  cfg_host_header :: string
  cfg_headers :: "(string \<times> string) list"

text \<open>A malformed URL throws out of the constructor.\<close>

definition new_stream :: "string \<Rightarrow> (string \<times> string) list \<Rightarrow> url_error + stream_config" where
  "new_stream url headers =
     (case parse_url url of
        Inl e \<Rightarrow> Inl e
      | Inr (host, target, port, ssl, host_header) \<Rightarrow>
          Inr \<lparr>cfg_host = host, cfg_target = target, cfg_port = port, cfg_use_ssl = ssl, cfg_host_header = host_header,
               cfg_headers = headers\<rparr>)"

definition stream_request :: "'f beast \<Rightarrow> stream_config \<Rightarrow> 'f message" where
  "stream_request b cfg =
     (let fields = set_field b ''Host'' (cfg_host_header cfg) (no_fields b);
          fields = set_field b ''User-Agent'' (version_string b) fields;
          fields = set_field b ''Accept'' ''text/event-stream'' fields;
          fields = set_field b ''Cache-Control'' ''no-cache'' fields
      in \<lparr>msg_verb = Get, msg_target = cfg_target cfg, msg_version = 11, msg_fields = set_headers b (cfg_headers cfg) fields,
          msg_body = []\<rparr>)"

section \<open>The response header\<close>

record 'f stream_reply =
  reply_status :: nat
  reply_reason :: string
  reply_fields :: 'f

text \<open>A field that is missing reads as the empty string.\<close>

definition is_event_stream :: "'f beast \<Rightarrow> 'f \<Rightarrow> bool" where
  "is_event_stream b f =
     (find_str (case get_field b f ''Content-Type'' of Some v \<Rightarrow> v | None \<Rightarrow> []) ''text/event-stream'' \<noteq> None)"

text \<open>What the step function is told of the header, and of the body once \<open>onConnected\<close> has returned.\<close>

definition header_happening :: "'f stream_reply \<Rightarrow> happening" where
  "header_happening reply = Header (if reply_status reply \<noteq> 200 then Some (reply_reason reply) else None)"

definition body_happening :: "'f beast \<Rightarrow> 'f stream_reply \<Rightarrow> bool \<Rightarrow> happening" where
  "body_happening b reply complete = Content (is_event_stream b (reply_fields reply)) complete"

section \<open>The session up to the header\<close>

text \<open>
  What it runs on: \<open>closed n\<close> is what the \<open>n\<close>-th \<open>throw_if_closed\<close> throws when another thread has ended the generation
  by then.
\<close>

record 'f stream_world =
  stream_client :: "'f client"
  header_answer :: "string + 'f stream_reply"
  closed :: "nat \<Rightarrow> string option"

definition throw_if_closed :: "'f stream_world \<Rightarrow> nat \<Rightarrow> ('f, unit) session" where
  "throw_if_closed w n = ([], case closed w n of None \<Rightarrow> Inr () | Some what \<Rightarrow> Inl (Std_exception what))"

definition request_header :: "bool \<Rightarrow> 'f stream_world \<Rightarrow> stream_config \<Rightarrow> ('f, 'f stream_reply) session" where
  "request_header secure w cfg =
     and_then (await (Writes secure (stream_request (lib (stream_client w)) cfg)) (write_answer (net (stream_client w)))) (\<lambda>_.
     and_then (throw_if_closed w 4) (\<lambda>_.
     case header_answer w of
       Inl what \<Rightarrow> ([Reads], Inl (Std_exception what))
     | Inr reply \<Rightarrow> and_then ([Reads], Inr ()) (\<lambda>_. and_then (throw_if_closed w 5) (\<lambda>_. ([], Inr reply)))))"

text \<open>\<open>stream_response\<close>; the handshake is only compiled for an \<open>ssl::stream\<close>, which brings its handle.\<close>

definition stream_response :: "'f stream_world \<Rightarrow> stream_config \<Rightarrow> ssl_handle option \<Rightarrow> ('f, 'f stream_reply) session" where
  "stream_response w cfg tls =
     (let c = stream_client w; host = cfg_host cfg; port = cfg_port cfg in
     and_then (throw_if_closed w 0) (\<lambda>_.
     and_then (await (Resolves host port) (resolve_answer (net c) host port)) (\<lambda>_.
     and_then (throw_if_closed w 1) (\<lambda>_.
     and_then (await Connects (connect_answer (net c))) (\<lambda>_.
     and_then (throw_if_closed w 2) (\<lambda>_.
     case tls of
       None \<Rightarrow> request_header False w cfg
     | Some handle \<Rightarrow>
         and_then (await (Handshakes handle)
             (case handshake_answer (net c) handle of
                None \<Rightarrow> None
              | Some ec \<Rightarrow> (case tls_handshake_error (openssl c) ec of (code, what) \<Rightarrow> Some (system_text c code what)))) (\<lambda>_.
         and_then (throw_if_closed w 3) (\<lambda>_.
         request_header True w cfg))))))))"

definition stream_session :: "'f stream_world \<Rightarrow> stream_config \<Rightarrow> ('f, 'f stream_reply) session" where
  "stream_session w cfg =
     (if cfg_use_ssl cfg
      then (case set_tls_peer_host (openssl (stream_client w)) (cfg_host cfg) fresh_handle of
          (Some ec, _) \<Rightarrow> ([], Inl (Std_exception (''Error setting TLS peer host: '' @ error_text (stream_client w) ec)))
        | (None, handle) \<Rightarrow> stream_response w cfg (Some handle))
      else stream_response w cfg None)"

section \<open>The peer of a request\<close>

lemmas stream_session_simps = session_simps throw_if_closed_def

lemma request_header_Writes: "Writes b m \<in> set (fst (request_header secure w cfg)) \<Longrightarrow>
    b = secure \<and> m = stream_request (lib (stream_client w)) cfg"
  by (auto simp: request_header_def stream_session_simps split: sum.splits option.splits)

lemma response_Writes:
  assumes "Writes b m \<in> set (fst (stream_response w cfg tls))"
  shows "m = stream_request (lib (stream_client w)) cfg \<and> (b \<longleftrightarrow> tls \<noteq> None)
    \<and> (\<forall>handle. tls = Some handle \<longrightarrow> handshake_answer (net (stream_client w)) handle = None)"
  using assms
  by (auto simp: stream_response_def Let_def stream_session_simps dest!: request_header_Writes split: sum.splits option.splits prod.splits)

lemma stream_Writes:
  assumes "Writes b m \<in> set (fst (stream_session w cfg))"
  shows "m = stream_request (lib (stream_client w)) cfg \<and> (b \<longleftrightarrow> cfg_use_ssl cfg)
    \<and> (b \<longrightarrow> (\<exists>handle. set_tls_peer_host (openssl (stream_client w)) (cfg_host cfg) fresh_handle = (None, handle)
          \<and> handshake_answer (net (stream_client w)) handle = None))"
proof (cases "cfg_use_ssl cfg")
  case True
  then obtain handle where "set_tls_peer_host (openssl (stream_client w)) (cfg_host cfg) fresh_handle = (None, handle)"
      "Writes b m \<in> set (fst (stream_response w cfg (Some handle)))"
    using assms by (auto simp: stream_session_def split: prod.splits option.splits)
  then show ?thesis using True response_Writes by blast
next
  case False
  then show ?thesis using assms response_Writes [of b m w cfg None] by (auto simp: stream_session_def)
qed

interpretation stream_peers: identified_peers "\<lambda>(w, cfg). fst (stream_session w cfg)" net_sends
  "\<lambda>(w, cfg). net (stream_client w)" "\<lambda>(w, cfg). openssl (stream_client w)" "\<lambda>(w, cfg). (cfg_use_ssl cfg, cfg_host cfg)"
  by unfold_locales (auto simp: net_sends_Some dest!: stream_Writes)

section \<open>The step function goes through the same operations\<close>

fun io_of :: "'f net_call \<Rightarrow> io" where
  "io_of (Resolves host port) = Resolve"
| "io_of Connects = Connect"
| "io_of (Handshakes handle) = Handshake"
| "io_of (Writes secure m) = Write_request"
| "io_of _ = Read_header"

fun what_of :: "thrown \<Rightarrow> string" where
  "what_of (Std_exception what) = what"
| "what_of Other_exception = []"

text \<open>How the operation of a call ends: the message of its error, if it has one.\<close>

fun call_fails :: "'f stream_world \<Rightarrow> 'f net_call \<Rightarrow> string option" where
  "call_fails w (Resolves host port) = resolve_answer (net (stream_client w)) host port"
| "call_fails w Connects = connect_answer (net (stream_client w))"
| "call_fails w (Handshakes handle) =
     (case handshake_answer (net (stream_client w)) handle of
        None \<Rightarrow> None
      | Some ec \<Rightarrow> (case tls_handshake_error (openssl (stream_client w)) ec of
            (code, what) \<Rightarrow> Some (system_text (stream_client w) code what)))"
| "call_fails w (Writes secure m) = write_answer (net (stream_client w))"
| "call_fails w _ = (case header_answer w of Inl what \<Rightarrow> Some what | Inr _ \<Rightarrow> None)"

text \<open>The \<open>throw_if_closed\<close> behind each operation; 0 is the one before the first.\<close>

fun check_after :: "io \<Rightarrow> nat" where
  "check_after Resolve = 1"
| "check_after Connect = 2"
| "check_after Handshake = 3"
| "check_after Write_request = 4"
| "check_after Read_header = 5"

text \<open>Another thread's \<open>close()\<close>, when the generation is over by the \<open>n\<close>-th check.\<close>

definition closing_by :: "'f stream_world \<Rightarrow> nat \<Rightarrow> move list" where
  "closing_by w n = (if closed w n = None then [] else [move.Closes])"

text \<open>
  The step function driven by the network and by the other threads of \<open>w\<close>: it has to wait for exactly the calls of the
  list, in this order.  An operation that fails has to be the last one; what follows one that succeeds is up to the step
  function.
\<close>

fun session_run :: "'f stream_world \<Rightarrow> 'f net_call list \<Rightarrow> 64 word \<Rightarrow> stream \<Rightarrow> stream option" where
  "session_run w [] g s = Some s"
| "session_run w (c # cs) g s =
     (if position s \<noteq> Wait g (io_of c) then None
      else case call_fails w c of
          Some what \<Rightarrow>
            if cs = [] then schedule (closing_by w (check_after (io_of c)) @ [Responds (Fails what)]) s else None
        | None \<Rightarrow> Option.bind (schedule (closing_by w (check_after (io_of c)) @ [Responds Done, Responds Runs]) s) (session_run w cs g))"

text \<open>From the start of the session; the peer's host is set before \<open>session_io\<close> exists.\<close>

definition peer_rejected :: "'f stream_world \<Rightarrow> stream_config \<Rightarrow> bool" where
  "peer_rejected w cfg \<longleftrightarrow>
     cfg_use_ssl cfg \<and> fst (set_tls_peer_host (openssl (stream_client w)) (cfg_host cfg) fresh_handle) \<noteq> None"

definition stream_run :: "'f stream_world \<Rightarrow> stream_config \<Rightarrow> 64 word \<Rightarrow> stream \<Rightarrow> stream option" where
  "stream_run w cfg g s =
     (if peer_rejected w cfg
      then (case stream_session w cfg of
          ([], Inl e) \<Rightarrow> schedule (closing_by w 0 @ [Serves (Fails (what_of e))]) s
        | _ \<Rightarrow> None)
      else Option.bind (schedule (closing_by w 0 @ [Serves Runs, Responds Runs]) s) (session_run w (fst (stream_session w cfg)) g))"

lemma session_run_steps: "session_run w calls g s = Some t \<Longrightarrow> stream_step\<^sup>*\<^sup>* s t"
proof (induction w calls g s rule: session_run.induct)
  case (2 w c cs g s)
  show ?case
  proof (cases "call_fails w c")
    case None
    then obtain u where "schedule (closing_by w (check_after (io_of c)) @ [Responds Done, Responds Runs]) s = Some u"
        "session_run w cs g u = Some t" "position s = Wait g (io_of c)"
      using "2.prems" by (auto simp del: schedule.simps simp: bind_eq_Some_conv split: if_splits)
    with "2.IH" None show ?thesis by (metis schedule_steps rtranclp_trans)
  qed (use "2.prems" in \<open>auto simp del: schedule.simps split: if_splits intro: schedule_steps\<close>)
qed simp

lemma stream_run_steps:
  assumes "stream_run w cfg g s = Some t"
  shows "stream_step\<^sup>*\<^sup>* s t"
proof -
  consider ms where "schedule ms s = Some t"
    | ms u where "schedule ms s = Some u" "session_run w (fst (stream_session w cfg)) g u = Some t"
    using assms
    by (auto simp del: schedule.simps simp: stream_run_def bind_eq_Some_conv split: if_splits prod.splits list.splits sum.splits)
  then show ?thesis by cases (auto intro: schedule_steps rtranclp_trans [OF schedule_steps session_run_steps])
qed

text \<open>The stream once \<open>close()\<close> has ended generation \<open>g\<close>.\<close>

definition closed_stream :: "64 word \<Rightarrow> stream \<Rightarrow> stream" where
  "closed_stream g s = s\<lparr>packed := make_state g DISCONNECTED, close_calls := Suc (close_calls s), trace := trace s @ [Ended (unat g)]\<rparr>"

lemma closed_stream_simps [simp]:
  "position (closed_stream g s) = position s" "use_ssl (closed_stream g s) = use_ssl s"
  "packed (closed_stream g s) = make_state g DISCONNECTED" "trace (closed_stream g s) = trace s @ [Ended (unat g)]"
  by (simp_all add: closed_stream_def)

lemma current_generation: "is_current g w \<Longrightarrow> unat g < 2 ^ 62"
  using generation_of_less [of w] by (auto simp: is_current_def)

lemma not_current_closed: "is_current g w \<Longrightarrow> \<not> is_current g (make_state g DISCONNECTED)"
  using current_generation by (simp add: is_current_def)

lemma closes_current:
  assumes "is_current g (packed s)"
  shows "schedule (closing_by w n @ ms) s = schedule ms (if closed w n = None then s else closed_stream g s)"
  using assms current_generation [OF assms] by (auto simp: closing_by_def closed_stream_def end_update_def is_current_def)

text \<open>
  Where a session of generation \<open>g\<close> that ended with \<open>r\<close> has left the step function: with the header, or in the \<open>catch\<close>
  block; \<open>ended\<close> says whether somebody closed the stream meanwhile.
\<close>

definition outcome :: "64 word \<Rightarrow> bool \<Rightarrow> stream \<Rightarrow> thrown + 'a \<Rightarrow> stream \<Rightarrow> bool" where
  "outcome g ended s r t \<longleftrightarrow>
     (if ended then packed t = make_state g DISCONNECTED \<and> trace t = trace s @ [Ended (unat g)]
      else packed t = packed s \<and> trace t = trace s)
     \<and> (case r of
          Inl e \<Rightarrow> \<exists>what. position t = Caught g what \<and> (ended \<or> what = what_of e)
        | Inr _ \<Rightarrow> \<not> ended \<and> position t = Got_header g \<and> session_io t = Some g)"

definition closed_behind :: "'f stream_world \<Rightarrow> 'f net_call \<Rightarrow> bool" where
  "closed_behind w c \<longleftrightarrow> closed w (check_after (io_of c)) \<noteq> None"

definition follows :: "'f stream_world \<Rightarrow> 64 word \<Rightarrow> ('f, 'a) session \<Rightarrow> stream \<Rightarrow> bool" where
  "follows w g p s \<longleftrightarrow> (\<exists>t. session_run w (fst p) g s = Some t \<and> outcome g (list_ex (closed_behind w) (fst p)) s (snd p) t)"

lemma outcome_position [simp]: "outcome g ended (s\<lparr>position := x\<rparr>) r t = outcome g ended s r t"
  by (simp add: outcome_def cong: sum.case_cong)

lemma outcome_caught:
  assumes "b \<or> what = what_of e"
  shows "outcome g b s (Inl e) (leave (Caught g what) (if b then closed_stream g s else s))"
  using assms by (auto simp: outcome_def leave_def)

text \<open>One operation with the check behind it, followed by the rest of the session.\<close>

lemma follows_call:
  assumes s: "position s = Wait g (io_of c)" "is_current g (packed s)" "session_io s = Some g" and n: "n = check_after (io_of c)"
    and f: "f = call_fails w c" and rest: "follows w g (k ()) (s\<lparr>position := next_io (use_ssl s) g (Some (io_of c))\<rparr>)"
  shows "follows w g (and_then (await c f) (\<lambda>_. and_then (throw_if_closed w n) k)) s"
proof (cases "call_fails w c")
  case (Some what)
  let ?t = "leave (Caught g what) (if closed_behind w c then closed_stream g s else s)"
  have "session_run w [c] g s = Some ?t"
    using s Some by (simp add: closes_current n closed_behind_def del: schedule.simps) (simp add: leave_def)
  moreover have "outcome g (closed_behind w c) s (Inl (Std_exception what)) ?t" by (rule outcome_caught) simp
  ultimately show ?thesis using Some f by (auto simp: follows_def and_then_def await_def simp del: session_run.simps)
next
  case None
  show ?thesis
  proof (cases "closed w n")
    case None': None
    obtain t where "session_run w (fst (k ())) g (s\<lparr>position := next_io (use_ssl s) g (Some (io_of c))\<rparr>) = Some t"
        "outcome g (list_ex (closed_behind w) (fst (k ()))) s (snd (k ())) t"
      using rest by (auto simp: follows_def)
    moreover have "schedule (closing_by w n @ [Responds Done, Responds Runs]) s = Some (s\<lparr>position := next_io (use_ssl s) g (Some (io_of c))\<rparr>)"
      using s None' by (simp add: closes_current del: schedule.simps) (simp add: check_def)
    ultimately show ?thesis using s(1) f None None'
      by (auto simp: follows_def and_then_def await_def throw_if_closed_def closed_behind_def n simp del: schedule.simps)
  next
    case (Some what)
    have "\<not> is_current g (packed (closed_stream g s))" using not_current_closed [OF s(2)] by simp
    then have "schedule (closing_by w n @ [Responds Done, Responds Runs]) s = Some (leave (Caught g ''operation aborted'') (closed_stream g s))"
      using s Some by (simp add: closes_current del: schedule.simps) (simp add: check_def leave_def)
    moreover have "outcome g True s (Inl (Std_exception what)) (leave (Caught g ''operation aborted'') (closed_stream g s))"
      using outcome_caught [of True] by simp
    ultimately show ?thesis using s(1) f None Some
      by (auto simp: follows_def and_then_def await_def throw_if_closed_def closed_behind_def n simp del: schedule.simps)
  qed
qed

lemma follows_header:
  assumes "position s = Got_header g" "is_current g (packed s)" "session_io s = Some g"
  shows "follows w g ([], Inr reply) s"
  using assms by (simp add: follows_def outcome_def)

lemma follows_request_header:
  assumes "position s = Wait g Write_request" "is_current g (packed s)" "session_io s = Some g"
  shows "follows w g (request_header secure w cfg) s"
proof -
  have "(case header_answer w of Inl what \<Rightarrow> ([Reads], Inl (Std_exception what))
      | Inr reply \<Rightarrow> and_then ([Reads], Inr ()) (\<lambda>_. and_then (throw_if_closed w 5) (\<lambda>_. ([], Inr reply))))
    = and_then (await Reads (call_fails w Reads)) (\<lambda>_. and_then (throw_if_closed w 5) (\<lambda>_. ([], Inr (projr (header_answer w)))))"
    by (simp add: and_then_def await_def split: sum.split)
  then show ?thesis
    using assms unfolding request_header_def by (auto intro!: follows_call follows_header)
qed

text \<open>The session once it waits for the resolver.\<close>

definition session_begun :: "64 word \<Rightarrow> stream \<Rightarrow> stream" where
  "session_begun g s = s\<lparr>session_io := Some g, cancelled := False, position := Wait g Resolve\<rparr>"

lemma follows_stream_response:
  assumes "is_current g (packed s)" "use_ssl s \<longleftrightarrow> tls \<noteq> None" "closed w 0 = None"
  shows "follows w g (stream_response w cfg tls) (session_begun g s)"
proof -
  have "and_then (throw_if_closed w 0) k = k ()" for k :: "unit \<Rightarrow> ('a, 'a stream_reply) session"
    using assms(3) by (simp add: throw_if_closed_def and_then_def)
  then show ?thesis using assms unfolding stream_response_def Let_def
    by (cases tls) (auto simp: session_begun_def intro!: follows_call follows_request_header)
qed

lemma stream_run_begins:
  assumes "position s = Setup g" "is_current g (packed s)"
  shows "schedule (closing_by w 0 @ [Serves Runs, Responds Runs]) s
    = Some (if closed w 0 = None then session_begun g s else leave (Caught g ''operation aborted'') (session_begun g (closed_stream g s)))"
  using assms not_current_closed [OF assms(2)]
  by (simp add: closes_current del: schedule.simps) (simp add: check_def session_begun_def leave_def)

lemma outcome_begun [simp]: "outcome g ended (session_begun g s) r t = outcome g ended s r t"
  by (simp add: outcome_def session_begun_def cong: sum.case_cong)

lemma stream_session_response:
  assumes "\<not> peer_rejected w cfg"
  obtains tls where "stream_session w cfg = stream_response w cfg tls" "cfg_use_ssl cfg \<longleftrightarrow> tls \<noteq> None"
proof (cases "cfg_use_ssl cfg")
  case True
  obtain r handle where "set_tls_peer_host (openssl (stream_client w)) (cfg_host cfg) fresh_handle = (r, handle)" by fastforce
  then show ?thesis using that [of "Some handle"] assms True by (simp add: peer_rejected_def stream_session_def)
qed (use that [of None] in \<open>simp add: stream_session_def\<close>)

text \<open>Whether the generation has been ended by the last point the session gets to.\<close>

definition ended_meanwhile :: "'f stream_world \<Rightarrow> stream_config \<Rightarrow> bool" where
  "ended_meanwhile w cfg \<longleftrightarrow> closed w 0 \<noteq> None \<or> list_ex (closed_behind w) (fst (stream_session w cfg))"

lemma stream_run_outcome:
  assumes s: "position s = Setup g" "is_current g (packed s)" "use_ssl s = cfg_use_ssl cfg"
  shows "\<exists>t. stream_run w cfg g s = Some t \<and> outcome g (ended_meanwhile w cfg) s (snd (stream_session w cfg)) t"
proof (cases "peer_rejected w cfg")
  case True
  then obtain ec handle where "set_tls_peer_host (openssl (stream_client w)) (cfg_host cfg) fresh_handle = (Some ec, handle)" "cfg_use_ssl cfg"
    unfolding peer_rejected_def by (metis option.exhaust prod.collapse)
  then obtain e where e: "stream_session w cfg = ([], Inl e)" "use_ssl s" using s(3) by (simp add: stream_session_def)
  let ?t = "(if closed w 0 = None then s else closed_stream g s)\<lparr>position := Caught g (what_of e)\<rparr>"
  have "stream_run w cfg g s = Some ?t"
    using True e s by (simp add: stream_run_def closes_current del: schedule.simps) simp
  moreover have "outcome g (ended_meanwhile w cfg) s (Inl e) ?t" using e(1) by (auto simp: outcome_def ended_meanwhile_def)
  ultimately show ?thesis using e(1) by auto
next
  case False
  then obtain tls where tls: "stream_session w cfg = stream_response w cfg tls" "cfg_use_ssl cfg \<longleftrightarrow> tls \<noteq> None"
    by (rule stream_session_response)
  show ?thesis
  proof (cases "closed w 0")
    case None
    have "follows w g (stream_response w cfg tls) (session_begun g s)"
      using follows_stream_response [OF s(2) _ None] s(3) tls(2) by simp
    then show ?thesis using False None tls(1) stream_run_begins [OF s(1,2), of w]
      by (auto simp: stream_run_def follows_def ended_meanwhile_def simp del: schedule.simps)
  next
    case (Some what)
    then have "stream_session w cfg = ([], Inl (Std_exception what))"
      by (simp add: tls(1) stream_response_def throw_if_closed_def and_then_def)
    moreover have "outcome g True s (Inl (Std_exception what)) (leave (Caught g ''operation aborted'') (session_begun g (closed_stream g s)))"
      by (simp add: outcome_def leave_def session_begun_def)
    ultimately show ?thesis using False Some stream_run_begins [OF s(1,2), of w]
      by (simp add: stream_run_def ended_meanwhile_def del: schedule.simps)
  qed
qed

text \<open>
  C39. Connecting refines the step function of the stream, also when other threads close the stream meanwhile.  Whatever the
  network answers and whenever the generation is ended, for a session that starts as the one of the current generation: the
  step function, closed at that moment, waits for exactly the operations \<open>stream_session\<close> lists, in this order.  It gets to the
  response header exactly if the session does, and then nobody has closed the stream; otherwise it gets to the \<open>catch\<close> block,
  which reports the text of the session's exception, or goes on without a report if somebody closed the stream.
\<close>
theorem connecting_refines_session:
  assumes "position s = Setup g" "is_current g (packed s)" "use_ssl s = cfg_use_ssl cfg"
  shows "\<exists>t. stream_run w cfg g s = Some t \<and> stream_step\<^sup>*\<^sup>* s t
    \<and> (if ended_meanwhile w cfg then packed t = make_state g DISCONNECTED \<and> trace t = trace s @ [Ended (unat g)]
       else packed t = packed s \<and> trace t = trace s)
    \<and> (case snd (stream_session w cfg) of
         Inl e \<Rightarrow> \<exists>what. position t = Caught g what
           \<and> caught g what t = t\<lparr>position := if ended_meanwhile w cfg then Ending g else About_to g (On_error (what_of e)) After_caught\<rparr>
       | Inr reply \<Rightarrow> \<not> ended_meanwhile w cfg \<and> position t = Got_header g \<and> session_io t = Some g)"
proof -
  obtain t where t: "stream_run w cfg g s = Some t" "outcome g (ended_meanwhile w cfg) s (snd (stream_session w cfg)) t"
    using stream_run_outcome [OF assms] by blast
  then show ?thesis using stream_run_steps [OF t(1)] not_current_closed [OF assms(2)] assms(2)
    by (cases "snd (stream_session w cfg)") (auto simp: outcome_def caught_def split: if_splits)
qed

text \<open>The stream of \<open>https://h/a\<close> with a server that sends an event stream.\<close>

definition sse_world :: "(string \<Rightarrow> string option) stream_world" where
  "sse_world = \<lparr>stream_client = ok_client,
     header_answer = Inr \<lparr>reply_status = 200, reply_reason = ''OK'', reply_fields = [''Content-Type'' \<mapsto> ''text/event-stream'']\<rparr>,
     closed = (\<lambda>_. None)\<rparr>"

definition closing_world :: "(string \<Rightarrow> string option) stream_world" where
  "closing_world = sse_world\<lparr>closed := (\<lambda>n. if n < 3 then None else Some ''operation aborted'')\<rparr>"

definition h_config :: stream_config where
  "h_config = \<lparr>cfg_host = ''h'', cfg_target = ''/a'', cfg_port = ''443'', cfg_use_ssl = True, cfg_host_header = ''h'', cfg_headers = []\<rparr>"

definition first_session :: stream where
  "first_session = (stream_init True)\<lparr>packed := make_state 1 CONNECTING, serving := True, served := 1, position := Setup 1\<rparr>"

lemmas sse_worlds = Let_def stream_session_def stream_response_def request_header_def stream_session_simps sse_world_def closing_world_def
  h_config_def ok_client_def set_tls_peer_host_def fresh_handle_def is_event_stream_def map_beast_def prefix_def

lemma sse_session: "\<exists>reply. snd (stream_session sse_world h_config) = Inr reply \<and> is_event_stream map_beast (reply_fields reply)
    \<and> map io_of (fst (stream_session sse_world h_config)) = [Resolve, Connect, Handshake, Write_request, Read_header]"
  by (simp add: sse_worlds)

lemma closing_session: "\<exists>e. snd (stream_session closing_world h_config) = Inl e
    \<and> map io_of (fst (stream_session closing_world h_config)) = [Resolve, Connect, Handshake] \<and> ended_meanwhile closing_world h_config"
  by (simp add: sse_worlds ended_meanwhile_def closed_behind_def)

theorem connecting_refines_session_witness:
  "(\<exists>t. stream_run sse_world h_config 1 first_session = Some t \<and> position t = Got_header 1)
    \<and> (\<exists>t. stream_run closing_world h_config 1 first_session = Some t \<and> trace t = [Ended 1])"
proof -
  have s: "position first_session = Setup 1" "use_ssl first_session = cfg_use_ssl h_config" "trace first_session = []"
    by (simp_all add: first_session_def stream_init_def h_config_def)
  have current: "is_current 1 (packed first_session)" by (simp add: first_session_def) code_simp
  show ?thesis
    using connecting_refines_session [OF s(1) current s(2), of sse_world] connecting_refines_session [OF s(1) current s(2), of closing_world]
      sse_session closing_session s(3) by auto
qed

end
