(* ===== verification/Ws_Connect.thy ===== *)
theory Ws_Connect
  imports Http_Request Ws_Session
begin

text \<open>
  How a WebSocket session connects (\<open>detail/websocket_impl.hpp\<close>): \<open>do_ws_session_ssl\<close> and \<open>do_ws_session_plain\<close> from
  the lookup to the WebSocket handshake, over an arbitrary network; and that the step function of \<open>Ws_Session\<close> goes
  through the same operations.
\<close>

section \<open>The operations\<close>

datatype ws_call =
    Ws_resolves string string
  | Ws_connects
  | Ws_tls ssl_handle
  | Ws_upgrades bool string string string   \<comment> \<open>over TLS, the Host header, the target, the user agent\<close>

text \<open>The network, with the port it connected to and how the upgrade fails: with \<open>error::closed\<close>, or another error.\<close>

record 'f ws_world =
  ws_client :: "'f client"
  endpoint_port :: u16
  upgrade_answer :: "(bool \<times> string) option"

text \<open>
  The handshake of the WebSocket; its result is whether the session goes on.  \<open>websocket::error::closed\<close> ends the
  coroutine without an exception.
\<close>

definition upgrade :: "bool \<Rightarrow> 'f ws_world \<Rightarrow> websocket_url_parts \<Rightarrow> ws_call list \<times> (thrown + bool)" where
  "upgrade secure w parts =
     ([Ws_upgrades secure (format_authority (wsu_host parts) (endpoint_port w)) (wsu_path parts)
         (version_string (lib (ws_client w)) @ '' websocket-client-coro'')],
      case upgrade_answer w of
        None \<Rightarrow> Inr True
      | Some (is_closed, what) \<Rightarrow> if is_closed then Inr False else Inl (Std_exception what))"

definition ws_session_plain :: "'f ws_world \<Rightarrow> websocket_url_parts \<Rightarrow> ws_call list \<times> (thrown + bool)" where
  "ws_session_plain w parts =
     (let n = net (ws_client w); host = wsu_host parts; port = to_chars (wsu_port parts) in
     and_then (await (Ws_resolves host port) (resolve_answer n host port)) (\<lambda>_.
     and_then (await Ws_connects (connect_answer n)) (\<lambda>_.
     upgrade False w parts)))"

definition ws_session_ssl :: "'f ws_world \<Rightarrow> websocket_url_parts \<Rightarrow> ws_call list \<times> (thrown + bool)" where
  "ws_session_ssl w parts =
     (let c = ws_client w; n = net c; host = wsu_host parts; port = to_chars (wsu_port parts) in
     and_then (await (Ws_resolves host port) (resolve_answer n host port)) (\<lambda>_.
     case set_tls_peer_host (openssl c) host fresh_handle of
       (Some ec, _) \<Rightarrow> ([], Inl (Std_exception (error_text c ec)))
     | (None, handle) \<Rightarrow>
         and_then (await Ws_connects (connect_answer n)) (\<lambda>_.
         and_then (await (Ws_tls handle)
             (case handshake_answer n handle of
                None \<Rightarrow> None
              | Some ec \<Rightarrow> (case tls_handshake_error (openssl c) ec of (code, what) \<Rightarrow> Some (system_text c code what)))) (\<lambda>_.
         upgrade True w parts))))"

definition ws_session_connect :: "'f ws_world \<Rightarrow> websocket_url_parts \<Rightarrow> ws_call list \<times> (thrown + bool)" where
  "ws_session_connect w parts = (if wsu_use_ssl parts then ws_session_ssl w parts else ws_session_plain w parts)"

text \<open>
  The constructor of \<open>Impl\<close>: the parts of the URL, and a session with a stream of the kind they ask for.  A malformed URL
  throws out of it, and so out of \<open>Websocket::open\<close>.
\<close>

definition new_impl :: "bool \<Rightarrow> string \<Rightarrow> url_error + websocket_url_parts \<times> ws" where
  "new_impl shared url =
     (case parse_websocket_url url of
        Inl e \<Rightarrow> Inl e
      | Inr parts \<Rightarrow> Inr (parts, ws_init shared (wsu_use_ssl parts) False))"

section \<open>The peer of an upgrade\<close>

lemma upgrade_Upgrades: "Ws_upgrades b hh path ua \<in> set (fst (upgrade secure w parts)) \<longleftrightarrow>
    b = secure \<and> hh = format_authority (wsu_host parts) (endpoint_port w) \<and> path = wsu_path parts
    \<and> ua = version_string (lib (ws_client w)) @ '' websocket-client-coro''"
  by (simp add: upgrade_def)

lemma ws_Upgrades:
  assumes "Ws_upgrades b hh path ua \<in> set (fst (ws_session_connect w parts))"
  shows "hh = format_authority (wsu_host parts) (endpoint_port w) \<and> path = wsu_path parts \<and> (b \<longleftrightarrow> wsu_use_ssl parts)
    \<and> (b \<longrightarrow> (\<exists>handle. set_tls_peer_host (openssl (ws_client w)) (wsu_host parts) fresh_handle = (None, handle)
          \<and> handshake_answer (net (ws_client w)) handle = None))"
  using assms
  by (auto simp: ws_session_connect_def ws_session_ssl_def ws_session_plain_def Let_def session_simps upgrade_Upgrades
      split: sum.splits option.splits prod.splits if_splits)

fun ws_sends :: "ws_call \<Rightarrow> bool option" where
  "ws_sends (Ws_upgrades tls host_header path agent) = Some tls"
| "ws_sends _ = None"

lemma ws_sends_Some: "ws_sends c = Some tls \<longleftrightarrow> (\<exists>host_header path agent. c = Ws_upgrades tls host_header path agent)"
  by (cases c) auto

interpretation ws_peers: identified_peers "\<lambda>(w, parts). fst (ws_session_connect w parts)" ws_sends
  "\<lambda>(w, parts). net (ws_client w)" "\<lambda>(w, parts). openssl (ws_client w)" "\<lambda>(w, parts). (wsu_use_ssl parts, wsu_host parts)"
  by unfold_locales (auto simp: ws_sends_Some dest!: ws_Upgrades)

section \<open>The step function goes through the same operations\<close>

fun await_of :: "ws_call \<Rightarrow> ws_await" where
  "await_of (Ws_resolves host port) = A_resolve"
| "await_of Ws_connects = A_connect"
| "await_of (Ws_tls handle) = A_tls"
| "await_of (Ws_upgrades secure host_header path agent) = A_handshake"

text \<open>
  The run of a coroutine that makes the given calls: it awaits each of them; all are resumed, but for the last one when the
  session does not go on.  A peer host that cannot be set throws in the resumption after the lookup.
\<close>

fun ws_run :: "ws_call list \<Rightarrow> thrown + bool \<Rightarrow> ws \<Rightarrow> ws option" where
  "ws_run [] r s = (if r = Inr True then Some s else None)"
| "ws_run (c # cs) r s =
     (if coroutine s \<noteq> Awaiting (await_of c) then None
      else if cs = [] \<and> r \<noteq> Inr True then ws_moved (Await_fails (r = Inr False)) s
      else (case ws_moved Resumes s of Some t \<Rightarrow> ws_run cs r t | None \<Rightarrow> None))"

lemma ws_run_steps: "ws_run calls r s = Some t \<Longrightarrow> ws_step\<^sup>*\<^sup>* s t"
proof (induction calls r s rule: ws_run.induct)
  case (2 c cs r s)
  show ?case
  proof (cases "cs = [] \<and> r \<noteq> Inr True")
    case True
    then have "ws_moved (Await_fails (r = Inr False)) s = Some t" using "2.prems" by (simp del: ws_moved.simps split: if_splits)
    then show ?thesis by (blast intro: ws_step.move)
  next
    case False
    then obtain u where u: "ws_moved Resumes s = Some u" "ws_run cs r u = Some t"
      using "2.prems" by (auto simp del: ws_moved.simps split: if_splits option.splits)
    have "ws_step\<^sup>*\<^sup>* u t"
      by (rule "2.IH" [OF _ _ u]) (use "2.prems" False in \<open>auto simp del: ws_moved.simps split: if_splits\<close>)
    with ws_step.move [OF u(1)] show ?thesis by (rule converse_rtranclp_into_rtranclp)
  qed
qed (simp split: if_splits)

lemma ws_run_Cons:
  assumes "coroutine s = Awaiting (await_of c)" "handler s = H_none"
  shows "ws_run (c # cs) r s =
     (if cs = [] \<and> r \<noteq> Inr True then await_failed (await_of c) (r = Inr False) s else ws_run cs r (resumed (await_of c) s))"
  using assms by (simp add: idle_do_def)

text \<open>
  C40. Connecting refines the step function of the WebSocket session: for every network, the session that makes the calls
  \<open>ws_session_connect\<close> lists takes the step function, through steps that await exactly these operations in this order, past
  the handshake if every call succeeded, and otherwise to the end of the coroutine, with an exception unless the server
  closed the WebSocket in the handshake.
\<close>
theorem connecting_refines_ws_session:
  assumes "coroutine s = Awaiting A_resolve" "handler s = H_none" "uses_tls s = wsu_use_ssl parts"
  shows "\<exists>t. ws_run (fst (ws_session_connect w parts)) (snd (ws_session_connect w parts)) s = Some t \<and> ws_step\<^sup>*\<^sup>* s t
    \<and> ws_status t = ws_status s \<and> trace t = trace s
    \<and> (case snd (ws_session_connect w parts) of
         Inr True \<Rightarrow> coroutine t = In_handler \<and> handler t = H_shaken
       | Inr False \<Rightarrow> coroutine t = Finished False
       | Inl e \<Rightarrow> coroutine t = Finished True)"
proof -
  have "\<exists>t. ws_run (fst (ws_session_connect w parts)) (snd (ws_session_connect w parts)) s = Some t
    \<and> ws_status t = ws_status s \<and> trace t = trace s
    \<and> (case snd (ws_session_connect w parts) of
         Inr True \<Rightarrow> coroutine t = In_handler \<and> handler t = H_shaken
       | Inr False \<Rightarrow> coroutine t = Finished False
       | Inl e \<Rightarrow> coroutine t = Finished True)"
    using assms
    by (auto simp: ws_session_connect_def ws_session_ssl_def ws_session_plain_def upgrade_def Let_def session_simps ws_run_Cons
        await_failed_def simp del: ws_run.simps(2) split: sum.splits option.splits prod.splits bool.splits if_splits)
  then show ?thesis using ws_run_steps by blast
qed

text \<open>\<open>wss://h/a\<close>, with a server that closes the WebSocket in the handshake.\<close>

definition refusing_world :: "(string \<Rightarrow> string option) ws_world" where
  "refusing_world = \<lparr>ws_client = ok_client, endpoint_port = 443, upgrade_answer = Some (True, [])\<rparr>"

definition h_parts :: websocket_url_parts where
  "h_parts = \<lparr>wsu_host = ''h'', wsu_path = ''/a'', wsu_port = 443, wsu_use_ssl = True\<rparr>"

definition resolving_session :: ws where
  "resolving_session = (ws_init False True True)\<lparr>session_started := True, coroutine := Awaiting A_resolve\<rparr>"

lemma refused: "snd (ws_session_connect refusing_world h_parts) = Inr False
    \<and> map await_of (fst (ws_session_connect refusing_world h_parts)) = [A_resolve, A_connect, A_tls, A_handshake]"
  by (simp add: ws_session_connect_def ws_session_ssl_def upgrade_def Let_def session_simps refusing_world_def h_parts_def
      ok_client_def set_tls_peer_host_def fresh_handle_def)

theorem connecting_refines_ws_session_witness:
  "\<exists>t. ws_step\<^sup>*\<^sup>* resolving_session t \<and> coroutine t = Finished False"
proof -
  have "coroutine resolving_session = Awaiting A_resolve" "handler resolving_session = H_none"
      "uses_tls resolving_session = wsu_use_ssl h_parts"
    by (simp_all add: resolving_session_def ws_init_def h_parts_def)
  from connecting_refines_ws_session [OF this, of refusing_world] refused show ?thesis by auto
qed

end
