(* ===== verification/Http_Stream_Moves.thy ===== *)
theory Http_Stream_Moves
  imports Http_Stream
begin

text \<open>
  Groundwork on \<^theory_text>\<open>Http_Stream\<close>: what an observer reads from the trace, the moves of the model one case at
  a time (elimination rules that every invariant proof uses), and the core invariant that ties the
  position of the coroutines to the generations.
\<close>

section \<open>Observations\<close>

definition opened :: "stream_event list \<Rightarrow> nat list" where
  "opened tr = concat (map (\<lambda>e. case e of Opened n \<Rightarrow> [n] | _ \<Rightarrow> []) tr)"

definition ended :: "stream_event list \<Rightarrow> nat list" where
  "ended tr = concat (map (\<lambda>e. case e of Ended n \<Rightarrow> [n] | _ \<Rightarrow> []) tr)"

definition calls :: "stream_event list \<Rightarrow> (nat \<times> callback) list" where
  "calls tr = concat (map (\<lambda>e. case e of Called n c \<Rightarrow> [(n, c)] | _ \<Rightarrow> []) tr)"

definition disconnected :: "stream_event list \<Rightarrow> nat list" where
  "disconnected tr = map fst (filter (\<lambda>(n, c). c = On_disconnected) (calls tr))"

definition data_of :: "nat \<Rightarrow> stream_event list \<Rightarrow> string list" where
  "data_of n tr = concat (map (\<lambda>(m, c). case c of On_data d \<Rightarrow> if m = n then [d] else [] | _ \<Rightarrow> []) (calls tr))"

text \<open>How many callbacks other than \<open>onDisconnected\<close> a generation starts after it has ended.\<close>

fun late :: "nat \<Rightarrow> stream_event list \<Rightarrow> nat" where
  "late n [] = 0"
| "late n (Ended m # tr) = (if m = n then length (filter (\<lambda>(k, c). k = n \<and> c \<noteq> On_disconnected) (calls tr)) else late n tr)"
| "late n (e # tr) = late n tr"

lemma trace_append [simp]:
  "opened (tr @ [Opened n]) = opened tr @ [n]" "opened (tr @ [Ended n]) = opened tr" "opened (tr @ [Called n c]) = opened tr"
  "ended (tr @ [Opened n]) = ended tr" "ended (tr @ [Ended n]) = ended tr @ [n]" "ended (tr @ [Called n c]) = ended tr"
  "calls (tr @ [Opened n]) = calls tr" "calls (tr @ [Ended n]) = calls tr" "calls (tr @ [Called n c]) = calls tr @ [(n, c)]"
  by (simp_all add: opened_def ended_def calls_def)

lemma trace_Nil [simp]: "opened [] = []" "calls [] = []" "disconnected [] = []" "data_of n [] = []"
  by (simp_all add: opened_def calls_def disconnected_def data_of_def)

lemma disconnected_append [simp]:
  "disconnected (tr @ [Opened n]) = disconnected tr" "disconnected (tr @ [Ended n]) = disconnected tr"
  "disconnected (tr @ [Called n c]) = disconnected tr @ (if c = On_disconnected then [n] else [])"
  by (simp_all add: disconnected_def)

lemma data_of_append [simp]:
  "data_of n (tr @ [Opened m]) = data_of n tr" "data_of n (tr @ [Ended m]) = data_of n tr"
  "data_of n (tr @ [Called m c]) = data_of n tr @ (case c of On_data d \<Rightarrow> if m = n then [d] else [] | _ \<Rightarrow> [])"
  by (simp_all add: data_of_def)

lemma ended_Cons [simp]:
  "ended [] = []" "ended (Ended m # tr) = m # ended tr" "ended (Opened m # tr) = ended tr" "ended (Called m c # tr) = ended tr"
  by (simp_all add: ended_def)

lemma late_append [simp]:
  "late n (tr @ [Opened m]) = late n tr"
  "late n (tr @ [Ended m]) = late n tr"
  "late n (tr @ [Called m c]) = late n tr + (if n \<in> set (ended tr) \<and> m = n \<and> c \<noteq> On_disconnected then 1 else 0)"
  by (induction n tr rule: late.induct) (auto simp: calls_def)

lemma late_not_ended: "n \<notin> set (ended tr) \<Longrightarrow> late n tr = 0"
  by (induction n tr rule: late.induct) auto

section \<open>Generations\<close>

text \<open>The session a position belongs to.\<close>

fun session_of :: "position \<Rightarrow> 64 word option" where
  "session_of Not_serving = None"
| "session_of Spawned = None"
| "session_of Serve_loop = None"
| "session_of (Catch_up g) = None"
| "session_of Escaped = None"
| "session_of (Setup g) = Some g"
| "session_of (Check g _) = Some g"
| "session_of (Wait g _) = Some g"
| "session_of (Got_header g) = Some g"
| "session_of (About_to g _ _) = Some g"
| "session_of (In_callback g _) = Some g"
| "session_of (Body g) = Some g"
| "session_of (Reading g) = Some g"
| "session_of (Read g _ _) = Some g"
| "session_of (Deliver g _ _) = Some g"
| "session_of (Closing_socket g) = Some g"
| "session_of (Caught g _) = Some g"
| "session_of (Ending g) = Some g"
| "session_of (Finishing g) = Some g"

definition gen :: "stream \<Rightarrow> nat" where
  "gen s = unat (generation_of (packed s))"

text \<open>Which callback each continuation follows.\<close>

fun goes_with :: "callback \<Rightarrow> continuation \<Rightarrow> bool" where
  "goes_with On_connected After_connected = True"
| "goes_with (On_data _) (After_data _ _) = True"
| "goes_with (On_error _) After_read_error = True"
| "goes_with (On_error _) After_caught = True"
| "goes_with _ _ = False"

lemma goes_with_not_disconnected [simp]: "\<not> goes_with On_disconnected k"
  by (cases k) simp_all

fun position_ok :: "position \<Rightarrow> stream \<Rightarrow> bool" where
  "position_ok (Catch_up g) s \<longleftrightarrow> unat (served s) < unat g \<and> unat g \<le> gen s"
| "position_ok (Finishing g) s \<longleftrightarrow> g = served s \<and> served s \<noteq> 0 \<and> \<not> is_current g (packed s)"
| "position_ok (About_to g c k) s \<longleftrightarrow> g = served s \<and> served s \<noteq> 0 \<and> goes_with c k"
| "position_ok p s \<longleftrightarrow> (\<forall>g. session_of p = Some g \<longrightarrow> g = served s \<and> served s \<noteq> 0)"

text \<open>The generations 1 to n.\<close>

definition first_gens :: "nat \<Rightarrow> nat list" where
  "first_gens n = [1..<Suc n]"

lemma first_gens_0 [simp]: "first_gens 0 = []"
  by (simp add: first_gens_def)

lemma first_gens_Suc: "first_gens (Suc n) = first_gens n @ [Suc n]"
  by (simp add: first_gens_def)

lemma length_first_gens [simp]: "length (first_gens n) = n"
  by (simp add: first_gens_def)

lemma set_first_gens [simp]: "set (first_gens n) = {1..n}"
  by (auto simp: first_gens_def)

definition core_inv :: "stream \<Rightarrow> bool" where
  "core_inv s \<longleftrightarrow> status_of (packed s) \<noteq> No_status \<and> (serving s \<longleftrightarrow> position s \<noteq> Not_serving)
     \<and> unat (served s) \<le> gen s \<and> position_ok (position s) s \<and> opened (trace s) = first_gens (gen s)"

definition fits :: "stream \<Rightarrow> bool" where
  "fits s \<longleftrightarrow> length (opened (trace s)) < 2 ^ 62"

lemmas session_defs = serve_loop_def catch_up_def caught_def ending_def check_def body_loop_def read_returned_def
  leave_def called_def

lemmas happening_splits = happening.splits option.splits if_splits

lemma next_io_session [simp]: "session_of (next_io ssl g prev) = Some g"
  by (cases "(ssl, g, prev)" rule: next_io.cases) simp_all

lemma next_io_ok [simp]: "position_ok (next_io ssl g prev) s \<longleftrightarrow> g = served s \<and> served s \<noteq> 0"
  by (cases "(ssl, g, prev)" rule: next_io.cases) simp_all

lemma next_io_not_idle [simp]: "next_io ssl g prev \<noteq> Not_serving"
  by (cases "(ssl, g, prev)" rule: next_io.cases) simp_all

lemma unat_next: "unat (n :: 64 word) < unat (g :: 64 word) \<Longrightarrow> unat (n + 1) = Suc (unat n)"
proof -
  assume "unat n < unat g"
  moreover have "unat g < 2 ^ 64" using unsigned_less [of g, where 'a = nat] by simp
  ultimately have "Suc (unat n) < 2 ^ 64" by simp
  then show "unat (n + 1) = Suc (unat n)" by (simp add: unat_word_ariths)
qed

lemma next_nonzero: "unat (n :: 64 word) < unat (g :: 64 word) \<Longrightarrow> n + 1 \<noteq> 0"
  using unat_next by fastforce

lemma is_current_less: "is_current g w \<Longrightarrow> unat g < 2 ^ 62"
  using generation_of_less [of w] by (auto simp: is_current_def)

section \<open>The moves, case by case\<close>

lemma serve_moveE:
  assumes "serve_move (position s) h s = Some t"
  obtains (started) "position s = Spawned" "t = s\<lparr>position := Serve_loop\<rparr>"
  | (all_served) "position s = Serve_loop" "generation_of (packed s) = served s" "t = s\<lparr>serving := False, position := Not_serving\<rparr>"
  | (takes_up) "position s = Serve_loop" "generation_of (packed s) \<noteq> served s" "t = s\<lparr>position := Catch_up (generation_of (packed s))\<rparr>"
  | (session) g where "position s = Catch_up g" "served s + 1 = g" "t = s\<lparr>served := g, received := [], decoded := [], position := Setup g\<rparr>"
  | (skips) g where "position s = Catch_up g" "served s + 1 \<noteq> g"
      "t = s\<lparr>served := served s + 1, trace := trace s @ [Called (unat (served s + 1)) On_disconnected]\<rparr>"
  | (registers) g where "position s = Setup g" "t = s\<lparr>session_io := Some g, cancelled := False, position := Check g None\<rparr>"
  | (setup_fails) g e where "position s = Setup g" "t = s\<lparr>position := Caught g e\<rparr>"
  | (closed_socket) g where "position s = Closing_socket g" "t = s\<lparr>position := Ending g\<rparr>"
  | (reports) g e where "position s = Caught g e" "is_current g (packed s)" "t = s\<lparr>position := About_to g (On_error e) After_caught\<rparr>"
  | (was_closed) g e where "position s = Caught g e" "\<not> is_current g (packed s)" "t = s\<lparr>position := Ending g\<rparr>"
  | (ended_before) g where "position s = Ending g" "end_update g (packed s) = None" "t = s\<lparr>position := Finishing g\<rparr>"
  | (ends) g w where "position s = Ending g" "end_update g (packed s) = Some w"
      "t = s\<lparr>packed := w, trace := trace s @ [Ended (unat g)], position := Finishing g\<rparr>"
  | (finishes) g where "position s = Finishing g"
      "t = s\<lparr>position := Serve_loop, trace := trace s @ [Called (unat g) On_disconnected]\<rparr>"
  | (gives_up) "position s = Escaped" "t = s\<lparr>serving := False, position := Not_serving\<rparr>"
proof (cases "position s")
  case Spawned
  with assms started show ?thesis by (cases h) auto
next
  case Serve_loop
  with assms all_served takes_up show ?thesis
    by (cases h; cases "generation_of (packed s) = served s") (auto simp: serve_loop_def Let_def)
next
  case (Catch_up g)
  with assms have t: "t = catch_up g s" by (cases h) auto
  show ?thesis
  proof (cases "served s + 1 = g")
    case True
    show ?thesis by (rule session [OF Catch_up True]) (use True in \<open>simp add: t catch_up_def Let_def\<close>)
  next
    case False
    show ?thesis by (rule skips [OF Catch_up False]) (use False in \<open>simp add: t catch_up_def called_def Let_def\<close>)
  qed
next
  case (Setup g)
  with assms registers setup_fails show ?thesis by (cases h) (auto split: if_splits)
next
  case (Closing_socket g)
  with assms closed_socket show ?thesis by (cases h) auto
next
  case (Caught g e)
  with assms reports was_closed show ?thesis by (cases h; cases "is_current g (packed s)") (auto simp: caught_def)
next
  case (Ending g)
  with assms ended_before ends show ?thesis by (cases h; cases "end_update g (packed s)") (auto simp: ending_def)
next
  case (Finishing g)
  with assms finishes show ?thesis by (cases h) (auto simp: called_def)
next
  case Escaped
  with assms gives_up show ?thesis by (cases h) auto
qed (use assms in \<open>simp_all only: serve_move.simps option.distinct\<close>)

lemma response_moveE:
  assumes "response_move (position s) h s = Some t"
  obtains (check_passed) g prev where "position s = Check g prev" "is_current g (packed s)" "t = s\<lparr>position := next_io (use_ssl s) g prev\<rparr>"
  | (check_failed) g prev e where "position s = Check g prev" "\<not> is_current g (packed s)" "t = s\<lparr>session_io := None, position := Caught g e\<rparr>"
  | (io_done) g io where "position s = Wait g io" "t = s\<lparr>position := Check g (Some io)\<rparr>"
  | (io_failed) g io e where "position s = Wait g io" "t = s\<lparr>session_io := None, position := Caught g e\<rparr>"
  | (rejected) g e where "position s = Got_header g"
      "t = s\<lparr>position := In_callback g After_rejected, trace := trace s @ [Called (unat g) (On_error e)]\<rparr>"
  | (connects) g where "position s = Got_header g" "packed s = make_state g CONNECTING"
      "t = s\<lparr>packed := make_state g CONNECTED, position := About_to g On_connected After_connected\<rparr>"
  | (connect_lost) g where "position s = Got_header g" "packed s \<noteq> make_state g CONNECTING"
      "t = s\<lparr>session_io := None, position := Closing_socket g\<rparr>"
  | (calls_back) g c k where "position s = About_to g c k"
      "t = s\<lparr>position := In_callback g k, trace := trace s @ [Called (unat g) c]\<rparr>"
  | (callback_threw) g k e where "position s = In_callback g k" "k \<noteq> After_caught" "t = s\<lparr>session_io := None, position := Caught g e\<rparr>"
  | (callback_escaped) g k where "position s = In_callback g k" "k \<noteq> After_caught" "h = Throws"
      "t = s\<lparr>session_io := None, position := Escaped, escaped := True\<rparr>"
  | (was_connected) g sse complete where "position s = In_callback g After_connected"
      "t = s\<lparr>is_sse := sse, parser := sse_reset (parser s), body_done := complete, position := Body g\<rparr>"
  | (was_rejected) g where "position s = In_callback g After_rejected" "t = s\<lparr>session_io := None, position := Ending g\<rparr>"
  | (was_delivered) g ds e where "position s = In_callback g (After_data ds e)" "t = s\<lparr>position := Deliver g ds e\<rparr>"
  | (read_reported) g where "position s = In_callback g After_read_error" "t = s\<lparr>session_io := None, position := Closing_socket g\<rparr>"
  | (was_reported) g where "position s = In_callback g After_caught" "t = s\<lparr>position := Ending g\<rparr>"
  | (reads) g where "position s = Body g" "\<not> body_done s" "is_current g (packed s)" "t = s\<lparr>position := Reading g\<rparr>"
  | (body_ends) g where "position s = Body g" "body_done s \<or> \<not> is_current g (packed s)" "t = s\<lparr>session_io := None, position := Closing_socket g\<rparr>"
  | (has_read) g bs e complete where "position s = Reading g" "t = s\<lparr>body_done := complete, position := Read g bs e\<rparr>"
  | (read_dropped) g bs e where "position s = Read g bs e" "\<not> is_current g (packed s)" "t = s\<lparr>session_io := None, position := Closing_socket g\<rparr>"
  | (read_nothing) g e where "position s = Read g [] e" "is_current g (packed s)" "t = s\<lparr>position := Deliver g [] e\<rparr>"
  | (read_events) g bs e ok p ds where "position s = Read g bs e" "bs \<noteq> []" "is_current g (packed s)" "is_sse s"
      "feed collect bs (parser s) [] = (ok, p, ds)"
      "t = s\<lparr>parser := p, received := received s @ bs, decoded := decoded s @ ds, position := Deliver g ds e\<rparr>"
  | (read_bytes) g bs e where "position s = Read g bs e" "bs \<noteq> []" "is_current g (packed s)" "\<not> is_sse s"
      "t = s\<lparr>received := received s @ bs, decoded := decoded s @ [bs], position := About_to g (On_data bs) (After_data [] e)\<rparr>"
  | (next_event) g d ds e where "position s = Deliver g (d # ds) e" "is_current g (packed s)"
      "t = s\<lparr>position := About_to g (On_data d) (After_data ds e)\<rparr>"
  | (drops_event) g d ds e where "position s = Deliver g (d # ds) e" "\<not> is_current g (packed s)" "t = s\<lparr>position := Deliver g ds e\<rparr>"
  | (all_delivered) g where "position s = Deliver g [] Goes_on" "t = s\<lparr>position := Body g\<rparr>"
  | (read_error) g e where "position s = Deliver g [] (Stops e)" "is_current g (packed s)"
      "t = s\<lparr>position := About_to g (On_error e) After_read_error\<rparr>"
  | (error_dropped) g e where "position s = Deliver g [] (Stops e)" "\<not> is_current g (packed s)"
      "t = s\<lparr>session_io := None, position := Closing_socket g\<rparr>"
proof (cases "position s")
  case (Check g prev)
  note t = assms [unfolded Check response_move.simps]
  show ?thesis
  proof (cases "is_current g (packed s)")
    case True
    show ?thesis by (rule check_passed [OF Check True]) (use t True in \<open>cases h; simp add: check_def\<close>)
  next
    case False
    show ?thesis by (rule check_failed [OF Check False, where e = "''operation aborted''"]) (use t False in \<open>cases h; simp add: check_def leave_def\<close>)
  qed
next
  case (Wait g io)
  with assms io_done io_failed show ?thesis by (cases h) (auto simp: leave_def)
next
  case (Got_header g)
  with assms obtain r where r: "h = Header r" "t = got_header g r s" by (cases h) auto
  show ?thesis
  proof (cases r)
    case None
    with r Got_header connects connect_lost show ?thesis
      by (cases "packed s = make_state g CONNECTING") (auto simp: leave_def)
  next
    case (Some e)
    with r Got_header rejected show ?thesis by (auto simp: called_def)
  qed
next
  case (About_to g c k)
  with assms calls_back show ?thesis by (cases h) (auto simp: called_def)
next
  case (In_callback g k)
  show ?thesis
  proof (cases "k = After_caught")
    case True
    with assms In_callback was_reported show ?thesis by (cases h) auto
  next
    case False
    note t = callback_threw [OF In_callback False] callback_escaped [OF In_callback False]
    show ?thesis
    proof (cases h)
      case (Fails e)
      with t assms In_callback False show ?thesis by (auto simp: leave_def)
    next
      case Throws
      with t assms In_callback False show ?thesis by (auto simp: leave_def)
    next
      case Done
      note d = assms [unfolded In_callback response_move.simps this]
      show ?thesis
      proof (cases k)
        case After_rejected
        show ?thesis by (rule was_rejected) (use d In_callback After_rejected in \<open>auto simp: leave_def\<close>)
      next
        case (After_data ds e)
        show ?thesis by (rule was_delivered) (use d In_callback After_data in auto)
      next
        case After_read_error
        show ?thesis by (rule read_reported) (use d In_callback After_read_error in \<open>auto simp: leave_def\<close>)
      qed (use d False in simp_all)
    next
      case (Content sse complete)
      note d = assms [unfolded In_callback response_move.simps this]
      show ?thesis
      proof (cases k)
        case After_connected
        show ?thesis by (rule was_connected) (use d In_callback After_connected in auto)
      qed (use d False in simp_all)
    next
      case Runs
      show ?thesis using assms unfolding In_callback Runs by (cases k) simp_all
    next
      case (Header r)
      show ?thesis using assms unfolding In_callback Header by (cases k) simp_all
    next
      case (Bytes bs e complete)
      show ?thesis using assms unfolding In_callback Bytes by (cases k) simp_all
    qed
  qed
next
  case (Body g)
  with assms have t: "t = body_loop g s" by (cases h) auto
  show ?thesis
  proof (cases "\<not> body_done s \<and> is_current g (packed s)")
    case True
    then show ?thesis using reads [OF Body] t by (simp add: body_loop_def)
  next
    case False
    then show ?thesis using body_ends [OF Body] t by (auto simp: body_loop_def leave_def)
  qed
next
  case (Reading g)
  show ?thesis
  proof (cases h)
    case (Bytes bs e complete)
    show ?thesis by (rule has_read [OF Reading, where bs = bs and e = e and complete = complete])
        (use assms Reading Bytes in \<open>auto split: if_splits\<close>)
  qed (use assms Reading in simp_all)
next
  case (Read g bs e)
  with assms have t: "t = read_returned g bs e s" by (cases h) auto
  show ?thesis
  proof (cases "is_current g (packed s)")
    case current: True
    show ?thesis
    proof (cases "bs = []")
      case True
      then show ?thesis using read_nothing [of g e] Read current t by (simp add: read_returned_def)
    next
      case ne: False
      show ?thesis
      proof (cases "is_sse s")
        case True
        obtain ok p ds where f: "feed collect bs (parser s) [] = (ok, p, ds)" by (metis prod_cases3)
        show ?thesis by (rule read_events [OF Read ne current True f]) (simp add: t read_returned_def current ne True f)
      next
        case False
        show ?thesis by (rule read_bytes [OF Read ne current False]) (simp add: t read_returned_def current ne False)
      qed
    qed
  next
    case False
    show ?thesis by (rule read_dropped [OF Read False]) (simp add: t read_returned_def False leave_def)
  qed
next
  case (Deliver g ds e)
  with assms have t: "t = deliver g ds e s" by (cases h) auto
  show ?thesis
  proof (cases ds)
    case (Cons d ds')
    note D = Deliver [unfolded Cons]
    show ?thesis
      by (cases "is_current g (packed s)", rule next_event [OF D], simp_all add: t Cons, rule drops_event [OF D], simp_all add: t Cons)
  next
    case Nil
    note D = Deliver [unfolded Nil]
    show ?thesis
    proof (cases e)
      case Goes_on
      show ?thesis by (rule all_delivered [OF D [unfolded Goes_on]]) (simp add: t Nil Goes_on)
    next
      case (Stops m)
      note D = D [unfolded Stops]
      show ?thesis
        by (cases "is_current g (packed s)", rule read_error [OF D], simp_all add: t Nil Stops,
            rule error_dropped [OF D], simp_all add: t Nil Stops leave_def)
    qed
  qed
qed (use assms in \<open>simp_all only: response_move.simps option.distinct\<close>)

lemma serve_move_core:
  assumes "serve_move (position s) h s = Some t" "core_inv s"
  shows "core_inv t"
  using assms(1)
proof (cases rule: serve_moveE)
  case (session g)
  then show ?thesis using assms(2) unat_next [of "served s" g] next_nonzero [of "served s" g]
    by (simp add: core_inv_def gen_def)
next
  case (skips g)
  then have "unat (served s + 1) \<noteq> unat g" by (metis word_unat_eq_iff)
  then show ?thesis using skips assms(2) unat_next [of "served s" g] next_nonzero [of "served s" g]
    by (simp add: core_inv_def gen_def)
next
  case takes_up
  then have "unat (generation_of (packed s)) \<noteq> unat (served s)" by (metis word_unat_eq_iff)
  with takes_up assms(2) show ?thesis by (simp add: core_inv_def gen_def)
next
  case (ends g w)
  then have "w = make_state (generation_of (packed s)) DISCONNECTED" by (simp add: end_update_Some)
  with ends assms(2) show ?thesis by (simp add: core_inv_def gen_def is_current_def)
qed (use assms(2) in \<open>auto simp: core_inv_def gen_def is_current_def end_update_def any_generation_def split: if_splits\<close>)

lemma response_move_core: "response_move (position s) h s = Some t \<Longrightarrow> core_inv s \<Longrightarrow> core_inv t"
  by (erule response_moveE) (auto simp: core_inv_def gen_def is_current_def generation_of_make_mask)

lemma core_init: "core_inv (stream_init ssl)"
  by (simp add: core_inv_def stream_init_def gen_def)

text \<open>The other moves.\<close>

lemma movedE:
  assumes "moved m s = Some t"
  obtains (serve) h where "m = Serves h" "serve_move (position s) h s = Some t"
  | (response) h where "m = Responds h" "response_move (position s) h s = Some t"
  | (no_effect) "m = Opens \<or> m = Closes" "t = s"
  | (opens) w where "m = Opens" "open_update (packed s) = Some w"
      "t = s\<lparr>packed := w, open_calls := Suc (open_calls s), trace := trace s @ [Opened (unat (generation_of w))]\<rparr>"
  | (posts_serve) n where "m = Posts_serve" "open_calls s = Suc n" "t = s\<lparr>open_calls := n, serve_posts := Suc (serve_posts s)\<rparr>"
  | (closes) w where "m = Closes" "end_update any_generation (packed s) = Some w"
      "t = s\<lparr>packed := w, close_calls := Suc (close_calls s), trace := trace s @ [Ended (unat (generation_of w))]\<rparr>"
  | (posts_cancel) n where "m = Posts_cancel" "close_calls s = Suc n" "t = s\<lparr>close_calls := n, cancel_posts := Suc (cancel_posts s)\<rparr>"
  | (serve_again) n where "m = Runs_serve" "serve_posts s = Suc n" "suspended (position s)"
      "serving s \<or> generation_of (packed s) = served s" "t = s\<lparr>serve_posts := n\<rparr>"
  | (serve_starts) n where "m = Runs_serve" "serve_posts s = Suc n" "suspended (position s)"
      "\<not> serving s" "generation_of (packed s) \<noteq> served s" "t = s\<lparr>serve_posts := n, serving := True, position := Spawned\<rparr>"
  | (nothing_to_cancel) n where "m = Runs_cancel" "cancel_posts s = Suc n" "suspended (position s)" "session_io s = None"
      "t = s\<lparr>cancel_posts := n\<rparr>"
  | (cancels) n g where "m = Runs_cancel" "cancel_posts s = Suc n" "suspended (position s)" "session_io s = Some g"
      "t = s\<lparr>cancel_posts := n, cancelled := cancelled s \<or> \<not> is_current g (packed s)\<rparr>"
proof (cases m)
  case (Serves h)
  with assms serve show ?thesis by simp
next
  case (Responds h)
  with assms response show ?thesis by simp
next
  case Opens
  show ?thesis
  proof (cases "open_update (packed s)")
    case None
    show ?thesis by (rule no_effect) (use assms Opens None in simp_all)
  next
    case (Some w)
    show ?thesis by (rule opens [OF Opens Some]) (use assms Opens Some in simp)
  qed
next
  case Posts_serve
  with assms obtain n where n: "open_calls s = Suc n" by (cases "open_calls s") simp_all
  show ?thesis by (rule posts_serve [OF Posts_serve n]) (use assms Posts_serve n in simp)
next
  case Closes
  show ?thesis
  proof (cases "end_update any_generation (packed s)")
    case None
    show ?thesis by (rule no_effect) (use assms Closes None in simp_all)
  next
    case (Some w)
    show ?thesis by (rule closes [OF Closes Some]) (use assms Closes Some in simp)
  qed
next
  case Posts_cancel
  with assms obtain n where n: "close_calls s = Suc n" by (cases "close_calls s") simp_all
  show ?thesis by (rule posts_cancel [OF Posts_cancel n]) (use assms Posts_cancel n in simp)
next
  case Runs_serve
  with assms obtain n where n: "serve_posts s = Suc n" "suspended (position s)"
    by (cases "serve_posts s"; cases "suspended (position s)") simp_all
  show ?thesis
  proof (cases "serving s \<or> generation_of (packed s) = served s")
    case True
    show ?thesis by (rule serve_again [OF Runs_serve n True]) (use assms Runs_serve n True in auto)
  next
    case False
    show ?thesis by (rule serve_starts [OF Runs_serve n]) (use assms Runs_serve n False in auto)
  qed
next
  case Runs_cancel
  with assms obtain n where n: "cancel_posts s = Suc n" "suspended (position s)"
    by (cases "cancel_posts s"; cases "suspended (position s)") simp_all
  show ?thesis
  proof (cases "session_io s")
    case None
    show ?thesis by (rule nothing_to_cancel [OF Runs_cancel n None]) (use assms Runs_cancel n None in auto)
  next
    case (Some g)
    show ?thesis by (rule cancels [OF Runs_cancel n Some]) (use assms Runs_cancel n Some in auto)
  qed
qed

text \<open>A move only adds to the trace, so the bound on the number of generations held before it.\<close>

lemma opened_grows: "moved m s = Some t \<Longrightarrow> length (opened (trace s)) \<le> length (opened (trace t))"
  by (erule movedE; (erule serve_moveE | erule response_moveE)?) auto

lemma fits_before: "moved m s = Some t \<Longrightarrow> fits t \<Longrightarrow> fits s"
  using opened_grows by (fastforce simp: fits_def)

lemma position_ok_frame:
  "served t = served s \<Longrightarrow> packed t = packed s \<Longrightarrow> position_ok p t = position_ok p s"
  by (cases p) (simp_all add: gen_def)

lemma position_ok_opens:
  assumes "served t = served s" "gen t = Suc (gen s)" "unat (served s) \<le> gen s"
  shows "position_ok p s \<Longrightarrow> position_ok p t"
  using assms by (cases p) (auto simp: gen_def is_current_def)

lemma position_ok_closes:
  assumes "served t = served s" "generation_of (packed t) = generation_of (packed s)" "status_of (packed t) = DISCONNECTED"
  shows "position_ok p s \<Longrightarrow> position_ok p t"
  using assms by (cases p) (auto simp: gen_def is_current_def)

lemma opens_core:
  assumes "core_inv s" "fits t" "open_update (packed s) = Some w"
    and "packed t = w" "served t = served s" "position t = position s" "serving t = serving s"
    and "trace t = trace s @ [Opened (unat (generation_of w))]"
  shows "core_inv t \<and> gen t = Suc (gen s)"
proof -
  have "gen s < 2 ^ 62 - 1" using assms(1,2,8) by (simp add: core_inv_def fits_def)
  then have g: "unat (generation_of w) = Suc (gen s)"
    using assms(3) unat_generation_next by (simp add: open_update_Some gen_def)
  then have gt: "gen t = Suc (gen s)" using assms(4) by (simp add: gen_def)
  have "position_ok (position s) t"
    by (rule position_ok_opens [OF assms(5) gt]) (use assms(1) in \<open>simp_all add: core_inv_def\<close>)
  moreover have "status_of w = CONNECTING" using assms(3) by (simp add: open_update_Some)
  ultimately show ?thesis using assms g gt by (simp add: core_inv_def first_gens_Suc)
qed

lemma moved_core:
  assumes "moved m s = Some t" "core_inv s" "fits t"
  shows "core_inv t"
  using assms(1)
proof (cases rule: movedE)
  case (serve h)
  then show ?thesis using serve_move_core assms(2) by blast
next
  case (response h)
  then show ?thesis using response_move_core assms(2) by blast
next
  case (opens w)
  then show ?thesis using opens_core [OF assms(2,3) opens(2)] by simp
next
  case (closes w)
  then have w: "w = make_state (generation_of (packed s)) DISCONNECTED" by (simp add: end_update_Some)
  then have "position_ok (position s) t"
    using position_ok_closes [of t s] closes assms(2) by (simp add: core_inv_def)
  with closes w assms(2) show ?thesis by (simp add: core_inv_def gen_def)
next
  case (serve_starts n)
  with assms(2) show ?thesis by (simp add: core_inv_def gen_def)
qed (use assms(2) position_ok_frame [of t s] in \<open>simp_all add: core_inv_def gen_def\<close>)

end
