(* ===== verification/Http_Stream_Safety.thy ===== *)
theory Http_Stream_Safety
  imports Http_Stream_Moves
begin

text \<open>
  What every observer of an \<open>HttpStream\<close> can rely on, in every reachable state of \<^theory_text>\<open>Http_Stream\<close>: one session
  at a time, callbacks that never interleave, one \<open>onDisconnected\<close> per \<open>open()\<close> in order, at most one
  callback after the end of a generation, and the data of a response delivered in order.
\<close>

section \<open>The order of the callbacks\<close>

text \<open>Callbacks of an earlier generation come first, and \<open>onDisconnected\<close> is the last one of its generation.\<close>

definition call_before :: "nat \<times> callback \<Rightarrow> nat \<times> callback \<Rightarrow> bool" where
  "call_before x y \<longleftrightarrow> fst x < fst y \<or> fst x = fst y \<and> snd x \<noteq> On_disconnected"

definition calls_inv :: "stream \<Rightarrow> bool" where
  "calls_inv s \<longleftrightarrow> sorted_wrt call_before (calls (trace s))
     \<and> (\<forall>x \<in> set (calls (trace s)). fst x \<le> unat (served s)
          \<and> (session_of (position s) \<noteq> None \<and> fst x = unat (served s) \<longrightarrow> snd x \<noteq> On_disconnected))"

definition disconnected_inv :: "stream \<Rightarrow> bool" where
  "disconnected_inv s \<longleftrightarrow> (\<not> escaped s \<longrightarrow>
     disconnected (trace s) = first_gens (if session_of (position s) = None then unat (served s) else unat (served s) - 1))"

definition ended_inv :: "stream \<Rightarrow> bool" where
  "ended_inv s \<longleftrightarrow> ended (trace s) = first_gens (if status_of (packed s) = DISCONNECTED then gen s else gen s - 1)
     \<and> (status_of (packed s) \<noteq> DISCONNECTED \<longrightarrow> 0 < gen s)"

lemma disconnected_ascending:
  assumes "calls_inv s"
  shows "sorted_wrt (<) (disconnected (trace s)) \<and> (\<forall>n \<in> set (disconnected (trace s)). n \<le> unat (served s))"
proof -
  let ?ds = "filter (\<lambda>(n, c). c = On_disconnected) (calls (trace s))"
  have "sorted_wrt call_before ?ds" using assms by (simp add: calls_inv_def sorted_wrt_filter)
  then have "sorted_wrt (\<lambda>x y. fst x < fst y) ?ds"
    by (rule sorted_wrt_mono_rel [rotated]) (auto simp: call_before_def)
  then show ?thesis using assms by (auto simp: disconnected_def sorted_wrt_map calls_inv_def)
qed

text \<open>A call in the running session, or the last one of it, or one for a generation that is skipped.\<close>

lemma calls_inv_call:
  assumes "calls_inv s" "session_of (position s) = Some (served s)"
    and "trace t = trace s @ [Called (unat (served s)) c]" "served t = served s"
    and "c = On_disconnected \<longrightarrow> session_of (position t) = None"
  shows "calls_inv t"
  using assms by (auto simp: calls_inv_def sorted_wrt_append call_before_def le_less)

lemma calls_inv_skip:
  assumes "calls_inv s" "unat (served t) = Suc (unat (served s))"
    and "trace t = trace s @ [Called (unat (served t)) c]" "session_of (position t) = None"
  shows "calls_inv t"
  using assms by (auto simp: calls_inv_def sorted_wrt_append call_before_def)

lemma calls_inv_frame:
  assumes "calls_inv s" "calls (trace t) = calls (trace s)"
    and "served t = served s \<and> (session_of (position s) = None \<longrightarrow> session_of (position t) = None) \<or> unat (served t) = Suc (unat (served s))"
  shows "calls_inv t"
  using assms by (fastforce simp: calls_inv_def)

lemma core_session:
  "core_inv s \<Longrightarrow> session_of (position s) = Some g \<Longrightarrow> g = served s \<and> 0 < unat (served s)"
  by (cases "position s") (auto simp: core_inv_def unat_gt_0)

lemma core_catch_up: "core_inv s \<Longrightarrow> position s = Catch_up g \<Longrightarrow> unat (served s + 1) = Suc (unat (served s))"
  using unat_next [of "served s" g] by (simp add: core_inv_def)

lemma serve_move_calls:
  assumes "serve_move (position s) h s = Some t" "core_inv s" "calls_inv s"
  shows "calls_inv t"
  using assms(1)
proof (cases rule: serve_moveE)
  case (session g)
  then show ?thesis using core_catch_up [OF assms(2)] by (intro calls_inv_frame [OF assms(3)]) auto
next
  case (skips g)
  then show ?thesis using core_catch_up [OF assms(2)] by (intro calls_inv_skip [OF assms(3)]) auto
next
  case (finishes g)
  then show ?thesis using core_session [OF assms(2), of g] by (intro calls_inv_call [OF assms(3)]) auto
qed (rule calls_inv_frame [OF assms(3)]; simp)+

lemma response_move_calls:
  assumes "response_move (position s) h s = Some t" "core_inv s" "calls_inv s"
  shows "calls_inv t"
  using assms(1)
proof (cases rule: response_moveE)
  case (rejected g e)
  then show ?thesis using core_session [OF assms(2), of g] by (intro calls_inv_call [OF assms(3)]) auto
next
  case (calls_back g c k)
  then show ?thesis using core_session [OF assms(2), of g] assms(2)
    by (intro calls_inv_call [OF assms(3)]) (auto simp: core_inv_def)
qed (rule calls_inv_frame [OF assms(3)]; simp)+

lemma moved_calls:
  assumes "moved m s = Some t" "core_inv s" "calls_inv s"
  shows "calls_inv t"
  using assms(1)
proof (cases rule: movedE)
  case (serve h)
  then show ?thesis using serve_move_calls assms(2,3) by blast
next
  case (response h)
  then show ?thesis using response_move_calls assms(2,3) by blast
next
  case (serve_starts n)
  then have "position s = Not_serving" using assms(2) by (simp add: core_inv_def)
  with serve_starts show ?thesis by (intro calls_inv_frame [OF assms(3)]) simp_all
qed (rule calls_inv_frame [OF assms(3)]; simp)+

section \<open>One onDisconnected for each generation\<close>

lemma disconnected_frame:
  assumes "disconnected_inv s" "disconnected (trace t) = disconnected (trace s)" "escaped t = escaped s" "served t = served s"
    and "session_of (position t) = None \<longleftrightarrow> session_of (position s) = None"
  shows "disconnected_inv t"
  using assms by (simp add: disconnected_inv_def)

lemma serve_move_disconnected:
  assumes "serve_move (position s) h s = Some t" "core_inv s" "disconnected_inv s"
  shows "disconnected_inv t"
  using assms(1)
proof (cases rule: serve_moveE)
  case (session g)
  then show ?thesis using core_catch_up [OF assms(2)] assms(3) by (auto simp: disconnected_inv_def)
next
  case (skips g)
  then show ?thesis using core_catch_up [OF assms(2)] assms(3) by (auto simp: disconnected_inv_def first_gens_Suc)
next
  case (finishes g)
  then have g: "g = served s" "unat (served s) = Suc (unat (served s) - 1)"
    using core_session [OF assms(2), of g] by auto
  have "first_gens (unat (served s)) = first_gens (unat (served s) - 1) @ [unat (served s)]"
    using first_gens_Suc [of "unat (served s) - 1"] g(2) by simp
  with finishes g(1) assms(3) show ?thesis by (simp add: disconnected_inv_def)
qed (rule disconnected_frame [OF assms(3)]; simp)+

lemma response_move_disconnected:
  assumes "response_move (position s) h s = Some t" "core_inv s" "disconnected_inv s"
  shows "disconnected_inv t"
  using assms(1)
proof (cases rule: response_moveE)
  case (calls_back g c k)
  then have "c \<noteq> On_disconnected" using assms(2) by (auto simp: core_inv_def)
  with calls_back assms(3) show ?thesis by (simp add: disconnected_inv_def)
next
  case (callback_escaped g k)
  then show ?thesis by (simp add: disconnected_inv_def)
qed (rule disconnected_frame [OF assms(3)]; simp)+

lemma moved_disconnected:
  assumes "moved m s = Some t" "core_inv s" "disconnected_inv s"
  shows "disconnected_inv t"
  using assms(1)
proof (cases rule: movedE)
  case (serve h)
  then show ?thesis using serve_move_disconnected assms(2,3) by blast
next
  case (response h)
  then show ?thesis using response_move_disconnected assms(2,3) by blast
next
  case (serve_starts n)
  then have "position s = Not_serving" using assms(2) by (simp add: core_inv_def)
  with serve_starts show ?thesis by (intro disconnected_frame [OF assms(3)]) simp_all
qed (rule disconnected_frame [OF assms(3)]; simp)+

section \<open>Each generation ends once, and then runs at most one more callback\<close>

definition late_inv :: "stream \<Rightarrow> bool" where
  "late_inv s \<longleftrightarrow> (\<forall>n. late n (trace s) \<le> 1)
     \<and> (\<forall>g. (position s = Got_header g \<or> (\<exists>c k. position s = About_to g c k)) \<longrightarrow> late (unat g) (trace s) = 0)"

lemma ended_frame:
  assumes "ended_inv s" "ended (trace t) = ended (trace s)" "generation_of (packed t) = generation_of (packed s)"
    and "status_of (packed t) = DISCONNECTED \<longleftrightarrow> status_of (packed s) = DISCONNECTED"
  shows "ended_inv t"
  using assms by (simp add: ended_inv_def gen_def)

lemma ended_ends:
  assumes "ended_inv s" "status_of (packed s) \<noteq> DISCONNECTED" "ended (trace t) = ended (trace s) @ [gen s]"
    and "packed t = make_state (generation_of (packed s)) DISCONNECTED"
  shows "ended_inv t"
proof -
  have "gen s = Suc (gen s - 1)" using assms(1,2) by (simp add: ended_inv_def)
  then have "first_gens (gen s) = first_gens (gen s - 1) @ [gen s]" using first_gens_Suc by metis
  with assms show ?thesis by (simp add: ended_inv_def gen_def)
qed

lemma moved_ended:
  assumes "moved m s = Some t" "core_inv s" "ended_inv s" "fits t"
  shows "ended_inv t"
  using assms(1)
proof (cases rule: movedE)
  case (serve h)
  from this(2) show ?thesis
  proof (cases rule: serve_moveE)
    case (ends g w)
    then have "g \<noteq> any_generation" using core_session [OF assms(2), of g] by (auto simp: any_generation_def)
    with ends have "is_current g (packed s)" "w = make_state (generation_of (packed s)) DISCONNECTED"
      by (simp_all add: end_update_Some)
    then show ?thesis using ends
      by (intro ended_ends [OF assms(3)]) (simp_all add: is_current_def gen_def)
  qed (rule ended_frame [OF assms(3)]; simp)+
next
  case (response h)
  from this(2) show ?thesis
  proof (cases rule: response_moveE)
    case (connects g)
    then show ?thesis by (intro ended_frame [OF assms(3)]) (simp_all add: generation_of_make_mask)
  qed (rule ended_frame [OF assms(3)]; simp)+
next
  case (opens w)
  then have "gen t = Suc (gen s)" using opens_core [OF assms(2,4) opens(2)] by simp
  with opens assms(3) show ?thesis by (simp add: ended_inv_def open_update_Some)
next
  case (closes w)
  then show ?thesis
    by (intro ended_ends [OF assms(3)]) (simp_all add: end_update_Some gen_def)
qed (rule ended_frame [OF assms(3)]; simp)+

lemma current_not_ended:
  assumes "ended_inv s" "is_current g (packed s)"
  shows "unat g \<notin> set (ended (trace s))"
  using assms by (auto simp: ended_inv_def is_current_def gen_def)

lemma late_frame:
  assumes "late_inv s" "\<And>n. late n (trace t) = late n (trace s)"
    and "\<And>g c k. position t = Got_header g \<or> position t = About_to g c k \<Longrightarrow> late (unat g) (trace t) = 0"
  shows "late_inv t"
  using assms unfolding late_inv_def by (metis (no_types, lifting))

lemma late_call:
  assumes "late_inv s" "position s = Got_header g \<or> position s = About_to g c' k'"
    and "trace t = trace s @ [Called (unat g) c]" "position t = In_callback g k"
  shows "late_inv t"
proof -
  have "late (unat g) (trace s) = 0" using assms(1,2) unfolding late_inv_def by blast
  then show ?thesis using assms(1,3,4) by (simp add: late_inv_def)
qed

lemma next_io_Got [simp]: "next_io ssl g prev = Got_header h \<longleftrightarrow> h = g \<and> prev = Some Read_header"
  by (cases "(ssl, g, prev)" rule: next_io.cases) auto

lemma next_io_About [simp]: "next_io ssl g prev \<noteq> About_to h c k"
  by (cases "(ssl, g, prev)" rule: next_io.cases) auto

lemma serve_move_late:
  assumes "serve_move (position s) h s = Some t" "ended_inv s" "late_inv s"
  shows "late_inv t"
  using assms(1)
proof (cases rule: serve_moveE)
  case (reports g e)
  then have "late (unat g) (trace s) = 0" using current_not_ended [OF assms(2)] late_not_ended by blast
  with reports show ?thesis by (intro late_frame [OF assms(3)]) auto
qed (rule late_frame [OF assms(3)]; simp)+

lemma response_move_late:
  assumes "response_move (position s) h s = Some t" "core_inv s" "ended_inv s" "late_inv s"
  shows "late_inv t"
proof -
  have late: "late (unat g) (trace s) = 0" if "is_current g (packed s)" for g
    using current_not_ended [OF assms(3) that] late_not_ended by blast
  show ?thesis
    using assms(1)
  proof (cases rule: response_moveE)
    case (check_passed g prev)
    with late show ?thesis by (intro late_frame [OF assms(4)]) auto
  next
    case (rejected g e)
    then show ?thesis by (intro late_call [OF assms(4)]) auto
  next
    case (calls_back g c k)
    then show ?thesis by (intro late_call [OF assms(4)]) auto
  next
    case (connects g)
    then show ?thesis using assms(4) unfolding late_inv_def by simp
  next
    case (read_bytes g bs e)
    with late show ?thesis by (intro late_frame [OF assms(4)]) auto
  next
    case (next_event g d ds e)
    with late show ?thesis by (intro late_frame [OF assms(4)]) auto
  next
    case (read_error g e)
    with late show ?thesis by (intro late_frame [OF assms(4)]) auto
  qed (rule late_frame [OF assms(4)]; simp)+
qed

lemma moved_late:
  assumes "moved m s = Some t" "core_inv s" "ended_inv s" "late_inv s"
  shows "late_inv t"
  using assms(1)
proof (cases rule: movedE)
  case (serve h)
  then show ?thesis using serve_move_late assms by blast
next
  case (response h)
  then show ?thesis using response_move_late assms by blast
next
  case (serve_starts n)
  then show ?thesis by (intro late_frame [OF assms(4)]) simp_all
qed (use assms(4) in \<open>simp_all add: late_inv_def\<close>)

section \<open>Every open is served\<close>

text \<open>
  A generation that is not served yet has its \<open>serve\<close> under way or a running loop that will see it, and a
  stream that is not DISCONNECTED has a session, or one to come.
\<close>

definition serve_inv :: "stream \<Rightarrow> bool" where
  "serve_inv s \<longleftrightarrow> (\<not> escaped s \<longrightarrow>
     (served s \<noteq> generation_of (packed s) \<longrightarrow> 0 < open_calls s \<or> 0 < serve_posts s \<or> position s \<noteq> Not_serving)
   \<and> (session_of (position s) = None \<and> served s = generation_of (packed s) \<longrightarrow> status_of (packed s) = DISCONNECTED)
   \<and> position s \<noteq> Escaped)"

lemma serve_frame:
  assumes "serve_inv s" "served t = served s" "packed t = packed s" "escaped t = escaped s"
    and "open_calls t = open_calls s" "serve_posts t = serve_posts s" "position t \<noteq> Not_serving" "position t \<noteq> Escaped"
    and "session_of (position t) = None \<longrightarrow> session_of (position s) = None"
  shows "serve_inv t"
  using assms by (simp add: serve_inv_def)

lemma next_io_not_escaped [simp]: "next_io ssl g prev \<noteq> Escaped"
  by (cases "(ssl, g, prev)" rule: next_io.cases) simp_all

lemma serve_move_serve:
  assumes "serve_move (position s) h s = Some t" "core_inv s" "serve_inv s"
  shows "serve_inv t"
  using assms(1)
proof (cases rule: serve_moveE)
  case all_served
  with assms(3) show ?thesis by (simp add: serve_inv_def)
next
  case (session g)
  then show ?thesis by (simp add: serve_inv_def)
next
  case (skips g)
  then have "unat g \<le> gen s" "unat (served s + 1) < unat g"
    using core_catch_up [OF assms(2), of g] assms(2) by (auto simp: core_inv_def le_less word_unat_eq_iff)
  then have "served s + 1 \<noteq> generation_of (packed s)" by (auto simp: gen_def)
  with skips show ?thesis by (simp add: serve_inv_def)
next
  case (ended_before g)
  with assms(3) show ?thesis by (simp add: serve_inv_def)
next
  case (ends g w)
  with assms(3) show ?thesis by (simp add: serve_inv_def end_update_Some)
next
  case (finishes g)
  then have "g = served s" "\<not> is_current g (packed s)" using assms(2) by (auto simp: core_inv_def)
  with finishes show ?thesis by (auto simp: serve_inv_def is_current_def)
next
  case gives_up
  with assms(3) show ?thesis by (simp add: serve_inv_def)
qed (rule serve_frame [OF assms(3)]; simp)+

lemma response_move_serve:
  assumes "response_move (position s) h s = Some t" "core_inv s" "serve_inv s"
  shows "serve_inv t"
  using assms(1)
proof (cases rule: response_moveE)
  case (connects g)
  with assms(3) show ?thesis by (simp add: serve_inv_def)
next
  case (callback_escaped g k)
  then show ?thesis by (simp add: serve_inv_def)
qed (rule serve_frame [OF assms(3)]; simp)+

lemma moved_serve:
  assumes "moved m s = Some t" "core_inv s" "serve_inv s" "fits t"
  shows "serve_inv t"
  using assms(1)
proof (cases rule: movedE)
  case (serve h)
  then show ?thesis using serve_move_serve assms by blast
next
  case (response h)
  then show ?thesis using response_move_serve assms by blast
next
  case (opens w)
  then have "gen t = Suc (gen s)" using opens_core [OF assms(2,4) opens(2)] by simp
  moreover have "served t = served s" using opens(3) by simp
  moreover have "unat (served s) \<le> gen s" using assms(2) unfolding core_inv_def by blast
  ultimately have "unat (served t) < gen t" by simp
  then have "served t \<noteq> generation_of (packed t)" unfolding gen_def by (metis less_irrefl)
  moreover have "0 < open_calls t" "position t = position s" "escaped t = escaped s" using opens(3) by simp_all
  ultimately show ?thesis using assms(3) unfolding serve_inv_def by simp
next
  case (serve_again n)
  then have "position s \<noteq> Not_serving \<or> served s = generation_of (packed s)"
    using assms(2) unfolding core_inv_def by metis
  moreover have "position t = position s" "served t = served s" "packed t = packed s" "escaped t = escaped s"
    using serve_again(5) by simp_all
  ultimately show ?thesis using assms(3) unfolding serve_inv_def by auto
next
  case (serve_starts n)
  with assms(3) show ?thesis by (simp add: serve_inv_def)
qed (use assms(3) in \<open>auto simp: serve_inv_def end_update_Some\<close>)

section \<open>Cancelling\<close>

text \<open>The positions between the registration of the session's I/O and its destruction.\<close>

fun registered :: "position \<Rightarrow> bool" where
  "registered (Check _ _) = True"
| "registered (Wait _ _) = True"
| "registered (Got_header _) = True"
| "registered (About_to _ _ k) = (k \<noteq> After_caught)"
| "registered (In_callback _ k) = (k \<noteq> After_caught)"
| "registered (Body _) = True"
| "registered (Reading _) = True"
| "registered (Read _ _ _) = True"
| "registered (Deliver _ _ _) = True"
| "registered _ = False"

text \<open>
  I/O that was current at a check and is not any more has been cancelled, or the \<open>close\<close> that ended it is
  about to cancel it; a current session is never cancelled.
\<close>

definition cancel_inv :: "stream \<Rightarrow> bool" where
  "cancel_inv s \<longleftrightarrow> session_io s = (if registered (position s) then Some (served s) else None)
     \<and> (registered (position s) \<and> cancelled s \<longrightarrow> \<not> is_current (served s) (packed s))
     \<and> (registered (position s) \<and> (\<forall>g. position s \<noteq> Check g None) \<and> \<not> is_current (served s) (packed s)
          \<longrightarrow> 0 < close_calls s \<or> 0 < cancel_posts s \<or> cancelled s)"

lemma registered_next_io [simp]: "registered (next_io ssl g prev)"
  by (cases "(ssl, g, prev)" rule: next_io.cases) simp_all

lemma next_io_Check [simp]: "next_io ssl g prev \<noteq> Check h io"
  by (cases "(ssl, g, prev)" rule: next_io.cases) simp_all

lemma cancel_frame:
  assumes "cancel_inv s" "served t = served s" "packed t = packed s"
    and "close_calls t = close_calls s" "cancel_posts t = cancel_posts s" "cancelled t = cancelled s"
    and "session_io t = (if registered (position t) then session_io s else None)"
    and "registered (position t) \<longrightarrow> registered (position s) \<and> ((\<forall>g. position s \<noteq> Check g None) \<or> is_current (served s) (packed s))"
  shows "cancel_inv t"
  using assms by (auto simp: cancel_inv_def)

lemma serve_move_cancel:
  assumes "serve_move (position s) h s = Some t" "core_inv s" "cancel_inv s"
  shows "cancel_inv t"
  using assms(1)
proof (cases rule: serve_moveE)
  case (registers g)
  with assms(2) show ?thesis by (simp add: cancel_inv_def core_inv_def)
qed (use assms(3) in \<open>simp_all add: cancel_inv_def\<close>)

lemma response_move_cancel:
  assumes "response_move (position s) h s = Some t" "core_inv s" "cancel_inv s"
  shows "cancel_inv t"
  using assms(1)
proof (cases rule: response_moveE)
  case (check_passed g prev)
  then show ?thesis using core_session [OF assms(2), of g] assms(3)
    by (intro cancel_frame [OF assms(3)]) (auto simp: cancel_inv_def)
next
  case (connects g)
  then have g: "g = served s" using core_session [OF assms(2), of g] by simp
  then have "unat g \<le> gen s" using assms(2) by (simp add: core_inv_def)
  then have "unat g < 2 ^ 62" using generation_of_less [of "packed s"] unfolding gen_def by (rule le_less_trans)
  then have "is_current g (packed s)" "is_current g (packed t)"
    using connects(2,3) eq_make_state_iff [of g _ CONNECTING] eq_make_state_iff [of g "packed t" CONNECTED]
    by (auto simp: is_current_def)
  then show ?thesis using connects g assms(3) by (simp add: cancel_inv_def)
qed (use assms(3) in \<open>auto simp: cancel_inv_def\<close>)

lemma moved_cancel:
  assumes "moved m s = Some t" "core_inv s" "cancel_inv s" "fits t"
  shows "cancel_inv t"
  using assms(1)
proof (cases rule: movedE)
  case (serve h)
  then show ?thesis using serve_move_cancel assms by blast
next
  case (response h)
  then show ?thesis using response_move_cancel assms by blast
next
  case (opens w)
  then have "gen t = Suc (gen s)" using opens_core [OF assms(2,4) opens(2)] by simp
  moreover have "gen t = unat (generation_of w)" using opens(3) by (simp add: gen_def)
  moreover have "unat (served s) \<le> gen s" using assms(2) unfolding core_inv_def by blast
  ultimately have "unat (served s) < unat (generation_of w)" by simp
  then have "served s \<noteq> generation_of w" "status_of (packed s) = DISCONNECTED"
    using opens by (auto simp: open_update_Some)
  with opens assms(3) show ?thesis by (auto simp: cancel_inv_def is_current_def)
next
  case (closes w)
  then have "\<not> is_current (served s) w" by (simp add: end_update_Some is_current_def)
  with closes assms(3) show ?thesis by (auto simp: cancel_inv_def)
next
  case (serve_starts n)
  then have "position s = Not_serving" using assms(2) by (simp add: core_inv_def)
  with serve_starts assms(3) show ?thesis by (simp add: cancel_inv_def)
qed (use assms(3) in \<open>auto simp: cancel_inv_def split: if_splits\<close>)

section \<open>The data of a response\<close>

text \<open>
  The events of the current read still to deliver, while the body is streaming; \<^term>\<open>before_body\<close> holds up to
  the return of \<open>onConnected\<close>.
\<close>

fun undelivered :: "position \<Rightarrow> string list option" where
  "undelivered (Body _) = Some []"
| "undelivered (Reading _) = Some []"
| "undelivered (Read _ _ _) = Some []"
| "undelivered (Deliver _ ds _) = Some ds"
| "undelivered (About_to _ c (After_data ds _)) = (case c of On_data d \<Rightarrow> Some (d # ds) | _ \<Rightarrow> None)"
| "undelivered (About_to _ _ After_read_error) = Some []"
| "undelivered (In_callback _ (After_data ds _)) = Some ds"
| "undelivered (In_callback _ After_read_error) = Some []"
| "undelivered _ = None"

fun before_body :: "position \<Rightarrow> bool" where
  "before_body (Setup _) = True"
| "before_body (Check _ _) = True"
| "before_body (Wait _ _) = True"
| "before_body (Got_header _) = True"
| "before_body (About_to _ _ k) = (k = After_connected)"
| "before_body (In_callback _ k) = (k = After_connected \<or> k = After_rejected)"
| "before_body _ = False"

fun sends_data :: "position \<Rightarrow> bool" where
  "sends_data (About_to _ (On_data _) _) = True"
| "sends_data _ = False"

definition data_inv :: "stream \<Rightarrow> bool" where
  "data_inv s \<longleftrightarrow>
     (let data = data_of (unat (served s)) (trace s) in
      prefix data (decoded s)
    \<and> (before_body (position s) \<longrightarrow> decoded s = [] \<and> received s = [])
    \<and> (\<forall>ds. undelivered (position s) = Some ds \<longrightarrow>
         (data @ ds = decoded s \<or> \<not> is_current (served s) (packed s) \<and> \<not> sends_data (position s))
       \<and> (is_sse s \<longrightarrow> feed collect (received s) sse_init [] = (True, parser s, decoded s)))
    \<and> (if is_sse s then decoded s = sse_events (received s) else concat (decoded s) = received s))"

lemma collected_events: "feed collect xs sse_init [] = (ok, q, ds) \<Longrightarrow> ds = sse_events xs"
proof -
  assume "feed collect xs sse_init [] = (ok, q, ds)"
  moreover have "sse_reset sse_init = sse_init" by (simp add: sse_reset_def sse_init_def)
  ultimately show ?thesis using feed_events [of xs sse_init "[]"] by auto
qed

lemma sse_events_Nil: "sse_events [] = []"
  by (simp add: sse_events_def)

lemma sse_reset_init: "sse_reset p = sse_init"
  by (cases p) (simp add: sse_reset_def sse_init_def)

lemma feed_Nil: "feed collect [] p es = (True, p, es)"
  by (rule sse.feed_none)

lemma data_frame:
  assumes "data_inv s" "data_of (unat (served s)) (trace t) = data_of (unat (served s)) (trace s)" "served t = served s"
    and "decoded t = decoded s" "received t = received s" "is_sse t = is_sse s" "parser t = parser s"
    and "before_body (position t) \<longrightarrow> before_body (position s)"
    and "undelivered (position t) = None \<or> undelivered (position t) = undelivered (position s)
       \<and> (is_current (served s) (packed t) \<longrightarrow> is_current (served s) (packed s))
       \<and> (position t = position s \<or> \<not> sends_data (position t) \<or> is_current (served s) (packed s))"
  shows "data_inv t"
proof -
  note inv = assms(1) [unfolded data_inv_def Let_def]
  show ?thesis
  proof (cases "undelivered (position t)")
    case None
    then show ?thesis unfolding data_inv_def Let_def assms(3) assms(2,4-7) using inv assms(8) by simp
  next
    case (Some ds)
    with assms(9) have u: "undelivered (position s) = Some ds"
      "is_current (served s) (packed t) \<longrightarrow> is_current (served s) (packed s)"
      "position t = position s \<or> \<not> sends_data (position t) \<or> is_current (served s) (packed s)" by simp_all
    show ?thesis unfolding data_inv_def Let_def assms(3) assms(2,4-7) using inv assms(8) u Some by auto
  qed
qed

text \<open>While the session is current, the callbacks lag behind only by what is still to deliver.\<close>

lemma data_current:
  assumes "data_inv s" "undelivered (position s) = Some ds" "is_current (served s) (packed s)"
  shows "data_of (unat (served s)) (trace s) @ ds = decoded s"
  using assms by (auto simp: data_inv_def Let_def)

lemma data_of_new:
  assumes "calls_inv s" "unat (served s) < n"
  shows "data_of n (trace s) = []"
  using assms by (auto simp: data_of_def calls_inv_def split: callback.splits)

lemma undelivered_next_io [simp]: "undelivered (next_io ssl g prev) = None"
  by (cases "(ssl, g, prev)" rule: next_io.cases) simp_all

lemma serve_move_data:
  assumes "serve_move (position s) h s = Some t" "core_inv s" "calls_inv s" "data_inv s"
  shows "data_inv t"
  using assms(1)
proof (cases rule: serve_moveE)
  case (session g)
  then have "data_of (unat (served t)) (trace t) = []"
    using core_catch_up [OF assms(2)] data_of_new [OF assms(3)] by simp
  with session show ?thesis by (simp add: data_inv_def sse_events_Nil)
next
  case (skips g)
  then have "data_of (unat (served t)) (trace t) = []"
    using core_catch_up [OF assms(2)] data_of_new [OF assms(3)] by simp
  with skips assms(4) show ?thesis by (simp add: data_inv_def Let_def)
qed (rule data_frame [OF assms(4)]; simp)+

lemma response_move_data:
  assumes "response_move (position s) h s = Some t" "core_inv s" "data_inv s"
  shows "data_inv t"
  using assms(1)
proof (cases rule: response_moveE)
  case (calls_back g c k)
  then have g: "g = served s" "goes_with c k" using assms(2) by (simp_all add: core_inv_def)
  show ?thesis
  proof (cases "\<exists>d. c = On_data d")
    case False
    then have "data_of (unat (served s)) (trace t) = data_of (unat (served s)) (trace s)"
      using calls_back by (cases c) simp_all
    with calls_back g False show ?thesis
      by (intro data_frame [OF assms(3)]) (auto elim!: goes_with.elims)
  next
    case True
    with g obtain d ds e where c: "c = On_data d" "k = After_data ds e" by (auto elim!: goes_with.elims)
    with calls_back have u: "undelivered (position s) = Some (d # ds)" by simp
    with calls_back c assms(3) have "data_of (unat (served s)) (trace s) @ d # ds = decoded s"
      by (auto simp: data_inv_def Let_def)
    then have "data_of (unat (served s)) (trace t) @ ds = decoded s" using calls_back c g by simp
    moreover from this have "prefix (data_of (unat (served s)) (trace t)) (decoded s)" by (metis prefixI)
    ultimately show ?thesis using calls_back c u assms(3) by (auto simp: data_inv_def Let_def)
  qed
next
  case (was_connected g sse complete)
  with assms(3) show ?thesis by (auto simp: data_inv_def Let_def sse_events_Nil sse_reset_init feed_Nil)
next
  case (read_events g bs e ok p ds)
  then have g: "g = served s" using core_session [OF assms(2), of g] by simp
  have u: "undelivered (position s) = Some []" using read_events by simp
  have "data_of (unat (served s)) (trace s) = decoded s" using data_current [OF assms(3) u] read_events g by simp
  moreover have "feed collect (received s) sse_init [] = (True, parser s, decoded s)"
    using assms(3) u read_events by (auto simp: data_inv_def Let_def)
  then have "feed collect (received s @ bs) sse_init [] = (True, p, decoded s @ ds)"
    using read_events by (intro feed_collect_append) simp_all
  ultimately show ?thesis using read_events collected_events
    by (simp add: data_inv_def Let_def)
next
  case (read_bytes g bs e)
  then have g: "g = served s" using core_session [OF assms(2), of g] by simp
  have "data_of (unat (served s)) (trace s) = decoded s" using data_current [OF assms(3)] read_bytes g by simp
  with read_bytes assms(3) show ?thesis by (simp add: data_inv_def Let_def)
next
  case (next_event g d ds e)
  then have "g = served s" using core_session [OF assms(2), of g] by simp
  with next_event show ?thesis by (intro data_frame [OF assms(3)]) simp_all
next
  case (drops_event g d ds e)
  then have "g = served s" using core_session [OF assms(2), of g] by simp
  with drops_event assms(3) show ?thesis by (simp add: data_inv_def Let_def)
qed (rule data_frame [OF assms(3)]; simp)+

lemma moved_data:
  assumes "moved m s = Some t" "core_inv s" "calls_inv s" "data_inv s" "fits t"
  shows "data_inv t"
  using assms(1)
proof (cases rule: movedE)
  case (serve h)
  then show ?thesis using serve_move_data assms by blast
next
  case (response h)
  then show ?thesis using response_move_data assms by blast
next
  case (opens w)
  then have "gen t = Suc (gen s)" using opens_core [OF assms(2,5) opens(2)] by simp
  moreover have "gen t = unat (generation_of w)" using opens(3) by (simp add: gen_def)
  moreover have "unat (served s) \<le> gen s" using assms(2) unfolding core_inv_def by blast
  ultimately have "\<not> is_current (served s) w" by (auto simp: is_current_def)
  with opens show ?thesis by (intro data_frame [OF assms(4)]) simp_all
next
  case (closes w)
  then have "\<not> is_current (served s) w" by (simp add: end_update_Some is_current_def)
  with closes show ?thesis by (intro data_frame [OF assms(4)]) simp_all
qed (rule data_frame [OF assms(4)]; simp)+

section \<open>All of it\<close>

definition stream_inv :: "stream \<Rightarrow> bool" where
  "stream_inv s \<longleftrightarrow> core_inv s \<and> calls_inv s \<and> disconnected_inv s \<and> ended_inv s \<and> late_inv s \<and> serve_inv s
     \<and> cancel_inv s \<and> data_inv s"

lemma stream_inv_init: "stream_inv (stream_init ssl)"
  using core_init [of ssl]
  by (simp add: stream_inv_def calls_inv_def disconnected_inv_def ended_inv_def late_inv_def serve_inv_def
      cancel_inv_def data_inv_def stream_init_def gen_def sse_events_Nil)

lemma moved_inv: "moved m s = Some t \<Longrightarrow> fits t \<Longrightarrow> stream_inv s \<Longrightarrow> stream_inv t"
  unfolding stream_inv_def
  using moved_core moved_calls moved_disconnected moved_ended moved_late moved_serve moved_cancel moved_data by meson

interpretation stream_sys: inductive_invariant "stream_init ssl" stream_step "\<lambda>s. fits s \<longrightarrow> stream_inv s" for ssl
proof unfold_locales
  fix s t assume "fits s \<longrightarrow> stream_inv s" "stream_step s t"
  then show "fits t \<longrightarrow> stream_inv t" using fits_before moved_inv by (auto elim!: stream_stepE)
qed (simp add: stream_inv_init)

lemma reachable_stream_inv:
  "reachable (stream_init ssl) stream_step s \<Longrightarrow> length (opened (trace s)) < 2 ^ 62 \<Longrightarrow> stream_inv s"
  using stream_sys.reachable_inv by (simp add: fits_def)

text \<open>
  A generation that has ended stays quiet once no check of it is outstanding: every callback but
  \<open>onDisconnected\<close> is behind a check that its generation is current.
\<close>

definition quiet :: "nat \<Rightarrow> stream \<Rightarrow> bool" where
  "quiet n s \<longleftrightarrow> n \<in> set (ended (trace s)) \<and> late n (trace s) = 0
     \<and> (\<forall>g. position s = Got_header g \<or> (\<exists>c k. position s = About_to g c k) \<longrightarrow> unat g \<noteq> n)"

lemma quiet_frame:
  assumes "quiet n s" "set (ended (trace s)) \<subseteq> set (ended (trace t))" "late n (trace t) = late n (trace s)"
    and "\<And>g c k. position t = Got_header g \<or> position t = About_to g c k \<Longrightarrow> unat g \<noteq> n"
  shows "quiet n t"
proof -
  have "n \<in> set (ended (trace t))" using assms(1,2) unfolding quiet_def by blast
  moreover have "late n (trace t) = 0" using assms(1,3) unfolding quiet_def by simp
  moreover have "unat g \<noteq> n" if "position t = Got_header g \<or> (\<exists>c k. position t = About_to g c k)" for g
    using that assms(4) by blast
  ultimately show ?thesis unfolding quiet_def by blast
qed

lemma quiet_moved:
  assumes "moved m s = Some t" "ended_inv s" "quiet n s"
  shows "quiet n t"
  using assms(1)
proof -
  have cur: "unat g \<noteq> n" if "is_current g (packed s)" for g
    using current_not_ended [OF assms(2) that] assms(3) by (auto simp: quiet_def)
  have pos: "unat g \<noteq> n" if "position s = Got_header g \<or> position s = About_to g c k" for g c k
    using that assms(3) unfolding quiet_def by blast
  show ?thesis
    using assms(1)
  proof (cases rule: movedE)
    case (serve h)
    from this(2) show ?thesis
      by (cases rule: serve_moveE) (rule quiet_frame [OF assms(3)]; use cur in \<open>auto\<close>)+
  next
    case (response h)
    from this(2) show ?thesis
      by (cases rule: response_moveE) (rule quiet_frame [OF assms(3)]; use cur pos in \<open>auto\<close>)+
  qed (rule quiet_frame [OF assms(3)]; use pos in \<open>auto\<close>)+
qed

lemma quiet_steps:
  assumes "stream_step\<^sup>*\<^sup>* s t" "quiet n s" "reachable (stream_init ssl) stream_step s" "fits t"
  shows "quiet n t"
  using assms(1,4)
proof (induction rule: rtranclp_induct)
  case (step t u)
  obtain m where m: "moved m t = Some u" using step.hyps(2) by (auto elim: stream_stepE)
  then have "fits t" using fits_before step.prems by blast
  then have "stream_inv t"
    using reachable_stream_inv steps_reachable [OF step.hyps(1) assms(3)] by (simp add: fits_def)
  then show ?case using quiet_moved [OF m] step.IH \<open>fits t\<close> by (simp add: stream_inv_def)
qed (rule assms(2))

end
