(* ===== verification/Http_Stream_Ends.thy ===== *)
theory Http_Stream_Ends
  imports Http_Stream_Safety
begin

text \<open>
  A closed stream comes to rest: once the stream is DISCONNECTED and until the next \<open>open()\<close>, every run of its
  strand and of the \<open>open\<close> and \<open>close\<close> calls still under way is finite, whatever the network and the callbacks
  do, and ends with every generation's \<open>onDisconnected\<close> delivered.  An operation that waits is taken to
  complete in some way, as cancelled I/O does.
\<close>

section \<open>What is left to do\<close>

fun continuation_weight :: "continuation \<Rightarrow> nat" where
  "continuation_weight (After_data ds e) = length ds"
| "continuation_weight _ = 0"

fun position_weight :: "position \<Rightarrow> nat" where
  "position_weight Not_serving = 0"
| "position_weight Spawned = 2"
| "position_weight Serve_loop = 1"
| "position_weight (Catch_up g) = 0"
| "position_weight (Setup g) = 6"
| "position_weight (Check g prev) = 5"
| "position_weight (Wait g io) = 6"
| "position_weight (Got_header g) = 8"
| "position_weight (About_to g c k) = 8 + continuation_weight k"
| "position_weight (In_callback g k) = 7 + continuation_weight k"
| "position_weight (Body g) = 5"
| "position_weight (Reading g) = 6"
| "position_weight (Read g bs e) = 5"
| "position_weight (Deliver g ds e) = 6 + length ds"
| "position_weight (Closing_socket g) = 4"
| "position_weight (Caught g e) = 4"
| "position_weight (Ending g) = 3"
| "position_weight (Finishing g) = 2"
| "position_weight Escaped = 1"

definition stream_weight :: "stream \<Rightarrow> nat" where
  "stream_weight s = 10 * (gen s - unat (served s)) + position_weight (position s)
     + 4 * open_calls s + 3 * serve_posts s + 2 * close_calls s + cancel_posts s"

text \<open>The moves of a closed stream that nobody opens again, whatever the callbacks throw.\<close>

definition closed_step :: "stream \<Rightarrow> stream \<Rightarrow> bool" where
  "closed_step s t \<longleftrightarrow> status_of (packed s) = DISCONNECTED \<and> fits s
     \<and> (\<exists>m. m \<noteq> Opens \<and> m \<noteq> Closes \<and> moved m s = Some t)"

lemma closed_not_current: "status_of w = DISCONNECTED \<Longrightarrow> \<not> is_current g w"
  by (simp add: is_current_def)

lemma serve_move_weight:
  assumes "serve_move (position s) h s = Some t" "core_inv s" "status_of (packed s) = DISCONNECTED"
  shows "stream_weight t < stream_weight s"
  using assms(1)
proof (cases rule: serve_moveE)
  case (session g)
  then have "unat g \<le> gen s" "unat (served s) < unat g" "unat (served s + 1) = Suc (unat (served s))"
    using core_catch_up [OF assms(2)] assms(2) by (auto simp: core_inv_def)
  with session show ?thesis by (simp add: stream_weight_def gen_def)
next
  case (skips g)
  then have "unat g \<le> gen s" "unat (served s) < unat g" "unat (served s + 1) = Suc (unat (served s))"
    using core_catch_up [OF assms(2)] assms(2) by (auto simp: core_inv_def)
  with skips show ?thesis by (simp add: stream_weight_def gen_def)
next
  case (reports g e)
  then show ?thesis using closed_not_current assms(3) by blast
next
  case (ends g w)
  then show ?thesis using assms(3) by (simp add: end_update_def)
qed (simp_all add: stream_weight_def gen_def)

lemma response_move_weight:
  assumes "response_move (position s) h s = Some t" "status_of (packed s) = DISCONNECTED"
  shows "stream_weight t < stream_weight s"
proof -
  have no: "\<not> is_current g (packed s)" for g using closed_not_current assms(2) by blast
  show ?thesis
    using assms(1)
  proof (cases rule: response_moveE)
    case (connects g)
    with assms(2) show ?thesis by simp
  qed (use no in \<open>simp_all add: stream_weight_def gen_def\<close>)
qed

lemma closed_weight:
  assumes "closed_step s t" "core_inv s"
  shows "stream_weight t < stream_weight s"
proof -
  obtain m where m: "moved m s = Some t" "m \<noteq> Opens" "m \<noteq> Closes" and d: "status_of (packed s) = DISCONNECTED"
    using assms(1) unfolding closed_step_def by blast
  from m(1) show ?thesis
  proof (cases rule: movedE)
    case (serve h)
    then show ?thesis using serve_move_weight assms(2) d by blast
  next
    case (response h)
    then show ?thesis using response_move_weight d by blast
  next
    case (serve_starts n)
    with assms(2) have "position s = Not_serving" by (simp add: core_inv_def)
    with serve_starts show ?thesis by (simp add: stream_weight_def gen_def)
  qed (use m in \<open>simp_all add: stream_weight_def gen_def\<close>)
qed

interpretation stream_rest: comes_to_rest "stream_init ssl" stream_step "\<lambda>s. fits s \<longrightarrow> stream_inv s" closed_step stream_weight
  for ssl
proof unfold_locales
  fix s t assume "fits s \<longrightarrow> stream_inv s" "closed_step s t"
  then show "stream_weight t < stream_weight s"
    using closed_weight by (simp add: closed_step_def stream_inv_def)
qed (auto simp: closed_step_def intro: stream_step.move)

section \<open>A closed stream at rest\<close>

text \<open>The coroutines can always go on; a waiting operation by completing, a callback by returning.\<close>

fun goes_on :: "position \<Rightarrow> happening" where
  "goes_on (Wait _ _) = Done"
| "goes_on (Closing_socket _) = Done"
| "goes_on (Got_header _) = Header None"
| "goes_on (In_callback _ k) = (if k = After_connected then Content False True else Done)"
| "goes_on (Reading _) = Bytes [] Goes_on True"
| "goes_on _ = Runs"

lemma position_can_move:
  assumes "position s \<noteq> Not_serving"
  shows "\<exists>t. serve_move (position s) (goes_on (position s)) s = Some t \<or> response_move (position s) (goes_on (position s)) s = Some t"
proof (cases "position s")
  case (In_callback g k)
  then show ?thesis by (cases k) simp_all
qed (use assms in simp_all)

definition stream_still :: "stream \<Rightarrow> bool" where
  "stream_still s \<longleftrightarrow> position s = Not_serving \<and> open_calls s = 0 \<and> serve_posts s = 0 \<and> close_calls s = 0 \<and> cancel_posts s = 0"

lemma closed_can_move:
  assumes "status_of (packed s) = DISCONNECTED" "fits s" "\<not> stream_still s"
  shows "\<exists>t. closed_step s t"
proof -
  have free: "\<exists>t. closed_step s t" if "m \<noteq> Opens" "m \<noteq> Closes" "moved m s \<noteq> None" for m
    using that assms(1,2) unfolding closed_step_def by blast
  show ?thesis
  proof (cases "position s = Not_serving")
    case False
    then have "moved (Serves (goes_on (position s))) s \<noteq> None \<or> moved (Responds (goes_on (position s))) s \<noteq> None"
      using position_can_move by fastforce
    then show ?thesis using free by blast
  next
    case idle: True
    show ?thesis
    proof (cases "open_calls s")
      case (Suc n)
      show ?thesis by (rule free [of Posts_serve]) (auto simp: Suc)
    next
      case 0
      show ?thesis
      proof (cases "close_calls s")
        case (Suc n)
        show ?thesis by (rule free [of Posts_cancel]) (auto simp: Suc)
      next
        case close: 0
        show ?thesis
        proof (cases "serve_posts s")
          case (Suc n)
          show ?thesis
          proof (cases "serving s \<or> generation_of (packed s) = served s")
            case True
            show ?thesis by (rule free [of Runs_serve]) (use True in \<open>auto simp: Suc idle split: if_splits\<close>)
          next
            case False
            show ?thesis by (rule free [of Runs_serve]) (use False in \<open>auto simp: Suc idle split: if_splits\<close>)
          qed
        next
          case serve: 0
          with 0 close idle assms(3) obtain n where n: "cancel_posts s = Suc n"
            by (cases "cancel_posts s") (auto simp: stream_still_def)
          show ?thesis
            by (cases "session_io s"; rule free [of Runs_cancel]) (auto simp: n idle)
        qed
      qed
    qed
  qed
qed

lemma still_served:
  assumes "stream_inv s" "stream_still s"
  shows "(\<not> escaped s \<longrightarrow> disconnected (trace s) = opened (trace s)) \<and> session_io s = None"
proof -
  have "position s = Not_serving" using assms(2) by (simp add: stream_still_def)
  moreover have "\<not> escaped s \<Longrightarrow> served s = generation_of (packed s)"
    using assms by (auto simp: stream_inv_def serve_inv_def stream_still_def)
  ultimately show ?thesis
    using assms(1) by (simp add: stream_inv_def disconnected_inv_def core_inv_def cancel_inv_def gen_def)
qed

lemma closed_step_keeps:
  assumes "closed_step s t"
  shows "packed t = packed s \<and> opened (trace t) = opened (trace s) \<and> fits t"
proof -
  obtain m where m: "moved m s = Some t" "m \<noteq> Opens" "m \<noteq> Closes"
    and d: "status_of (packed s) = DISCONNECTED" "fits s"
    using assms unfolding closed_step_def by blast
  have "packed t = packed s \<and> opened (trace t) = opened (trace s)"
    using m(1)
  proof (cases rule: movedE)
    case (serve h)
    from this(2) show ?thesis
    proof (cases rule: serve_moveE)
      case (ends g w)
      with d(1) show ?thesis by (simp add: end_update_def)
    qed simp_all
  next
    case (response h)
    from this(2) show ?thesis
    proof (cases rule: response_moveE)
      case (connects g)
      with d(1) show ?thesis by simp
    qed simp_all
  qed (use m in simp_all)
  with d show ?thesis by (simp add: fits_def)
qed

lemma closed_steps_keep:
  "closed_step\<^sup>*\<^sup>* s t \<Longrightarrow> fits s \<Longrightarrow> packed t = packed s \<and> opened (trace t) = opened (trace s) \<and> fits t"
  by (induction rule: rtranclp_induct) (use closed_step_keeps in auto)

end
