(* ===== verification/Http_Stream_Props.thy ===== *)
theory Http_Stream_Props
  imports Http_Stream_Ends
begin

text \<open>
  The properties of an \<open>HttpStream\<close> that \<open>include/slick/net/http_stream.hpp\<close> promises its users, each with an
  execution it applies to; and two executions the header does not expect.  The bound of fewer than 2^62
  successful \<open>open()\<close> calls is the width of the packed generation.
\<close>

section \<open>Executions\<close>

lemmas packed_eval = open_update_def end_update_def is_current_def initial_state_def status_of_def generation_of_def
  make_state_def any_generation_def drop_bit_eq_div push_bit_eq_mult

lemmas run_eval = stream_init_def packed_eval session_defs Let_def opened_def ended_def calls_def disconnected_def data_of_def

text \<open>An \<open>open()\<close> whose session has registered its I/O; the same up to the response header; and to \<open>onConnected\<close>.\<close>

definition to_session :: "move list" where
  "to_session = [Opens, Posts_serve, Runs_serve, Serves Runs, Serves Runs, Serves Runs, Serves Runs]"

definition to_header :: "move list" where
  "to_header = to_session @ [Responds Runs, Responds Done, Responds Runs, Responds Done, Responds Runs, Responds Done,
     Responds Runs, Responds Done, Responds Runs]"

definition to_connected :: "move list" where
  "to_connected = to_header @ [Responds (Header None), Responds Runs]"

text \<open>An event stream that has read one event; the end of a session after a \<open>close()\<close> during \<open>onConnected\<close>.\<close>

definition to_event :: "move list" where
  "to_event = to_connected @ [Responds (Content True False), Responds Runs,
     Responds (Bytes (''data:a'' @ [LF, LF]) Goes_on False), Responds Runs]"

definition to_end :: "move list" where
  "to_end = to_connected @ [Closes, Posts_cancel, Responds (Content True False), Responds Runs, Runs_cancel, Serves Done,
     Serves Runs, Serves Runs]"

lemmas run_defs = to_session_def to_header_def to_connected_def to_event_def to_end_def

lemma one_event: "feed collect (''data:a'' @ [LF, LF]) (sse_reset p) [] = (True, sse_init, [''a''])"
  unfolding sse_reset_init by code_simp

section \<open>Safety\<close>

text \<open>
  C3. Whatever the callbacks throw, \<open>onDisconnected\<close> is called at most once for an \<open>open()\<close>, in the order of the calls and
  never for one still to come.  As long as no exception that is not a \<open>std::exception\<close> has left a callback, no \<open>open()\<close> is
  left out either: the generations disconnected so far are 1, 2, ..., and all that were opened once nothing is left to run.
\<close>
theorem one_disconnected_each:
  assumes "reachable (stream_init ssl) stream_step s" "length (opened (trace s)) < 2 ^ 62"
  shows "opened (trace s) = [1..<Suc (length (opened (trace s)))]
     \<and> sorted_wrt (<) (disconnected (trace s)) \<and> (\<forall>n \<in> set (disconnected (trace s)). n \<le> length (opened (trace s)))
     \<and> (\<not> escaped s \<longrightarrow> disconnected (trace s) = [1..<Suc (length (disconnected (trace s)))]
          \<and> length (disconnected (trace s)) \<le> length (opened (trace s))
          \<and> (stream_still s \<longrightarrow> disconnected (trace s) = opened (trace s)))"
proof -
  have inv: "stream_inv s" by (rule reachable_stream_inv [OF assms])
  then have o: "opened (trace s) = first_gens (gen s)" and served: "unat (served s) \<le> gen s"
    by (simp_all add: stream_inv_def core_inv_def)
  have full: "disconnected (trace s) = [1..<Suc (length (disconnected (trace s)))] \<and> length (disconnected (trace s)) \<le> length (opened (trace s))
      \<and> (stream_still s \<longrightarrow> disconnected (trace s) = opened (trace s))" if e: "\<not> escaped s"
  proof -
    obtain d where "disconnected (trace s) = first_gens d" "d \<le> unat (served s)"
      using inv e by (auto simp: stream_inv_def disconnected_inv_def)
    then show ?thesis using still_served [OF inv] e o served by (simp add: first_gens_def)
  qed
  have "calls_inv s" using inv by (simp add: stream_inv_def)
  then have "sorted_wrt (<) (disconnected (trace s)) \<and> (\<forall>n \<in> set (disconnected (trace s)). n \<le> length (opened (trace s)))"
    using disconnected_ascending o served by (fastforce simp: first_gens_def)
  then show ?thesis using full o by (simp add: first_gens_def)
qed

theorem one_disconnected_each_witness:
  "\<exists>s. schedule to_end (stream_init False) = Some s \<and> opened (trace s) = [1] \<and> disconnected (trace s) = [1..<Suc (length (disconnected (trace s)))]"
proof -
  obtain s where s: "schedule to_end (stream_init False) = Some s" "opened (trace s) = [1]" "\<not> escaped s"
    by (simp add: run_defs run_eval)
  with one_disconnected_each [OF schedule_reaches [OF s(1)]] show ?thesis by simp
qed

text \<open>
  The callbacks of two sessions never interleave: every callback of a generation comes before those of
  later generations, and \<open>onDisconnected\<close> is the last callback of its generation.
\<close>
lemma callbacks_never_interleave:
  assumes "reachable (stream_init ssl) stream_step s" "length (opened (trace s)) < 2 ^ 62"
    and "i < j" "j < length (calls (trace s))"
  shows "fst (calls (trace s) ! i) < fst (calls (trace s) ! j)
     \<or> fst (calls (trace s) ! i) = fst (calls (trace s) ! j) \<and> snd (calls (trace s) ! i) \<noteq> On_disconnected"
proof -
  have "sorted_wrt call_before (calls (trace s))"
    using reachable_stream_inv [OF assms(1,2)] by (simp add: stream_inv_def calls_inv_def)
  then have "call_before (calls (trace s) ! i) (calls (trace s) ! j)"
    by (rule sorted_wrt_nth_less [OF _ assms(3,4)])
  then show ?thesis by (simp add: call_before_def)
qed

lemma callbacks_never_interleave_witness:
  "\<exists>s. schedule to_end (stream_init False) = Some s \<and> calls (trace s) = [(1, On_connected), (1, On_disconnected)]
     \<and> (fst (calls (trace s) ! 0) < fst (calls (trace s) ! 1)
        \<or> fst (calls (trace s) ! 0) = fst (calls (trace s) ! 1) \<and> snd (calls (trace s) ! 0) \<noteq> On_disconnected)"
proof -
  obtain s where s: "schedule to_end (stream_init False) = Some s" "length (opened (trace s)) < 2 ^ 62"
      "calls (trace s) = [(1, On_connected), (1, On_disconnected)]"
    by (simp add: run_defs run_eval)
  from callbacks_never_interleave [OF schedule_reaches [OF s(1)] s(2), of 0 1] s show ?thesis by auto
qed

text \<open>
  Each generation is ended exactly once, by a \<open>close()\<close> or by its own session, and in order: the generations
  ended are all the opened ones but the newest, which is among them exactly when the stream is DISCONNECTED.
\<close>
lemma ended_once:
  assumes "reachable (stream_init ssl) stream_step s" "length (opened (trace s)) < 2 ^ 62"
  shows "ended (trace s) = (if status_of (packed s) = DISCONNECTED then opened (trace s) else butlast (opened (trace s)))
     \<and> status_of (packed s) \<noteq> No_status"
proof -
  have inv: "stream_inv s" by (rule reachable_stream_inv [OF assms])
  show ?thesis
  proof (cases "status_of (packed s) = DISCONNECTED")
    case True
    with inv show ?thesis by (simp add: stream_inv_def core_inv_def ended_inv_def)
  next
    case False
    with inv have "gen s = Suc (gen s - 1)" by (simp add: stream_inv_def ended_inv_def)
    then have "first_gens (gen s) = first_gens (gen s - 1) @ [gen s]" using first_gens_Suc by metis
    with False inv show ?thesis by (simp add: stream_inv_def core_inv_def ended_inv_def)
  qed
qed

lemma ended_once_witness:
  "\<exists>s. schedule (to_end @ [Opens]) (stream_init False) = Some s \<and> opened (trace s) = [1, 2] \<and> ended (trace s) = [1]"
proof -
  obtain s where s: "schedule (to_end @ [Opens]) (stream_init False) = Some s" "opened (trace s) = [1, 2]"
      "status_of (packed s) \<noteq> DISCONNECTED"
    by (simp add: run_defs run_eval)
  with ended_once [OF schedule_reaches [OF s(1)]] show ?thesis by simp
qed

text \<open>
  After a generation has ended at most one more callback other than \<open>onDisconnected\<close> is made for it: one
  whose check had passed before.
\<close>
lemma one_late_callback:
  assumes "reachable (stream_init ssl) stream_step s" "length (opened (trace s)) < 2 ^ 62"
  shows "late n (trace s) \<le> 1"
  using reachable_stream_inv [OF assms] by (simp add: stream_inv_def late_inv_def)

lemma one_late_callback_witness:
  "\<exists>s. schedule (to_event @ [Responds Runs, Closes, Responds Runs]) (stream_init False) = Some s \<and> late 1 (trace s) = 1
     \<and> late 1 (trace s) \<le> 1"
proof -
  obtain s where s: "schedule (to_event @ [Responds Runs, Closes, Responds Runs]) (stream_init False) = Some s"
      "length (opened (trace s)) < 2 ^ 62" "late 1 (trace s) = 1"
    by (simp add: run_defs run_eval one_event [simplified])
  with one_late_callback [OF schedule_reaches [OF s(1)] s(2), of 1] show ?thesis by blast
qed

text \<open>
  C29. A \<open>close()\<close> from a callback of the stream (or whenever no check of the session is outstanding) is final at
  once: whatever happens afterwards, no further \<open>onConnected\<close>, \<open>onData\<close> or \<open>onError\<close> of that generation starts.
\<close>
theorem close_in_callback_is_final:
  assumes "reachable (stream_init ssl) stream_step s" "status_of (packed s) \<noteq> DISCONNECTED"
    and "\<And>g. position s \<noteq> Got_header g" "\<And>g c k. position s \<noteq> About_to g c k"
    and "moved Closes s = Some t" "stream_step\<^sup>*\<^sup>* t u" "length (opened (trace u)) < 2 ^ 62"
  shows "gen s \<in> set (ended (trace u)) \<and> late (gen s) (trace u) = 0"
proof -
  have t: "reachable (stream_init ssl) stream_step t"
    by (rule reachable.next_step [OF assms(1) stream_step.move [OF assms(5)]])
  have "length (opened (trace t)) \<le> length (opened (trace u))"
    using assms(6) by (induction rule: rtranclp_induct) (use opened_grows le_trans in \<open>blast elim: stream_stepE\<close>)+
  then have "fits t" using assms(7) by (simp add: fits_def)
  then have "fits s" by (rule fits_before [OF assms(5)])
  then have inv: "stream_inv s" using reachable_stream_inv [OF assms(1)] by (simp add: fits_def)
  obtain w where w: "end_update any_generation (packed s) = Some w" "generation_of w = generation_of (packed s)"
    using assms(2) by (simp add: end_update_Some)
  have "s\<lparr>packed := w, close_calls := Suc (close_calls s), trace := trace s @ [Ended (gen s)]\<rparr> = t"
    using assms(5) w by (simp add: gen_def)
  then have end': "trace t = trace s @ [Ended (gen s)]" "position t = position s" by auto
  have "gen s \<notin> set (ended (trace s))"
    using inv assms(2) by (auto simp: stream_inv_def ended_inv_def)
  then have "quiet (gen s) t"
    using end' assms(3,4) late_not_ended by (simp add: quiet_def)
  then have "quiet (gen s) u" using quiet_steps [OF assms(6) _ t] assms(7) by (simp add: fits_def)
  then show ?thesis by (simp add: quiet_def)
qed

theorem close_in_callback_is_final_witness:
  "\<exists>s t u. schedule to_connected (stream_init False) = Some s \<and> position s = In_callback 1 After_connected
     \<and> moved Closes s = Some t \<and> schedule [Responds (Content True False), Responds Runs] t = Some u
     \<and> gen s \<in> set (ended (trace u)) \<and> late (gen s) (trace u) = 0"
proof -
  obtain s t u where s: "schedule to_connected (stream_init False) = Some s" "position s = In_callback 1 After_connected"
      "status_of (packed s) \<noteq> DISCONNECTED" "moved Closes s = Some t"
      "schedule [Responds (Content True False), Responds Runs] t = Some u" "length (opened (trace u)) < 2 ^ 62"
    by (simp add: run_defs run_eval)
  from close_in_callback_is_final [OF schedule_reaches [OF s(1)] s(3) _ _ s(4) schedule_steps [OF s(5)] s(6)] s
  show ?thesis by auto
qed



text \<open>
  C12. The data of a session is delivered in order and nothing is made up: its \<open>onData\<close> calls are an initial part
  of what the bytes it read mean - the events of the stream for \<open>text/event-stream\<close>, the bytes themselves
  otherwise - and all of it at the head of the read loop while the session is current.
\<close>
theorem data_in_order:
  assumes "reachable (stream_init ssl) stream_step s" "length (opened (trace s)) < 2 ^ 62"
  shows "\<exists>all. prefix (data_of (unat (served s)) (trace s)) all
     \<and> (if is_sse s then all = sse_events (received s) else concat all = received s)
     \<and> (position s = Body (served s) \<and> is_current (served s) (packed s) \<longrightarrow> data_of (unat (served s)) (trace s) = all)"
proof -
  have inv: "data_inv s" using reachable_stream_inv [OF assms] by (simp add: stream_inv_def)
  show ?thesis
    by (rule exI [of _ "decoded s"]) (use inv data_current [OF inv] in \<open>auto simp: data_inv_def Let_def\<close>)
qed

theorem data_in_order_witness:
  "\<exists>s. schedule (to_event @ [Responds Runs, Responds Runs, Responds Done, Responds Runs]) (stream_init False) = Some s
     \<and> received s = ''data:a'' @ [LF, LF] \<and> data_of (unat (served s)) (trace s) = sse_events (received s)"
proof -
  obtain s where s: "schedule (to_event @ [Responds Runs, Responds Runs, Responds Done, Responds Runs]) (stream_init False) = Some s"
      "length (opened (trace s)) < 2 ^ 62" "position s = Body (served s)" "is_current (served s) (packed s)" "is_sse s"
      "received s = ''data:a'' @ [LF, LF]"
    by (simp add: run_defs run_eval one_event [simplified])
  with data_in_order [OF schedule_reaches [OF s(1)] s(2)] show ?thesis by auto
qed

section \<open>Liveness\<close>

text \<open>
  C21. A closed stream comes to rest: from any state in which the stream is DISCONNECTED (after a \<open>close()\<close>, say), while
  nobody opens it again, every run is finite, whatever the network does and the callbacks throw, can be completed, and ends
  with no coroutine, no posted handler and no I/O left.  Then every \<open>open()\<close> has had its \<open>onDisconnected\<close>, unless an
  exception that is not a \<open>std::exception\<close> has left a callback of the stream.
\<close>
theorem closed_stream_ends:
  assumes "reachable (stream_init ssl) stream_step s" "length (opened (trace s)) < 2 ^ 62" "status_of (packed s) = DISCONNECTED"
  shows "(\<forall>n t. (closed_step ^^ n) s t \<longrightarrow> n \<le> stream_weight s)
     \<and> (\<exists>t. closed_step\<^sup>*\<^sup>* s t \<and> (\<nexists>u. closed_step t u))
     \<and> (\<forall>t. closed_step\<^sup>*\<^sup>* s t \<and> (\<nexists>u. closed_step t u) \<longrightarrow>
          stream_still t \<and> session_io t = None \<and> opened (trace t) = opened (trace s)
          \<and> (\<not> escaped t \<longrightarrow> disconnected (trace t) = opened (trace t)))"
proof -
  have fit: "fits s" using assms(2) by (simp add: fits_def)
  have inv: "fits s \<longrightarrow> stream_inv s" using reachable_stream_inv [OF assms(1,2)] by blast
  have rest: "stream_still t \<and> session_io t = None \<and> opened (trace t) = opened (trace s)
      \<and> (\<not> escaped t \<longrightarrow> disconnected (trace t) = opened (trace t))"
    if t: "closed_step\<^sup>*\<^sup>* s t" "\<nexists>u. closed_step t u" for t
  proof -
    have k: "packed t = packed s" "opened (trace t) = opened (trace s)" "fits t"
      using closed_steps_keep [OF t(1) fit] by simp_all
    then have still: "stream_still t" using closed_can_move [of t] t(2) assms(3) by auto
    have "stream_inv t" using stream_rest.internal_inv [OF t(1) inv] k(3) by blast
    with still k show ?thesis using still_served by blast
  qed
  show ?thesis
    using stream_rest.run_bounded [OF _ inv] stream_rest.rests [OF inv] rest by blast
qed

theorem closed_stream_ends_witness:
  "\<exists>s t. schedule (to_header @ [Closes]) (stream_init False) = Some s \<and> opened (trace s) = [1] \<and> disconnected (trace s) = []
     \<and> closed_step\<^sup>*\<^sup>* s t \<and> stream_still t \<and> session_io t = None \<and> opened (trace t) = [1]"
proof -
  obtain s where s: "schedule (to_header @ [Closes]) (stream_init False) = Some s" "length (opened (trace s)) < 2 ^ 62"
      "status_of (packed s) = DISCONNECTED" "opened (trace s) = [1]" "disconnected (trace s) = []"
    by (simp add: run_defs run_eval)
  from closed_stream_ends [OF schedule_reaches [OF s(1)] s(2,3)]
  obtain t where "closed_step\<^sup>*\<^sup>* s t" "stream_still t" "session_io t = None" "opened (trace t) = opened (trace s)" by blast
  with s show ?thesis by auto
qed

section \<open>What the header does not expect\<close>

text \<open>
  \<open>close()\<close> from another thread can return before a callback of the ended session starts: the header says the
  session runs no more \<open>onData\<close> after \<open>close()\<close> (one already running finishes), but the check and the callback
  are two steps.  Here the generation has ended, and the \<open>onData\<close> after it had not started.
\<close>
lemma callback_after_close:
  "\<exists>s t. reachable (stream_init False) stream_step s \<and> stream_step\<^sup>*\<^sup>* s t
     \<and> trace s = [Opened 1, Called 1 On_connected, Ended 1] \<and> status_of (packed s) = DISCONNECTED
     \<and> close_calls s = 0 \<and> trace t = trace s @ [Called 1 (On_data ''a'')]"
proof -
  obtain s t where s: "schedule (to_event @ [Responds Runs, Closes, Posts_cancel]) (stream_init False) = Some s"
    "schedule [Responds Runs] s = Some t"
    "trace s = [Opened 1, Called 1 On_connected, Ended 1]" "status_of (packed s) = DISCONNECTED" "close_calls s = 0"
    "trace t = trace s @ [Called 1 (On_data ''a'')]"
    by (simp add: run_defs run_eval one_event [simplified])
  then show ?thesis using schedule_reaches [OF s(1)] schedule_steps [OF s(2)] by blast
qed

text \<open>
  A callback that throws something other than a \<open>std::exception\<close> breaks the promise of one \<open>onDisconnected\<close>
  per \<open>open()\<close>: \<open>run_session\<close> catches only \<open>std::exception\<close>, so the session dies without ending its generation.
  The stream is at rest, still reads CONNECTED, and even after \<open>close()\<close> and a second session that ends
  normally, the first \<open>open()\<close> never got its \<open>onDisconnected\<close>.
\<close>
lemma foreign_exception_loses_disconnect:
  "\<exists>s t. reachable (stream_init False) stream_step s \<and> stream_still s \<and> status_of (packed s) = CONNECTED
     \<and> trace s = [Opened 1, Called 1 On_connected]
     \<and> stream_step\<^sup>*\<^sup>* s t \<and> stream_still t \<and> opened (trace t) = [1, 2] \<and> ended (trace t) = [1, 2] \<and> disconnected (trace t) = [2]"
proof -
  obtain s t where s: "schedule (to_connected @ [Responds Throws, Serves Runs]) (stream_init False) = Some s"
    "schedule ([Closes, Posts_cancel, Runs_cancel] @ to_session @
        [Responds Runs, Responds (Fails []), Serves Runs, Responds Runs, Responds Done, Serves Runs, Serves Runs, Serves Runs]) s = Some t"
    "stream_still s" "status_of (packed s) = CONNECTED" "trace s = [Opened 1, Called 1 On_connected]"
    "stream_still t" "opened (trace t) = [1, 2]" "ended (trace t) = [1, 2]" "disconnected (trace t) = [2]"
    by (simp add: run_defs run_eval stream_still_def)
  then show ?thesis using schedule_reaches [OF s(1)] schedule_steps [OF s(2)] by blast
qed

end
