(* ===== verification/Http_Stream_Spec.thy ===== *)
theory Http_Stream_Spec
  imports Http_Stream_Props
begin

text \<open>
  What a user of an \<open>HttpStream\<close> may rely on, as an abstract machine over what can be observed: the successful \<open>open()\<close>
  calls, the ends of generations and the callbacks.  The step function of \<open>Http_Stream\<close> refines it.
\<close>

section \<open>The abstract machine\<close>

datatype listener_phase = Offline | Online | Reported

record listener =
  opens :: nat                 \<comment> \<open>generations opened\<close>
  is_open :: bool              \<comment> \<open>the last of them is open\<close>
  gone :: nat                  \<comment> \<open>generations disconnected\<close>
  listener_phase :: listener_phase   \<comment> \<open>of the generation after these\<close>
  late_used :: bool            \<comment> \<open>it had its one callback after its end\<close>

definition listener_init :: listener where
  "listener_init = \<lparr>opens = 0, is_open = False, gone = 0, listener_phase = Offline, late_used = False\<rparr>"

text \<open>A generation has ended when a later one was opened or when it is the last and not open.\<close>

definition has_ended :: "nat \<Rightarrow> listener \<Rightarrow> bool" where
  "has_ended n l \<longleftrightarrow> n < opens l \<or> n = opens l \<and> \<not> is_open l"

text \<open>A callback other than \<open>onDisconnected\<close>: of the next generation to disconnect, and once only after it has ended.\<close>

definition may_call :: "nat \<Rightarrow> listener \<Rightarrow> bool" where
  "may_call n l \<longleftrightarrow> n = Suc (gone l) \<and> n \<le> opens l \<and> (has_ended n l \<longrightarrow> \<not> late_used l)"

fun listener_step :: "stream_event \<Rightarrow> listener \<Rightarrow> listener option" where
  "listener_step (Opened n) l = (if \<not> is_open l \<and> n = Suc (opens l) then Some (l\<lparr>opens := n, is_open := True\<rparr>) else None)"
| "listener_step (Ended n) l = (if is_open l \<and> n = opens l then Some (l\<lparr>is_open := False\<rparr>) else None)"
| "listener_step (Called n On_disconnected) l =
     (if n = Suc (gone l) \<and> has_ended n l then Some (l\<lparr>gone := n, listener_phase := Offline, late_used := False\<rparr>) else None)"
| "listener_step (Called n On_connected) l =
     (if may_call n l \<and> listener_phase l = Offline then Some (l\<lparr>listener_phase := Online, late_used := has_ended n l\<rparr>) else None)"
| "listener_step (Called n (On_data d)) l =
     (if may_call n l \<and> listener_phase l = Online then Some (l\<lparr>late_used := has_ended n l\<rparr>) else None)"
| "listener_step (Called n (On_error e)) l =
     (if may_call n l then Some (l\<lparr>listener_phase := Reported, late_used := has_ended n l\<rparr>) else None)"

section \<open>The simulation\<close>

text \<open>What has been called in the session by the time it is at a position.\<close>

fun phase_fits :: "position \<Rightarrow> listener_phase \<Rightarrow> bool" where
  "phase_fits (Setup g) p \<longleftrightarrow> p = Offline"
| "phase_fits (Check g io) p \<longleftrightarrow> p = Offline"
| "phase_fits (Wait g io) p \<longleftrightarrow> p = Offline"
| "phase_fits (Got_header g) p \<longleftrightarrow> p = Offline"
| "phase_fits (About_to g c k) p \<longleftrightarrow> (c = On_connected \<longrightarrow> p = Offline) \<and> (c \<noteq> On_connected \<and> k \<noteq> After_caught \<longrightarrow> p = Online)"
| "phase_fits (In_callback g k) p \<longleftrightarrow> (k = After_connected \<or> (\<exists>ds e. k = After_data ds e) \<longrightarrow> p = Online)"
| "phase_fits (Body g) p \<longleftrightarrow> p = Online"
| "phase_fits (Reading g) p \<longleftrightarrow> p = Online"
| "phase_fits (Read g bs e) p \<longleftrightarrow> p = Online"
| "phase_fits (Deliver g ds e) p \<longleftrightarrow> p = Online"
| "phase_fits pos p \<longleftrightarrow> (session_of pos = None \<longrightarrow> p = Offline)"

fun about_to_call :: "position \<Rightarrow> bool" where
  "about_to_call (Got_header g) = True"
| "about_to_call (About_to g c k) = True"
| "about_to_call p = False"

definition simulates :: "stream \<Rightarrow> listener \<Rightarrow> bool" where
  "simulates s l \<longleftrightarrow> opens l = gen s \<and> is_open l = (status_of (packed s) \<noteq> DISCONNECTED)
     \<and> gone l = (if session_of (position s) = None then unat (served s) else unat (served s) - 1)
     \<and> phase_fits (position s) (listener_phase l)
     \<and> (late_used l \<longrightarrow> session_of (position s) \<noteq> None \<and> \<not> is_current (served s) (packed s) \<and> \<not> about_to_call (position s))"

lemma simulatesD:
  assumes "simulates s l"
  shows "opens l = gen s" "is_open l = (status_of (packed s) \<noteq> DISCONNECTED)"
    "gone l = (if session_of (position s) = None then unat (served s) else unat (served s) - 1)"
    "phase_fits (position s) (listener_phase l)"
    "late_used l \<Longrightarrow> session_of (position s) \<noteq> None \<and> \<not> is_current (served s) (packed s) \<and> \<not> about_to_call (position s)"
  using assms by (simp_all add: simulates_def)

lemma current_iff: "is_current g (packed s) \<longleftrightarrow> unat g = gen s \<and> status_of (packed s) \<noteq> DISCONNECTED"
  by (auto simp: is_current_def gen_def word_unat_eq_iff)

text \<open>A step that is not observed.\<close>

lemma simulates_frame:
  assumes "simulates s l" "generation_of (packed t) = generation_of (packed s)" "served t = served s"
    and "status_of (packed t) = DISCONNECTED \<longleftrightarrow> status_of (packed s) = DISCONNECTED"
    and "session_of (position t) = None \<longleftrightarrow> session_of (position s) = None"
    and "phase_fits (position s) (listener_phase l) \<Longrightarrow> phase_fits (position t) (listener_phase l)"
    and "about_to_call (position t) \<longrightarrow> about_to_call (position s) \<or> is_current (served s) (packed s)"
  shows "simulates t l"
proof -
  have g: "gen t = gen s" using assms(2) by (simp add: gen_def)
  have c: "is_current (served t) (packed t) = is_current (served s) (packed s)" using assms(3,4) g by (auto simp: current_iff)
  show ?thesis unfolding simulates_def
    using simulatesD [OF assms(1)] g c assms(3-7) by auto
qed

text \<open>A callback of the session.\<close>

definition after_call :: "nat \<Rightarrow> callback \<Rightarrow> listener \<Rightarrow> listener" where
  "after_call n c l = l\<lparr>listener_phase := (case c of On_connected \<Rightarrow> Online | On_data d \<Rightarrow> listener_phase l | _ \<Rightarrow> Reported),
     late_used := has_ended n l\<rparr>"

lemma listener_step_call:
  assumes "may_call n l" "c = On_connected \<longrightarrow> listener_phase l = Offline" "\<forall>d. c = On_data d \<longrightarrow> listener_phase l = Online" "c \<noteq> On_disconnected"
  shows "listener_step (Called n c) l = Some (after_call n c l)"
  using assms by (cases c) (simp_all add: after_call_def)

lemma simulates_call:
  assumes sim: "simulates s l" and core: "core_inv s" and session: "session_of (position s) = Some g" "about_to_call (position s)"
    and t: "packed t = packed s" "served t = served s" "position t = In_callback g k"
    and c: "c = On_connected \<longrightarrow> listener_phase l = Offline" "\<forall>d. c = On_data d \<longrightarrow> listener_phase l = Online" "c \<noteq> On_disconnected"
    and k: "k = After_connected \<longrightarrow> c = On_connected" "\<forall>ds e. k = After_data ds e \<longrightarrow> (\<exists>d. c = On_data d)"
  shows "\<exists>l'. listener_step (Called (unat g) c) l = Some l' \<and> simulates t l'"
proof -
  have g: "g = served s" "0 < unat (served s)" using core_session [OF core session(1)] by simp_all
  have "unat (served s) \<le> gen s" using core by (simp add: core_inv_def)
  then have may: "may_call (unat g) l" using simulatesD [OF sim] g session by (auto simp: may_call_def)
  have gen: "gen t = gen s" using t(1) by (simp add: gen_def)
  have ended: "has_ended (unat g) l \<longleftrightarrow> \<not> is_current (served s) (packed s)"
    using simulatesD(1,2) [OF sim] \<open>unat (served s) \<le> gen s\<close> g(1) by (auto simp: has_ended_def current_iff)
  let ?l' = "after_call (unat g) c l"
  have "phase_fits (In_callback g k) (listener_phase ?l')" using k c by (auto simp: after_call_def split: callback.split)
  then have "simulates t ?l'" using simulatesD(1-3) [OF sim] t session gen ended
    by (simp add: simulates_def after_call_def)
  then show ?thesis using listener_step_call [OF may c] by blast
qed

text \<open>Each move is not observed, or is one step of the abstract machine.\<close>

definition matched :: "stream \<Rightarrow> stream \<Rightarrow> listener \<Rightarrow> bool" where
  "matched s t l \<longleftrightarrow> trace t = trace s \<and> simulates t l
     \<or> (\<exists>e l'. trace t = trace s @ [e] \<and> listener_step e l = Some l' \<and> simulates t l')"

lemma matched_silent: "trace t = trace s \<Longrightarrow> simulates t l \<Longrightarrow> matched s t l"
  by (simp add: matched_def)

lemma matched_event: "trace t = trace s @ [e] \<Longrightarrow> listener_step e l = Some l' \<Longrightarrow> simulates t l' \<Longrightarrow> matched s t l"
  by (auto simp: matched_def)

lemma matched_frame:
  assumes "simulates s l" "trace t = trace s" "generation_of (packed t) = generation_of (packed s)" "served t = served s"
    and "status_of (packed t) = DISCONNECTED \<longleftrightarrow> status_of (packed s) = DISCONNECTED"
    and "session_of (position t) = None \<longleftrightarrow> session_of (position s) = None"
    and "phase_fits (position s) (listener_phase l) \<Longrightarrow> phase_fits (position t) (listener_phase l)"
    and "about_to_call (position t) \<longrightarrow> about_to_call (position s) \<or> is_current (served s) (packed s)"
  shows "matched s t l"
  by (rule matched_silent [OF assms(2) simulates_frame [OF assms(1,3-8)]])

lemma matched_call:
  assumes "simulates s l" "core_inv s" "session_of (position s) = Some g" "about_to_call (position s)"
    and "trace t = trace s @ [Called (unat g) c]" "packed t = packed s" "served t = served s" "position t = In_callback g k"
    and "c = On_connected \<longrightarrow> listener_phase l = Offline" "\<forall>d. c = On_data d \<longrightarrow> listener_phase l = Online" "c \<noteq> On_disconnected"
    and "k = After_connected \<longrightarrow> c = On_connected" "\<forall>ds e. k = After_data ds e \<longrightarrow> (\<exists>d. c = On_data d)"
  shows "matched s t l"
proof -
  obtain l' where "listener_step (Called (unat g) c) l = Some l'" "simulates t l'"
    using simulates_call [OF assms(1-4,6-13)] by blast
  then show ?thesis by (rule matched_event [OF assms(5)])
qed

lemma next_io_fits [simp]: "phase_fits (next_io ssl g prev) p \<longleftrightarrow> p = Offline"
  by (cases "(ssl, g, prev)" rule: next_io.cases) simp_all

text \<open>The end of a generation, by \<open>close()\<close> or by its session.\<close>

lemma matched_ends:
  assumes sim: "simulates s l" and "status_of (packed s) \<noteq> DISCONNECTED"
    and t: "trace t = trace s @ [Ended (gen s)]" "packed t = make_state (generation_of (packed s)) DISCONNECTED" "served t = served s"
    and pos: "session_of (position t) = None \<longleftrightarrow> session_of (position s) = None"
      "phase_fits (position s) (listener_phase l) \<Longrightarrow> phase_fits (position t) (listener_phase l)"
      "about_to_call (position t) \<longrightarrow> about_to_call (position s)"
  shows "matched s t l"
proof (rule matched_event [OF t(1)])
  note l = simulatesD [OF sim]
  show "listener_step (Ended (gen s)) l = Some (l\<lparr>is_open := False\<rparr>)" using l(1,2) assms(2) by simp
  have "gen t = gen s" using t(2) by (simp add: gen_def)
  moreover have "\<not> is_current (served t) (packed t)" using t(2) by (simp add: is_current_def)
  ultimately show "simulates t (l\<lparr>is_open := False\<rparr>)"
    using l t(2,3) pos unfolding simulates_def by auto
qed

text \<open>\<open>onDisconnected\<close> of a generation after its session, or of one that is skipped.\<close>

lemma matched_disconnected:
  assumes sim: "simulates s l" and n: "n = Suc (gone l)" "n < gen s \<or> n = gen s \<and> status_of (packed s) = DISCONNECTED"
    and t: "trace t = trace s @ [Called n On_disconnected]" "packed t = packed s" "unat (served t) = n" "session_of (position t) = None"
      "phase_fits (position t) Offline"
  shows "matched s t l"
proof (rule matched_event [OF t(1)])
  note l = simulatesD [OF sim]
  show "listener_step (Called n On_disconnected) l = Some (l\<lparr>gone := n, listener_phase := Offline, late_used := False\<rparr>)"
    using l(1,2) n by (auto simp: has_ended_def)
  show "simulates t (l\<lparr>gone := n, listener_phase := Offline, late_used := False\<rparr>)"
    using l(1,2) t by (simp add: simulates_def gen_def)
qed

lemma serve_move_matched:
  assumes move: "serve_move (position s) h s = Some t" and core: "core_inv s" and sim: "simulates s l" "\<not> escaped s" "serve_inv s"
  shows "matched s t l"
  using move
proof (cases rule: serve_moveE)
  case (session g)
  then have "unat (served t) = Suc (unat (served s))" using core_catch_up [OF core] by simp
  with session show ?thesis using simulatesD [OF sim(1)]
    by (intro matched_silent) (auto simp: simulates_def gen_def)
next
  case (skips g)
  then have "unat (served s + 1) = Suc (unat (served s))" "unat g \<le> gen s" "unat (served s + 1) < unat g"
    using core_catch_up [OF core, of g] core by (auto simp: core_inv_def le_less word_unat_eq_iff)
  with skips show ?thesis using simulatesD(3,4) [OF sim(1)]
    by (intro matched_disconnected [OF sim(1)]) auto
next
  case (ends g w)
  have "g \<noteq> any_generation" using core_session [OF core, of g] ends(1) by (auto simp: any_generation_def)
  with ends have "is_current g (packed s)" "w = make_state (generation_of (packed s)) DISCONNECTED"
    by (simp_all add: end_update_Some)
  with ends show ?thesis by (intro matched_ends [OF sim(1)]) (simp_all add: is_current_def gen_def)
next
  case (finishes g)
  then have g: "g = served s" "\<not> is_current g (packed s)" "unat (served s) \<le> gen s" "0 < unat (served s)"
    using core core_session [OF core, of g] by (auto simp: core_inv_def)
  with finishes show ?thesis using simulatesD(3) [OF sim(1)]
    by (intro matched_disconnected [OF sim(1)]) (auto simp: current_iff)
next
  case (reports g e)
  then have "g = served s" using core_session [OF core, of g] by simp
  with reports show ?thesis by (intro matched_frame [OF sim(1)]) simp_all
next
  case gives_up
  with sim(2,3) show ?thesis by (simp add: serve_inv_def)
qed (rule matched_frame [OF sim(1)]; simp)+

lemma response_move_matched:
  assumes move: "response_move (position s) h s = Some t" and core: "core_inv s" and sim: "simulates s l" "\<not> escaped t"
  shows "matched s t l"
proof -
  have served: "g = served s" if "session_of (position s) = Some g" for g using core_session [OF core that] by simp
  note fits = simulatesD(4) [OF sim(1)]
  show ?thesis
    using move
  proof (cases rule: response_moveE)
    case (check_passed g prev)
    then show ?thesis using served [of g] by (intro matched_frame [OF sim(1)]) auto
  next
    case (rejected g e)
    then show ?thesis using fits by (intro matched_call [OF sim(1) core]) auto
  next
    case (connects g)
    then show ?thesis by (intro matched_frame [OF sim(1)]) (auto simp: generation_of_make_mask)
  next
    case (calls_back g c k)
    then have gw: "goes_with c k" using core by (simp add: core_inv_def)
    have ph: "phase_fits (About_to g c k) (listener_phase l)" using fits calls_back(1) by simp
    show ?thesis
    proof (rule matched_call [OF sim(1) core, where g = g and c = c and k = k])
      show "c = On_connected \<longrightarrow> listener_phase l = Offline" using ph by simp
      show "\<forall>d. c = On_data d \<longrightarrow> listener_phase l = Online" using ph gw by (cases k) auto
      show "c \<noteq> On_disconnected" using gw by auto
      show "k = After_connected \<longrightarrow> c = On_connected" using gw by (cases c) auto
      show "\<forall>ds e. k = After_data ds e \<longrightarrow> (\<exists>d. c = On_data d)" using gw by (cases c) auto
    qed (simp_all add: calls_back)
  next
    case (callback_escaped g k)
    then show ?thesis using sim(2) by simp
  next
    case (read_bytes g bs e)
    then show ?thesis using served [of g] by (intro matched_frame [OF sim(1)]) auto
  next
    case (next_event g d ds e)
    then show ?thesis using served [of g] by (intro matched_frame [OF sim(1)]) auto
  next
    case (read_error g e)
    then show ?thesis using served [of g] by (intro matched_frame [OF sim(1)]) auto
  qed (rule matched_frame [OF sim(1)]; simp)+
qed

lemma matched_opens:
  assumes sim: "simulates s l" and core: "core_inv s" and "fits t" "open_update (packed s) = Some w"
    and t: "packed t = w" "served t = served s" "position t = position s" "serving t = serving s"
      "trace t = trace s @ [Opened (unat (generation_of w))]"
  shows "matched s t l"
proof (rule matched_event [OF t(5)])
  note l = simulatesD [OF sim]
  have gen: "gen t = Suc (gen s)" using opens_core [OF core assms(3,4) t] by simp
  have w: "unat (generation_of w) = gen t" "status_of (packed s) = DISCONNECTED" "status_of w = CONNECTING"
    using assms(4) t(1) by (simp_all add: gen_def open_update_Some)
  show "listener_step (Opened (unat (generation_of w))) l = Some (l\<lparr>opens := unat (generation_of w), is_open := True\<rparr>)"
    using l(1,2) w gen by simp
  have "unat (served s) \<le> gen s" using core by (simp add: core_inv_def)
  then have "\<not> is_current (served t) (packed t)" using gen t(2) by (simp add: current_iff)
  then show "simulates t (l\<lparr>opens := unat (generation_of w), is_open := True\<rparr>)"
    using l w t by (simp add: simulates_def)
qed

lemma moved_matched:
  assumes move: "moved m s = Some t" and inv: "stream_inv s" "fits t" "\<not> escaped t" and sim: "simulates s l" "\<not> escaped s"
  shows "matched s t l"
proof -
  have core: "core_inv s" and serve: "serve_inv s" using inv(1) by (simp_all add: stream_inv_def)
  show ?thesis
    using move
  proof (cases rule: movedE)
    case (serve h)
    then show ?thesis using serve_move_matched core sim \<open>serve_inv s\<close> by blast
  next
    case (response h)
    then show ?thesis using response_move_matched core sim(1) inv(3) by blast
  next
    case (opens w)
    then show ?thesis by (intro matched_opens [OF sim(1) core inv(2)]) simp_all
  next
    case (closes w)
    then have "w = make_state (generation_of (packed s)) DISCONNECTED" "status_of (packed s) \<noteq> DISCONNECTED"
      by (simp_all add: end_update_Some)
    with closes show ?thesis by (intro matched_ends [OF sim(1)]) (simp_all add: gen_def)
  next
    case (serve_starts n)
    then have "position s = Not_serving" using core by (simp add: core_inv_def)
    with serve_starts show ?thesis by (intro matched_frame [OF sim(1)]) simp_all
  next
    case no_effect
    then show ?thesis using sim(1) by (simp add: matched_def)
  qed (rule matched_frame [OF sim(1)]; simp)+
qed

lemma simulates_init: "simulates (stream_init ssl) listener_init"
  by (simp add: simulates_def stream_init_def listener_init_def gen_def)

lemma escaped_stays: "moved m s = Some t \<Longrightarrow> escaped s \<Longrightarrow> escaped t"
  by (erule movedE; (erule serve_moveE | erule response_moveE)?) auto

interpretation stream_spec: refines_machine "stream_init ssl" stream_step trace "\<lambda>s. fits s \<and> \<not> escaped s"
  listener_step listener_init simulates for ssl
proof unfold_locales
  show "trace (stream_init ssl) = []" by (simp add: stream_init_def)
  show "simulates (stream_init ssl) listener_init" by (rule simulates_init)
next
  fix s t assume "stream_step s t" and t: "fits t \<and> \<not> escaped t"
  then obtain m where m: "moved m s = Some t" by (auto elim: stream_stepE)
  show "fits s \<and> \<not> escaped s" using fits_before [OF m] escaped_stays [OF m] t by blast
next
  fix s t l
  assume s: "reachable (stream_init ssl) stream_step s" "fits s \<and> \<not> escaped s"
    and step: "stream_step s t" "fits t \<and> \<not> escaped t" and l: "simulates s l"
  obtain m where m: "moved m s = Some t" using step(1) by (auto elim: stream_stepE)
  have "stream_inv s" using stream_sys.reachable_inv [OF s(1)] s(2) by blast
  then show "trace t = trace s \<and> simulates t l
      \<or> (\<exists>e l'. trace t = trace s @ [e] \<and> listener_step e l = Some l' \<and> simulates t l')"
    using moved_matched [OF m] s(2) step(2) l unfolding matched_def by blast
qed

section \<open>Property\<close>

text \<open>
  C4. An \<open>HttpStream\<close> refines the abstract listener machine: in every reachable state, unless an exception that is no
  \<open>std::exception\<close> has left a callback, the calls of \<open>open()\<close>, the ends of generations and the callbacks so far are a run of
  that machine, whose state agrees with the stream's.  So between an \<open>open()\<close> and its one \<open>onDisconnected\<close> the callbacks are
  at most one \<open>onConnected\<close>, data only after it and before any error, at most one of them after the end of the generation,
  and no callback of another generation in between.
\<close>
theorem stream_refines_listener:
  assumes "reachable (stream_init ssl) stream_step s" "length (opened (trace s)) < 2 ^ 62" "\<not> escaped s"
  shows "\<exists>l. accepts listener_step (trace s) listener_init = Some l \<and> opens l = gen s \<and> is_open l = (status_of (packed s) \<noteq> DISCONNECTED)
    \<and> gone l = (if session_of (position s) = None then unat (served s) else unat (served s) - 1)"
  using stream_spec.reachable_accepted [OF assms(1)] assms(2,3) by (auto simp: fits_def simulates_def)

theorem stream_refines_listener_witness:
  "\<exists>s l. schedule to_end (stream_init False) = Some s \<and> accepts listener_step (trace s) listener_init = Some l \<and> gone l = 1 \<and> \<not> is_open l"
proof -
  obtain s where s: "schedule to_end (stream_init False) = Some s" "length (opened (trace s)) < 2 ^ 62" "\<not> escaped s"
      "session_of (position s) = None" "unat (served s) = 1" "status_of (packed s) = DISCONNECTED"
    by (simp add: run_defs run_eval)
  from stream_refines_listener [OF schedule_reaches [OF s(1)] s(2,3)] s(1,4-6) show ?thesis by auto
qed

end
