(* ===== verification/Stream_Service.thy ===== *)
theory Stream_Service
  imports Service_Pool_Ends Http_Stream_Spec
begin

text \<open>
  Streams on the shared service of \<open>http_stream.cpp\<close>: the threads of \<open>Service_Pool\<close> run the strands of the streams of
  \<open>Http_Stream\<close>, while application threads and the streams' own callbacks call \<open>open\<close>, \<open>close\<close> and, application threads only,
  \<open>shutdown\<close>.  A strand of Asio is run by one thread at a time, until its coroutine suspends; this much is taken from Asio.
  Streams on an executor of their own are there too.
\<close>

section \<open>State\<close>

text \<open>What a service thread does: it runs the strand of a stream, and from a callback of that stream may be in \<open>open()\<close> of another.\<close>

datatype stream_handler =
    Strand nat
  | Reopening nat nat     \<comment> \<open>\<open>open()\<close> of the second stream has swapped its state; \<open>start_service()\<close> is next\<close>
  | Reposting nat nat     \<comment> \<open>the post is next\<close>

record stream_service =
  pool :: "stream_handler pool"
  use_service :: "nat \<Rightarrow> bool"
  streams :: "stream list"
  open_of :: "nat \<Rightarrow> nat option"   \<comment> \<open>the stream whose \<open>open()\<close> an application thread is in\<close>

text \<open>\<open>n\<close> application threads, and a stream for each entry of \<open>tls\<close>.\<close>

definition stream_service_init :: "nat \<Rightarrow> (nat \<Rightarrow> bool) \<Rightarrow> bool list \<Rightarrow> stream_service" where
  "stream_service_init n shared tls =
     \<lparr>pool = pool_init n, use_service = shared, streams = map stream_init tls, open_of = (\<lambda>_. None)\<rparr>"

section \<open>Steps\<close>

fun strand_of :: "stream_handler \<Rightarrow> nat" where
  "strand_of (Strand n) = n"
| "strand_of (Reopening n m) = n"
| "strand_of (Reposting n m) = n"

fun runs_strand :: "nat \<Rightarrow> stream_handler service_thread \<Rightarrow> bool" where
  "runs_strand n (Handling h) = (strand_of h = n)"
| "runs_strand n w = False"

definition strand_held :: "nat \<Rightarrow> stream_service \<Rightarrow> bool" where
  "strand_held n s = (\<exists>w \<in> set (service_threads (pool s)). runs_strand n (snd w))"

text \<open>The moves a stream makes on its strand; the others are the calls of \<open>open\<close> and \<open>close\<close>.\<close>

fun on_strand :: "move \<Rightarrow> bool" where
  "on_strand (Serves h) = True"
| "on_strand (Responds h) = True"
| "on_strand Runs_serve = True"
| "on_strand Runs_cancel = True"
| "on_strand m = False"

text \<open>Stream \<open>n\<close> makes a move, and the service changes with it.\<close>

definition stream_moves :: "nat \<Rightarrow> move \<Rightarrow> stream_service \<Rightarrow> stream_service option" where
  "stream_moves n m s =
     (if n < length (streams s) then map_option (\<lambda>t. s\<lparr>streams := (streams s)[n := t]\<rparr>) (moved m (streams s ! n)) else None)"

definition strand_goes :: "nat \<Rightarrow> stream_handler service_thread \<Rightarrow> stream_service \<Rightarrow> stream_service option" where
  "strand_goes k w s = map_option (\<lambda>p. s\<lparr>pool := p\<rparr>) (pool_moved stream_code (Thread k w) (pool s))"

text \<open>The first half of \<open>open()\<close>: whether it goes on to \<open>start_service()\<close>.\<close>

definition open_goes_on :: "nat \<Rightarrow> stream_service \<Rightarrow> bool" where
  "open_goes_on n s \<longleftrightarrow> open_update (packed (streams s ! n)) \<noteq> None"

text \<open>
  \<open>start_service()\<close> on a service thread finds the service not stopped, which is shown below: its compare-exchange fails and
  it returns.
\<close>

fun handler_goes :: "nat \<Rightarrow> stream_handler \<Rightarrow> stream_service \<Rightarrow> stream_service option" where
  "handler_goes k (Strand n) s =
     (if suspended (position (streams s ! n)) then strand_goes k Serving s else None)"
| "handler_goes k (Reopening n m) s =
     (if service_state (pool s) = Svc_stopped then None else strand_goes k (Handling (Reposting n m)) s)"
| "handler_goes k (Reposting n m) s = Option.bind (stream_moves m Posts_serve s) (strand_goes k (Handling (Strand n)))"

datatype stream_service_move =
    Pool_moves "stream_handler pool_move"
  | Calls_open nat nat          \<comment> \<open>an application thread calls \<open>open()\<close> of a stream: up to the swap\<close>
  | Open_posts nat              \<comment> \<open>and after \<open>start_service()\<close>\<close>
  | Close_moves nat move        \<comment> \<open>\<open>close()\<close>, by any thread\<close>
  | Takes_strand nat nat        \<comment> \<open>a service thread starts to run the strand of a stream\<close>
  | Strand_moves nat move
  | Reopens nat nat             \<comment> \<open>\<open>open()\<close> in a callback that a service thread runs\<close>
  | Handler_moves nat           \<comment> \<open>the thread returns from the strand, or goes on in \<open>open()\<close>\<close>
  | Own_executor nat move       \<comment> \<open>a stream that does not use the service\<close>

definition thread_handler :: "nat \<Rightarrow> stream_service \<Rightarrow> stream_handler option" where
  "thread_handler k s =
     (if k < length (service_threads (pool s))
      then (case snd (service_threads (pool s) ! k) of Handling h \<Rightarrow> Some h | _ \<Rightarrow> None) else None)"

text \<open>A callback may be running; the return of \<open>onDisconnected\<close> is no move of its own, so the next move counts.\<close>

fun in_callback :: "position \<Rightarrow> bool" where
  "in_callback (In_callback g k) = True"
| "in_callback Serve_loop = True"
| "in_callback (Catch_up g) = True"
| "in_callback p = False"

text \<open>Application threads start and stop the service only by \<open>open()\<close> and \<open>shutdown()\<close>.\<close>

fun pool_allowed :: "stream_handler pool_move \<Rightarrow> stream_service \<Rightarrow> bool" where
  "pool_allowed (Starts i) s \<longleftrightarrow> open_of s i \<noteq> None"
| "pool_allowed (Shuts i) s \<longleftrightarrow> open_of s i = None"
| "pool_allowed m s \<longleftrightarrow> pool_alone m (pool s)"

fun service_moves :: "stream_service_move \<Rightarrow> stream_service \<Rightarrow> stream_service option" where
  "service_moves (Pool_moves m) s =
     (if pool_allowed m s then map_option (\<lambda>p. s\<lparr>pool := p\<rparr>) (pool_moved stream_code m (pool s)) else None)"
| "service_moves (Calls_open i n) s =
     (if i < length (callers (pool s)) \<and> callers (pool s) ! i = Away \<and> open_of s i = None \<and> n < length (streams s) \<and> use_service s n
      then map_option (\<lambda>t. if open_goes_on n s then t\<lparr>open_of := (open_of t)(i \<mapsto> n)\<rparr> else t) (stream_moves n Opens s)
      else None)"
| "service_moves (Open_posts i) s =
     (if i < length (callers (pool s)) \<and> callers (pool s) ! i = Started
      then (case open_of s i of
          None \<Rightarrow> None
        | Some n \<Rightarrow> map_option (\<lambda>t. t\<lparr>open_of := (open_of t)(i := None), pool := caller_at i Away (pool t)\<rparr>) (stream_moves n Posts_serve s))
      else None)"
| "service_moves (Close_moves n m) s = (if m = Closes \<or> m = Posts_cancel then stream_moves n m s else None)"
| "service_moves (Takes_strand k n) s =
     (if n < length (streams s) \<and> use_service s n \<and> \<not> strand_held n s then
        (if k < length (service_threads (pool s)) \<and> service_threads (pool s) ! k = (Io_context, Serving)
         then strand_goes k (Handling (Strand n)) s else None)
      else None)"
| "service_moves (Strand_moves k m) s =
     (case thread_handler k s of Some (Strand n) \<Rightarrow> if on_strand m then stream_moves n m s else None | _ \<Rightarrow> None)"
| "service_moves (Reopens k n) s =
     (case thread_handler k s of
        Some (Strand m) \<Rightarrow>
          if in_callback (position (streams s ! m)) \<and> n < length (streams s) \<and> use_service s n
          then (if open_goes_on n s then Option.bind (stream_moves n Opens s) (strand_goes k (Handling (Reopening m n)))
                else stream_moves n Opens s)
          else None
      | _ \<Rightarrow> None)"
| "service_moves (Handler_moves k) s = (case thread_handler k s of Some h \<Rightarrow> handler_goes k h s | None \<Rightarrow> None)"
| "service_moves (Own_executor n m) s = (if n < length (streams s) \<and> \<not> use_service s n then stream_moves n m s else None)"

inductive stream_service_step :: "stream_service \<Rightarrow> stream_service \<Rightarrow> bool" where
  move: "service_moves m s = Some t \<Longrightarrow> stream_service_step s t"

inductive_cases stream_service_stepE: "stream_service_step s t"

fun service_schedule :: "stream_service_move list \<Rightarrow> stream_service \<Rightarrow> stream_service option" where
  "service_schedule [] s = Some s"
| "service_schedule (m # ms) s = (case service_moves m s of None \<Rightarrow> None | Some t \<Rightarrow> service_schedule ms t)"

lemma service_schedule_steps: "service_schedule ms s = Some t \<Longrightarrow> stream_service_step\<^sup>*\<^sup>* s t"
proof (induction ms arbitrary: s)
  case (Cons m ms)
  then obtain u where "service_moves m s = Some u" "service_schedule ms u = Some t"
    by (auto simp del: service_moves.simps split: option.splits)
  with Cons.IH show ?case by (meson converse_rtranclp_into_rtranclp stream_service_step.move)
qed simp

end
