(* ===== verification/Stream_Service_Props.thy ===== *)
theory Stream_Service_Props
  imports Stream_Service
begin

text \<open>
  What the service adds to its streams: each stream still runs as \<open>Http_Stream\<close> has it, whatever starts and shutdowns come
  between; its code runs on one service thread at a time and never while the service is stopped.
\<close>

section \<open>Frames\<close>

lemma stream_movesD:
  assumes "stream_moves n m s = Some t"
  shows "n < length (streams s)" "\<exists>u. moved m (streams s ! n) = Some u \<and> t = s\<lparr>streams := (streams s)[n := u]\<rparr>"
  using assms by (auto simp: stream_moves_def split: if_splits)

lemma strand_goesD:
  assumes "strand_goes k w s = Some t"
  shows "k < length (service_threads (pool s))" "t = s\<lparr>pool := thread_at k w (pool s)\<rparr>"
  using assms by (auto simp: strand_goes_def split: if_splits)

lemma thread_handlerD:
  assumes "thread_handler k s = Some h"
  shows "k < length (service_threads (pool s))" "snd (service_threads (pool s) ! k) = Handling h"
  using assms by (auto simp: thread_handler_def split: if_splits service_thread.splits)

lemma thread_handler_cong: "pool t = pool s \<Longrightarrow> thread_handler k t = thread_handler k s"
  by (simp add: thread_handler_def)

lemma stream_moves_pool: "stream_moves n m s = Some t \<Longrightarrow> pool t = pool s"
  by (auto dest: stream_movesD(2))

text \<open>Each stream stays as it is or makes a move of its own.\<close>

definition one_stream_moves :: "stream_service \<Rightarrow> stream_service \<Rightarrow> bool" where
  "one_stream_moves s t \<longleftrightarrow> use_service t = use_service s \<and> (streams t = streams s
     \<or> (\<exists>n m u. n < length (streams s) \<and> moved m (streams s ! n) = Some u \<and> streams t = (streams s)[n := u]))"

lemma one_stream_movesI:
  assumes "stream_moves n m s = Some u" "streams t = streams u" "use_service t = use_service s"
  shows "one_stream_moves s t"
proof -
  obtain v where "moved m (streams s ! n) = Some v" "streams t = (streams s)[n := v]"
    using stream_movesD(2) [OF assms(1)] assms(2) by auto
  then show ?thesis using stream_movesD(1) [OF assms(1)] assms(3) unfolding one_stream_moves_def by blast
qed

lemma one_stream_moves_none: "streams t = streams s \<Longrightarrow> use_service t = use_service s \<Longrightarrow> one_stream_moves s t"
  by (simp add: one_stream_moves_def)

lemma handler_goes_stream: "handler_goes k h s = Some t \<Longrightarrow> one_stream_moves s t"
proof (cases h)
  case (Reposting n m)
  assume "handler_goes k h s = Some t"
  then obtain u where u: "stream_moves m Posts_serve s = Some u" "strand_goes k (Handling (Strand n)) u = Some t"
    using Reposting by (auto simp: bind_eq_Some_conv)
  then have "streams t = streams u" "use_service t = use_service u" by (auto dest: strand_goesD(2))
  moreover have "use_service u = use_service s" using stream_movesD(2) [OF u(1)] by auto
  ultimately show ?thesis using one_stream_movesI [OF u(1)] by simp
qed (auto simp: one_stream_moves_def dest!: strand_goesD(2) split: if_splits)

lemma service_moves_stream:
  assumes "service_moves m s = Some t"
  shows "one_stream_moves s t"
proof (cases m)
  case (Pool_moves pm)
  then show ?thesis using assms by (auto intro!: one_stream_moves_none simp del: pool_moved.simps split: if_splits)
next
  case (Calls_open i n)
  then obtain u where u: "stream_moves n Opens s = Some u" "streams t = streams u" "use_service t = use_service u"
    using assms by (auto split: if_splits)
  then show ?thesis using stream_movesD(2) [OF u(1)] by (auto intro!: one_stream_movesI [OF u(1)])
next
  case (Open_posts i)
  then obtain n u where u: "stream_moves n Posts_serve s = Some u"
      "t = u\<lparr>open_of := (open_of u)(i := None), pool := caller_at i Away (pool u)\<rparr>"
    using assms by (auto split: if_splits option.splits)
  then show ?thesis using stream_movesD(2) [OF u(1)] by (auto intro!: one_stream_movesI [OF u(1)])
next
  case (Close_moves n c)
  then have u: "stream_moves n c s = Some t" using assms by (simp split: if_splits)
  then show ?thesis using stream_movesD(2) [OF u] by (auto intro!: one_stream_movesI [OF u])
next
  case (Takes_strand k n)
  then show ?thesis using assms by (auto intro!: one_stream_moves_none dest!: strand_goesD(2) split: if_splits)
next
  case (Strand_moves k c)
  then obtain n where u: "stream_moves n c s = Some t"
    using assms by (auto split: if_splits option.splits stream_handler.splits)
  then show ?thesis using stream_movesD(2) [OF u] by (auto intro!: one_stream_movesI [OF u])
next
  case (Reopens k n)
  obtain u where u: "stream_moves n Opens s = Some u" "streams t = streams u" "use_service t = use_service u"
    using assms Reopens by (auto simp: bind_eq_Some_conv dest: strand_goesD(2) split: if_splits option.splits stream_handler.splits)
  then show ?thesis using stream_movesD(2) [OF u(1)] by (auto intro!: one_stream_movesI [OF u(1)])
next
  case (Handler_moves k)
  then show ?thesis using assms handler_goes_stream by (auto split: option.splits)
next
  case (Own_executor n c)
  then have u: "stream_moves n c s = Some t" using assms by (simp split: if_splits)
  then show ?thesis using stream_movesD(2) [OF u] by (auto intro!: one_stream_movesI [OF u])
qed

section \<open>Every stream runs as a stream\<close>

definition streams_run :: "(nat \<Rightarrow> bool) \<Rightarrow> bool list \<Rightarrow> stream_service \<Rightarrow> bool" where
  "streams_run shared tls s \<longleftrightarrow> use_service s = shared \<and> length (streams s) = length tls
     \<and> (\<forall>n < length tls. reachable (stream_init (tls ! n)) stream_step (streams s ! n))"

lemma streams_run_moves:
  assumes "streams_run shared tls s" "one_stream_moves s t"
  shows "streams_run shared tls t"
proof -
  have use: "use_service t = use_service s" using assms(2) by (simp add: one_stream_moves_def)
  consider "streams t = streams s"
    | n m u where "n < length (streams s)" "moved m (streams s ! n) = Some u" "streams t = (streams s)[n := u]"
    using assms(2) unfolding one_stream_moves_def by blast
  then show ?thesis
  proof cases
    case 2
    then have "reachable (stream_init (tls ! n)) stream_step u"
      using assms(1) by (auto simp: streams_run_def intro: reachable.next_step stream_step.move)
    then show ?thesis using assms(1) use 2(1,3) by (auto simp: streams_run_def nth_list_update)
  qed (use assms(1) use in \<open>simp add: streams_run_def\<close>)
qed

interpretation service_streams: inductive_invariant "stream_service_init n shared tls" stream_service_step "streams_run shared tls" for n shared tls
proof unfold_locales
  show "streams_run shared tls (stream_service_init n shared tls)"
    by (auto simp: streams_run_def stream_service_init_def intro: reachable.start)
qed (auto elim!: stream_service_stepE intro: streams_run_moves dest: service_moves_stream)

section \<open>One thread at a time\<close>

definition strand_threads :: "nat \<Rightarrow> stream_handler pool \<Rightarrow> nat" where
  "strand_threads n p = pool_sum (\<lambda>w. of_bool (runs_strand n w)) p"

lemma strand_threads_thread_at:
  assumes "k < length (service_threads p)"
  shows "strand_threads n (thread_at k w p) + of_bool (runs_strand n (snd (service_threads p ! k)))
    = strand_threads n p + of_bool (runs_strand n w)"
  using pool_sum_thread_at [OF assms, of "\<lambda>w. of_bool (runs_strand n w)" w] by (simp add: strand_threads_def)

lemma strand_threads_caller_at [simp]: "strand_threads n (caller_at i pc p) = strand_threads n p"
  by (simp add: strand_threads_def)

lemma strand_threads_pos:
  assumes "thread_handler k s = Some h"
  shows "0 < strand_threads (strand_of h) (pool s)"
proof -
  note k = thread_handlerD [OF assms]
  let ?f = "\<lambda>w. of_bool (runs_strand (strand_of h) w) :: nat"
  have "?f (snd (service_threads (pool s) ! k)) \<in> set (map (?f \<circ> snd) (service_threads (pool s)))"
    using k(1) by (auto intro!: image_eqI [of _ _ "service_threads (pool s) ! k"])
  from member_le_sum_list [OF this] k(2) show ?thesis by (simp add: strand_threads_def pool_sum_def)
qed

definition strand_running :: "nat \<Rightarrow> stream_service \<Rightarrow> bool" where
  "strand_running n s \<longleftrightarrow> n < length (streams s) \<and> use_service s n \<and> \<not> suspended (position (streams s ! n))"

definition strands_ok :: "stream_service \<Rightarrow> bool" where
  "strands_ok s \<longleftrightarrow> (\<forall>n. strand_threads n (pool s) \<le> of_bool (n < length (streams s) \<and> use_service s n))
     \<and> (\<forall>n. strand_running n s \<longrightarrow> 0 < strand_threads n (pool s))"

lemma strands_okD:
  assumes "strands_ok s"
  shows "strand_threads n (pool s) \<le> of_bool (n < length (streams s) \<and> use_service s n)" "strand_running n s \<Longrightarrow> 0 < strand_threads n (pool s)"
  using assms by (simp_all add: strands_ok_def)

lemma off_strand_position: "\<not> on_strand m \<Longrightarrow> moved m s = Some t \<Longrightarrow> position t = position s"
  by (cases m) (auto split: option.splits nat.splits)

lemma strands_ok_frame:
  assumes ok: "strands_ok s" and same: "\<And>n. strand_threads n (pool t) = strand_threads n (pool s)" "length (streams t) = length (streams s)"
      "use_service t = use_service s"
    and pos: "\<And>n. n < length (streams s) \<Longrightarrow> use_service s n \<Longrightarrow> strand_threads n (pool s) = 0 \<Longrightarrow> position (streams t ! n) = position (streams s ! n)"
  shows "strands_ok t"
  using strands_okD [OF ok] same pos by (fastforce simp: strands_ok_def strand_running_def)

lemma strands_ok_stream:
  assumes "strands_ok s" "stream_moves n m s = Some t" "\<not> on_strand m \<or> \<not> use_service s n \<or> 0 < strand_threads n (pool s)"
  shows "strands_ok t"
proof -
  obtain u where u: "moved m (streams s ! n) = Some u" "t = s\<lparr>streams := (streams s)[n := u]\<rparr>"
    using stream_movesD(2) [OF assms(2)] by blast
  have "position ((streams s)[n := u] ! k) = position (streams s ! k)"
    if "k < length (streams s)" "use_service s k" "strand_threads k (pool s) = 0" for k
    using that assms(3) off_strand_position [OF _ u(1)] by (cases "k = n") auto
  then show ?thesis using u(2) by (intro strands_ok_frame [OF assms(1)]) simp_all
qed

text \<open>A thread stays on its strand, or leaves it while the coroutine is suspended.\<close>

lemma strands_ok_thread:
  assumes ok: "strands_ok s" and goes: "strand_goes k w s = Some t" and h: "thread_handler k s = Some h"
    and w: "runs_strand (strand_of h) w \<or> w = Serving \<and> suspended (position (streams s ! strand_of h))"
  shows "strands_ok t"
proof -
  note k = thread_handlerD [OF h] and t = strand_goesD(2) [OF goes]
  have sum: "strand_threads n (pool t) + of_bool (strand_of h = n) = strand_threads n (pool s) + of_bool (runs_strand n w)" for n
    using strand_threads_thread_at [OF k(1), of n w] k(2) t by simp
  show ?thesis
  proof (cases "runs_strand (strand_of h) w")
    case True
    then have "runs_strand n w \<longleftrightarrow> strand_of h = n" for n by (cases w) auto
    then have "strand_threads n (pool t) = strand_threads n (pool s)" for n using sum [of n] by simp
    then show ?thesis using t by (intro strands_ok_frame [OF ok]) simp_all
  next
    case False
    then have w: "w = Serving" "suspended (position (streams s ! strand_of h))" using w by auto
    have "strand_threads n (pool t) \<le> of_bool (n < length (streams t) \<and> use_service t n)" for n
      using sum [of n] strands_okD(1) [OF ok, of n] w(1) t by simp
    moreover have "0 < strand_threads n (pool t)" if "strand_running n t" for n
    proof -
      have "strand_running n s" "strand_of h \<noteq> n" using that w(2) t by (auto simp: strand_running_def)
      then show ?thesis using sum [of n] strands_okD(2) [OF ok] by simp
    qed
    ultimately show ?thesis by (simp add: strands_ok_def)
  qed
qed

lemma strands_ok_takes:
  assumes ok: "strands_ok s" and goes: "strand_goes k (Handling (Strand n)) s = Some t" and free: "\<not> strand_held n s"
    and k: "service_threads (pool s) ! k = (c, Serving)" and n: "n < length (streams s)" "use_service s n"
  shows "strands_ok t"
proof -
  note t = strand_goesD [OF goes]
  have none: "strand_threads n (pool s) = 0"
    using free by (auto simp: strand_held_def strand_threads_def pool_sum_def)
  have sum: "strand_threads j (pool t) = strand_threads j (pool s) + of_bool (j = n)" for j
    using strand_threads_thread_at [OF t(1), of j "Handling (Strand n)"] k t(2) by (cases "j = n") simp_all
  have "strand_threads j (pool t) \<le> of_bool (j < length (streams t) \<and> use_service t j)" for j
    using sum [of j] strands_okD(1) [OF ok, of j] none n t(2) by (cases "j = n") simp_all
  moreover have "0 < strand_threads j (pool t)" if "strand_running j t" for j
    using that sum [of j] strands_okD(2) [OF ok, of j] t(2) by (simp add: strand_running_def)
  ultimately show ?thesis by (simp add: strands_ok_def)
qed

lemma handler_goes_ok:
  assumes ok: "strands_ok s" and h: "thread_handler k s = Some h" and goes: "handler_goes k h s = Some t"
  shows "strands_ok t"
proof (cases h)
  case (Strand n)
  then show ?thesis using goes by (auto intro: strands_ok_thread [OF ok _ h] split: if_splits)
next
  case (Reopening n m)
  then show ?thesis using goes by (auto intro: strands_ok_thread [OF ok _ h] split: if_splits)
next
  case (Reposting n m)
  then obtain u where u: "stream_moves m Posts_serve s = Some u" "strand_goes k (Handling (Strand n)) u = Some t"
    using goes by (auto simp: bind_eq_Some_conv)
  have "strands_ok u" by (rule strands_ok_stream [OF ok u(1)]) simp
  moreover have "thread_handler k u = Some h" using h thread_handler_cong [OF stream_moves_pool [OF u(1)]] by simp
  ultimately show ?thesis using u(2) Reposting by (auto intro: strands_ok_thread)
qed

definition service_inv :: "stream_service \<Rightarrow> bool" where
  "service_inv s \<longleftrightarrow> pool_inv stream_code (pool s) \<and> strands_ok s"

lemma pool_allowed_alone: "pool_allowed m s \<Longrightarrow> pool_alone m (pool s)"
  by (cases m) auto

lemma service_moves_pool:
  assumes "service_moves m s = Some t"
  shows "pool t = pool s \<or> (\<exists>pm. pool_moved stream_code pm (pool s) = Some (pool t))"
proof (cases m)
  case (Open_posts i)
  then obtain n u where u: "stream_moves n Posts_serve s = Some u" "pool t = caller_at i Away (pool u)"
      "i < length (callers (pool s))" "callers (pool s) ! i = Started"
    using assms by (auto split: if_splits option.splits)
  then have "pool_moved stream_code (Goes i) (pool s) = Some (pool t)" using stream_movesD(2) [OF u(1)] by auto
  then show ?thesis by blast
next
  case (Handler_moves k)
  then obtain h where h: "thread_handler k s = Some h" "handler_goes k h s = Some t" using assms by (auto split: option.splits)
  then show ?thesis
    by (cases h) (auto simp: strand_goes_def bind_eq_Some_conv simp del: pool_moved.simps dest!: stream_movesD(2) split: if_splits)
qed (use assms in \<open>auto simp: strand_goes_def bind_eq_Some_conv simp del: pool_moved.simps dest!: stream_movesD(2)
    split: if_splits option.splits stream_handler.splits\<close>)

lemma service_moves_ok:
  assumes inv: "service_inv s" and moves: "service_moves m s = Some t"
  shows "strands_ok t"
proof -
  have ok: "strands_ok s" and p: "pool_inv stream_code (pool s)" using inv by (simp_all add: service_inv_def)
  show ?thesis
  proof (cases m)
    case (Pool_moves pm)
    then obtain q where q: "pool_alone pm (pool s)" "pool_moved stream_code pm (pool s) = Some q" "t = s\<lparr>pool := q\<rparr>"
      using moves by (auto simp del: pool_moved.simps dest: pool_allowed_alone split: if_splits)
    have "strand_threads n q = strand_threads n (pool s)" for n
      unfolding strand_threads_def by (rule stream_pool.pool_alone_sum [OF p q(1,2)]) simp_all
    then show ?thesis using q(3) by (intro strands_ok_frame [OF ok]) simp_all
  next
    case (Calls_open i n)
    then obtain u where u: "stream_moves n Opens s = Some u" "pool t = pool u" "streams t = streams u" "use_service t = use_service u"
      using moves by (auto split: if_splits)
    have "strands_ok u" by (rule strands_ok_stream [OF ok u(1)]) simp
    then show ?thesis using u(2-4) by (auto intro: strands_ok_frame)
  next
    case (Open_posts i)
    then obtain n u where u: "stream_moves n Posts_serve s = Some u" "pool t = caller_at i Away (pool u)"
        "streams t = streams u" "use_service t = use_service u"
      using moves by (auto split: if_splits option.splits)
    have "strands_ok u" by (rule strands_ok_stream [OF ok u(1)]) simp
    then show ?thesis using u(2-4) by (auto intro: strands_ok_frame)
  next
    case (Close_moves n c)
    then have "stream_moves n c s = Some t" "\<not> on_strand c" using moves by (auto split: if_splits)
    then show ?thesis using strands_ok_stream [OF ok] by blast
  next
    case (Takes_strand k n)
    then show ?thesis using moves by (auto intro: strands_ok_takes [OF ok] split: if_splits)
  next
    case (Strand_moves k c)
    then obtain n where n: "thread_handler k s = Some (Strand n)" "stream_moves n c s = Some t"
      using moves by (auto split: if_splits option.splits stream_handler.splits)
    then show ?thesis using strands_ok_stream [OF ok n(2)] strand_threads_pos [OF n(1)] by simp
  next
    case (Reopens k n)
    then obtain h u where u: "thread_handler k s = Some (Strand h)" "stream_moves n Opens s = Some u"
        "t = u \<or> strand_goes k (Handling (Reopening h n)) u = Some t"
      using moves by (auto simp: bind_eq_Some_conv split: if_splits option.splits stream_handler.splits)
    have "strands_ok u" by (rule strands_ok_stream [OF ok u(2)]) simp
    moreover have "thread_handler k u = Some (Strand h)" using u(1) thread_handler_cong [OF stream_moves_pool [OF u(2)]] by simp
    ultimately show ?thesis using u(3) by (auto intro: strands_ok_thread)
  next
    case (Handler_moves k)
    then show ?thesis using moves handler_goes_ok [OF ok] by (auto split: option.splits)
  next
    case (Own_executor n c)
    then have "stream_moves n c s = Some t" "\<not> use_service s n" using moves by (auto split: if_splits)
    then show ?thesis using strands_ok_stream [OF ok] by blast
  qed
qed

interpretation stream_service: inductive_invariant "stream_service_init n shared tls" stream_service_step service_inv for n shared tls
proof unfold_locales
  show "service_inv (stream_service_init n shared tls)"
  proof -
    have "strands_ok (stream_service_init n shared tls)"
      by (simp add: strands_ok_def strand_running_def strand_threads_def pool_sum_def pool_init_def stream_service_init_def stream_init_def)
    then show ?thesis using stream_pool.pool_inv_init [of n] by (simp add: service_inv_def stream_service_init_def)
  qed
next
  fix s t assume s: "service_inv s" and "stream_service_step s t"
  then obtain m where m: "service_moves m s = Some t" by (auto elim: stream_service_stepE)
  have "pool_inv stream_code (pool t)"
    using service_moves_pool [OF m] s stream_pool.pool_inv_moved by (auto simp: service_inv_def)
  then show "service_inv t" using service_moves_ok [OF s m] by (simp add: service_inv_def)
qed

lemma strand_threads_filter: "strand_threads n p = length (filter (\<lambda>w. runs_strand n (snd w)) (service_threads p))"
proof -
  have "sum_list (map ((\<lambda>w. of_bool (runs_strand n w)) \<circ> snd) ws) = length (filter (\<lambda>w. runs_strand n (snd w)) ws)" for ws
    by (induction ws) auto
  then show ?thesis by (simp add: strand_threads_def pool_sum_def)
qed

definition runs_on :: "nat \<Rightarrow> stream_service \<Rightarrow> nat \<Rightarrow> bool" where
  "runs_on n s k \<longleftrightarrow> (\<exists>h. thread_handler k s = Some h \<and> strand_of h = n)"

lemma runs_on_thread: "runs_on n s k \<longleftrightarrow> k < length (service_threads (pool s)) \<and> runs_strand n (snd (service_threads (pool s) ! k))"
  by (auto simp: runs_on_def thread_handler_def split: service_thread.splits)

lemma running_thread:
  assumes inv: "service_inv s" and running: "strand_running n s"
  shows "\<exists>!k. runs_on n s k"
proof -
  have "strand_threads n (pool s) = 1"
    using strands_okD [of s n] inv running by (auto simp: service_inv_def strand_running_def)
  then have "card {k. runs_on n s k} = 1"
    by (simp add: runs_on_thread strand_threads_filter length_filter_conv_card)
  then obtain k where "{k. runs_on n s k} = {k}" by (auto simp: card_1_singleton_iff)
  then have "runs_on n s j \<longleftrightarrow> j = k" for j by blast
  then show ?thesis by auto
qed

text \<open>A stopped service and one whose threads are joined have no thread left.\<close>

lemma no_threads_left:
  assumes "pool_inv stream_code p"
    and "service_state p = Svc_stopped \<or> (\<exists>i < length (callers p). callers p ! i = service_pc.Finishing)"
  shows "service_threads p = []"
  using assms(2) pool_invD(2,3) [OF assms(1)] by (fastforce simp: free_ok_def)

lemma threads_bounded:
  assumes inv: "pool_inv stream_code p"
  shows "length (service_threads p) \<le> count p"
proof -
  have len: "length (service_threads p) = length (threads_of p)" by (simp add: threads_of_def)
  have up: "length (threads_of p) \<le> count p" if "threads_of p @ cs = thread_plan stream_code (count p)" for cs
    using arg_cong [OF that, of length] by (simp add: stream_code_def)
  show ?thesis
  proof (cases "service_taken p")
    case True
    then obtain i where i: "i < length (callers p)" "owner_pc (callers p ! i)"
      using pool_invD(1) [OF inv] by (auto simp: one_owner_def owns_service_def)
    then show ?thesis using pool_invD(2) [OF inv i(1)] up [of "[]"] up len
      by (cases "callers p ! i") (auto simp: threads_up_def)
  next
    case False
    then show ?thesis using pool_invD(3) [OF inv] up [of "[]"] len
      by (cases "service_state p") (auto simp: free_ok_def threads_up_def service_taken_def)
  qed
qed

section \<open>Properties\<close>

text \<open>
  C14. The service runs its streams as \<open>Http_Stream\<close> has them, through every start and shutdown, and while the code of a
  stream of the service runs, a callback of it say, exactly one service thread runs it: the service is not stopped, and no
  \<open>shutdown()\<close> has its joins behind it.
\<close>
theorem service_runs_strands:
  assumes "reachable (stream_service_init c shared tls) stream_service_step s" "n < length tls"
  shows "reachable (stream_init (tls ! n)) stream_step (streams s ! n)
    \<and> (shared n \<and> \<not> suspended (position (streams s ! n)) \<longrightarrow>
        (\<exists>!k. runs_on n s k) \<and> service_state (pool s) \<noteq> Svc_stopped \<and> service_pc.Finishing \<notin> set (callers (pool s)))"
proof -
  have run: "streams_run shared tls s" by (rule service_streams.reachable_inv [OF assms(1)])
  have inv: "service_inv s" by (rule stream_service.reachable_inv [OF assms(1)])
  have "(\<exists>!k. runs_on n s k) \<and> service_state (pool s) \<noteq> Svc_stopped \<and> service_pc.Finishing \<notin> set (callers (pool s))"
    if "shared n" "\<not> suspended (position (streams s ! n))"
  proof -
    have "\<exists>!k. runs_on n s k" using running_thread [OF inv] that run assms(2) by (simp add: strand_running_def streams_run_def)
    moreover from this have "service_threads (pool s) \<noteq> []" by (auto simp: runs_on_thread)
    ultimately show ?thesis using no_threads_left [of "pool s"] inv by (auto simp: service_inv_def in_set_conv_nth)
  qed
  then show ?thesis using run assms(2) by (simp add: streams_run_def)
qed

text \<open>
  C15. At most as many streams of the service run code at a time as it has threads, and it never has more than the number
  it loaded when it started.
\<close>
theorem streams_at_a_time:
  assumes "reachable (stream_service_init c shared tls) stream_service_step s"
  shows "card {n. n < length tls \<and> shared n \<and> \<not> suspended (position (streams s ! n))} \<le> length (service_threads (pool s))
    \<and> length (service_threads (pool s)) \<le> count (pool s)"
proof -
  have inv: "service_inv s" by (rule stream_service.reachable_inv [OF assms])
  let ?running = "{n. n < length tls \<and> shared n \<and> \<not> suspended (position (streams s ! n))}"
  let ?strand = "\<lambda>k. strand_of (the (thread_handler k s))"
  have run: "streams_run shared tls s" by (rule service_streams.reachable_inv [OF assms])
  have sub: "?running \<subseteq> ?strand ` {..<length (service_threads (pool s))}"
  proof
    fix n assume "n \<in> ?running"
    then have "strand_running n s" using run by (simp add: strand_running_def streams_run_def)
    then obtain k where k: "runs_on n s k" using running_thread [OF inv] by blast
    then have "n = ?strand k" "k \<in> {..<length (service_threads (pool s))}" by (auto simp: runs_on_def dest: thread_handlerD(1))
    then show "n \<in> ?strand ` {..<length (service_threads (pool s))}" by (rule image_eqI)
  qed
  have "card ?running \<le> length (service_threads (pool s))"
    using card_mono [OF _ sub] card_image_le [of "{..<length (service_threads (pool s))}" ?strand] by simp
  then show ?thesis using threads_bounded [of "pool s"] inv by (simp add: service_inv_def)
qed

text \<open>
  While the service is stopped, the next \<open>open()\<close> starts it exactly when the stream is DISCONNECTED: one that was open
  when the service was stopped still counts as open, so its \<open>open()\<close> returns and changes nothing.
\<close>
lemma next_open_starts_service:
  assumes "reachable (stream_service_init c shared tls) stream_service_step s" "service_state (pool s) = Svc_stopped"
    and "n < length tls" "shared n" "i < length (callers (pool s))" "callers (pool s) ! i = Away" "open_of s i = None"
  shows "if status_of (packed (streams s ! n)) = DISCONNECTED
    then \<exists>t u. service_moves (Calls_open i n) s = Some t \<and> service_moves (Pool_moves (Starts i)) t = Some u
      \<and> service_state (pool u) = Svc_starting \<and> open_of u i = Some n
    else service_moves (Calls_open i n) s = Some s"
proof -
  have run: "use_service s = shared" "n < length (streams s)"
    using service_streams.reachable_inv [OF assms(1)] assms(3) by (simp_all add: streams_run_def)
  show ?thesis
  proof (cases "status_of (packed (streams s ! n)) = DISCONNECTED")
    case True
    then obtain w where w: "open_update (packed (streams s ! n)) = Some w" by (auto simp: open_update_def)
    then show ?thesis using True run assms(2,4-7) by (auto simp: open_goes_on_def stream_moves_def start_swap_def)
  next
    case False
    then have "open_update (packed (streams s ! n)) = None" by (simp add: open_update_def)
    then show ?thesis using False run assms(4-7) by (simp add: open_goes_on_def stream_moves_def)
  qed
qed

text \<open>A stream connects on a service of one thread; then the service is stopped.\<close>

definition to_connecting :: "stream_service_move list" where
  "to_connecting = [Calls_open 0 0, Pool_moves (Starts 0)] @ [Pool_moves (Goes 0), Pool_moves (Goes 0), Pool_moves (Goes 0), Pool_moves (Goes 0),
     Pool_moves (Goes 0), Open_posts 0, Takes_strand 0 0] @ map (Strand_moves 0) (drop 2 to_connected)"

definition to_stopped :: "stream_service_move list" where
  "to_stopped = [Strand_moves 0 (Responds (Content True False)), Strand_moves 0 (Responds Runs), Handler_moves 0,
     Pool_moves (Shuts 0), Pool_moves (Goes 0), Pool_moves (Goes 0), Pool_moves (Goes 0), Pool_moves (Thread 0 service_thread.Ended),
     Pool_moves (Goes 0), Pool_moves (Goes 0), Pool_moves (Goes 0)]"

lemmas run_service_defs = pool_init_def stream_code_def start_swap_def shutdown_turn_def join_next_def caller_at_def thread_at_def
  stream_thread_count_def stream_service_init_def stream_moves_def strand_goes_def open_goes_on_def strand_held_def
  thread_handler_def to_connecting_def to_stopped_def

definition one_stream :: stream_service where
  "one_stream = stream_service_init 1 (\<lambda>_. True) [False]"

lemma one_stream_reaches:
  "service_schedule ms one_stream = Some s \<Longrightarrow> reachable (stream_service_init 1 (\<lambda>_. True) [False]) stream_service_step s"
  unfolding one_stream_def by (rule steps_reachable [OF service_schedule_steps reachable.start])

theorem service_runs_strands_witness:
  "\<exists>s. service_schedule to_connecting one_stream = Some s \<and> position (streams s ! 0) = In_callback 1 After_connected
     \<and> (\<exists>!k. runs_on 0 s k)"
proof -
  obtain s where s: "service_schedule to_connecting one_stream = Some s" "position (streams s ! 0) = In_callback 1 After_connected"
    by (simp add: one_stream_def run_service_defs run_defs run_eval)
  with service_runs_strands [OF one_stream_reaches [OF s(1)], of 0] show ?thesis by auto
qed

theorem streams_at_a_time_witness:
  "\<exists>s. service_schedule to_connecting one_stream = Some s \<and> count (pool s) = 1 \<and> length (service_threads (pool s)) \<le> 1"
proof -
  obtain s where s: "service_schedule to_connecting one_stream = Some s" "count (pool s) = 1"
    by (simp add: one_stream_def run_service_defs run_defs run_eval)
  with streams_at_a_time [OF one_stream_reaches [OF s(1)]] show ?thesis by simp
qed

lemma next_open_starts_service_witness:
  "\<exists>s. service_schedule (to_connecting @ to_stopped) one_stream = Some s \<and> service_state (pool s) = Svc_stopped
     \<and> status_of (packed (streams s ! 0)) = CONNECTED \<and> service_moves (Calls_open 0 0) s = Some s"
proof -
  obtain s where s: "service_schedule (to_connecting @ to_stopped) one_stream = Some s" "service_state (pool s) = Svc_stopped"
      "callers (pool s) = [Away]" "open_of s 0 = None" "status_of (packed (streams s ! 0)) = CONNECTED"
    by (simp add: one_stream_def run_service_defs run_defs run_eval)
  with next_open_starts_service [OF one_stream_reaches [OF s(1)] s(2), of 0 0] show ?thesis by simp
qed

end
