(* ===== verification/Ws_Session_Safety.thy ===== *)
theory Ws_Session_Safety
  imports Ws_Session
begin

text \<open>
  The invariants of \<^theory_text>\<open>Ws_Session\<close>: how the coroutine, the running handler and the flags belong together,
  what the callbacks of a session look like, how often \<open>onDisconnected\<close> is called, and that a buffer that was
  handed over is not used again.
\<close>

section \<open>Steps\<close>

text \<open>\<open>close\<close> changes the status and \<open>closing\<close> only, \<open>release_buffer\<close> its own state and the trace.\<close>

lemma close_frame [simp]:
  "is_shared (close s) = is_shared s" "uses_tls (close s) = uses_tls s" "service_up (close s) = service_up s"
  "unopened (close s) = unopened s" "detached (close s) = detached s" "open_cancelled (close s) = open_cancelled s"
  "session_started (close s) = session_started s" "read_started (close s) = read_started s"
  "release_state (close s) = release_state s" "coroutine (close s) = coroutine s" "handler (close s) = handler s"
  "reading (close s) = reading s" "writing (close s) = writing s" "close_handshake (close s) = close_handshake s"
  "trace (close s) = trace s"
  by (simp_all add: close_def close_swap_def close_post_def)

lemma release_frame [simp]:
  "is_shared (release_buffer s) = is_shared s" "uses_tls (release_buffer s) = uses_tls s"
  "service_up (release_buffer s) = service_up s" "unopened (release_buffer s) = unopened s"
  "detached (release_buffer s) = detached s" "open_cancelled (release_buffer s) = open_cancelled s"
  "session_started (release_buffer s) = session_started s" "read_started (release_buffer s) = read_started s"
  "coroutine (release_buffer s) = coroutine s" "handler (release_buffer s) = handler s" "reading (release_buffer s) = reading s"
  "writing (release_buffer s) = writing s" "closing (release_buffer s) = closing s"
  "close_handshake (release_buffer s) = close_handshake s" "ws_status (release_buffer s) = ws_status s"
  by (simp_all add: release_buffer_def happens_def Let_def)

lemma happens_frame [simp]:
  "is_shared (happens e s) = is_shared s" "service_up (happens e s) = service_up s"
  "unopened (happens e s) = unopened s" "detached (happens e s) = detached s" "open_cancelled (happens e s) = open_cancelled s"
  "session_started (happens e s) = session_started s" "read_started (happens e s) = read_started s"
  "release_state (happens e s) = release_state s" "coroutine (happens e s) = coroutine s" "handler (happens e s) = handler s"
  "reading (happens e s) = reading s" "writing (happens e s) = writing s" "close_handshake (happens e s) = close_handshake s"
  "closing (happens e s) = closing s" "ws_status (happens e s) = ws_status s" "trace (happens e s) = trace s @ [e]"
  by (simp_all add: happens_def)

lemmas ws_ops = open_impl_def
  run_close_def await_failed_def begin_session_def abort_session_def shaken_def connect_def after_connected_def
  completion_def completed_def read_error_def read_status_def read_data_def write_error_def close_done_def
  callback_throws_def idle_do_def less_eq_ws_status_def Let_def

section \<open>The shape of a session\<close>

text \<open>The continuation a handler is bound for, and which callbacks go with which.\<close>

fun after_of :: "ws_handler \<Rightarrow> ws_after option" where
  "after_of (H_check c k) = Some k"
| "after_of (H_about c k) = Some k"
| "after_of (H_in c k) = Some k"
| "after_of (H_after k) = Some k"
| "after_of _ = None"

fun call_of :: "ws_handler \<Rightarrow> ws_callback option" where
  "call_of (H_check c k) = Some c"
| "call_of (H_about c k) = Some c"
| "call_of (H_in c k) = Some c"
| "call_of _ = None"

fun ws_goes_with :: "ws_callback \<Rightarrow> ws_after \<Rightarrow> bool" where
  "ws_goes_with On_connected k = (k = A_connected)"
| "ws_goes_with (On_data bs) k = (k = A_data)"
| "ws_goes_with On_disconnected k = (k = A_release \<or> k = A_end)"
| "ws_goes_with On_error k = (k = A_session_error \<or> k = A_read_error \<or> k = A_write_error \<or> k = A_close_error)"

definition in_coroutine :: "ws_handler \<Rightarrow> bool" where
  "in_coroutine h \<longleftrightarrow> h = H_begin \<or> h = H_abort \<or> h = H_shaken \<or> h = H_connect \<or> after_of h = Some A_connected"

text \<open>The handlers that run on behalf of the read loop.\<close>

fun in_read :: "ws_handler \<Rightarrow> bool" where
  "in_read (H_read_error _) = True"
| "in_read H_read_status = True"
| "in_read H_read_store = True"
| "in_read (H_data _) = True"
| "in_read h = (after_of h = Some A_read_error \<or> after_of h = Some A_data)"

fun in_completion :: "ws_handler \<Rightarrow> bool" where
  "in_completion (H_completed _ _) = True"
| "in_completion h = (after_of h = Some A_session_error)"

fun in_close :: "ws_handler \<Rightarrow> bool" where
  "in_close (H_close_done _) = True"
| "in_close H_close_store = True"
| "in_close h = (after_of h = Some A_close_error \<or> after_of h = Some A_end)"

definition shape_of :: "ws_handler \<Rightarrow> ws_coroutine \<Rightarrow> bool \<Rightarrow> bool \<Rightarrow> bool \<Rightarrow> bool \<Rightarrow> bool \<Rightarrow> bool" where
  "shape_of h co unop started rstarted rd wr \<longleftrightarrow>
     (in_coroutine h \<longleftrightarrow> co = In_handler)
   \<and> (\<forall>c k. call_of h = Some c \<longrightarrow> after_of h = Some k \<longrightarrow> ws_goes_with c k)
   \<and> (unop \<longrightarrow> \<not> started \<and> co = No_session)
   \<and> (co = No_session \<longrightarrow> h = H_none \<and> \<not> started \<and> \<not> rd \<and> \<not> wr)
   \<and> (rstarted \<longrightarrow> co = Finished False \<or> co = Over)
   \<and> (rd \<longrightarrow> rstarted \<and> \<not> in_read h \<and> h \<noteq> H_release \<and> after_of h \<noteq> Some A_release)
   \<and> (in_read h \<longrightarrow> rstarted)
   \<and> (in_completion h \<longrightarrow> \<not> rstarted \<and> co = Over)
   \<and> (\<forall>f. h = H_completion f \<longrightarrow> co = Over \<and> (rstarted \<longrightarrow> \<not> f))
   \<and> (h = H_release \<or> after_of h = Some A_release \<longrightarrow> co = Over \<or> rstarted)
   \<and> after_of h \<noteq> Some A_late_error \<and> (\<forall>bs k. h \<noteq> H_check (On_data bs) k)"

text \<open>How \<open>close()\<close> and the status belong together.\<close>

fun closing_was :: "ws_closing \<Rightarrow> ws_status option" where
  "closing_was No_close = None"
| "closing_was (Closing was) = Some was"
| "closing_was (Close_posted was) = Some was"
| "closing_was (Close_ran was) = Some was"

fun not_resumed :: "ws_coroutine \<Rightarrow> bool" where
  "not_resumed No_session = True"
| "not_resumed (Awaiting a) = True"
| "not_resumed _ = False"

fun connecting :: "ws_handler \<Rightarrow> bool" where
  "connecting H_begin = True"
| "connecting H_abort = True"
| "connecting H_shaken = True"
| "connecting H_connect = True"
| "connecting _ = False"

definition before_connect :: "ws_handler \<Rightarrow> ws_coroutine \<Rightarrow> bool" where
  "before_connect h co \<longleftrightarrow> not_resumed co \<or> connecting h"

definition closes_of :: "ws_handler \<Rightarrow> ws_coroutine \<Rightarrow> ws_status \<Rightarrow> ws_closing \<Rightarrow> bool \<Rightarrow> bool" where
  "closes_of h co st cl ch \<longleftrightarrow>
     (cl \<noteq> No_close \<longrightarrow> st = DISCONNECTING \<or> st = DISCONNECTED)
   \<and> (cl \<noteq> No_close \<longrightarrow> closing_was cl = Some CONNECTING \<or> closing_was cl = Some CONNECTED)
   \<and> (ch \<or> in_close h \<longrightarrow> cl = Close_ran CONNECTED) \<and> \<not> (ch \<and> in_close h)
   \<and> (co = No_session \<longrightarrow> cl = No_close)
   \<and> (after_of h = Some A_write_error \<longrightarrow> \<not> before_connect h co)
   \<and> (before_connect h co \<longrightarrow> st \<noteq> CONNECTED \<and> closing_was cl \<noteq> Some CONNECTED)"

definition closes :: "ws \<Rightarrow> bool" where
  "closes s \<longleftrightarrow> closes_of (handler s) (coroutine s) (ws_status s) (closing s) (close_handshake s)"

lemmas closes_defs = closes_def closes_of_def before_connect_def

definition shape :: "ws \<Rightarrow> bool" where
  "shape s \<longleftrightarrow>
     shape_of (handler s) (coroutine s) (unopened s) (session_started s) (read_started s) (reading s) (writing s)"

lemmas shape_defs = shape_def shape_of_def in_coroutine_def

lemma shape_init: "shape (ws_init shared tls pending)"
  by (simp add: shape_defs ws_init_def)

lemma after_shape: "shape s \<Longrightarrow> handler s = H_after k \<Longrightarrow> shape (after_callback k s)"
  by (cases k) (auto simp: shape_defs ws_ops split: if_splits)

lemma runs_shape: "shape s \<Longrightarrow> pred_option shape (handler_runs (handler s) s)"
proof (cases "handler s")
  case (H_after k)
  then show "shape s \<Longrightarrow> ?thesis" using after_shape by simp
qed (auto simp: shape_defs ws_ops split: if_splits)

lemma shape_frame:
  assumes "shape s" "handler t = handler s" "coroutine t = coroutine s" "unopened t = unopened s"
    "session_started t = session_started s" "read_started t = read_started s" "reading t = reading s" "writing t = writing s"
  shows "shape t"
  using assms(1) unfolding shape_def by (simp only: assms(2-8))

text \<open>A handler starts.\<close>

lemma shape_idle:
  assumes "shape s" "handler s = H_none"
  shows "coroutine s = Awaiting a \<Longrightarrow> shape (resumed a s)"
    and "coroutine s = Awaiting a \<Longrightarrow> pred_option shape (await_failed a closed s)"
    and "coroutine s = Finished failed \<Longrightarrow> shape (s\<lparr>coroutine := Over, handler := H_completion failed\<rparr>)"
    and "reading s \<Longrightarrow> shape (s\<lparr>reading := False, handler := H_data bs\<rparr>)"
    and "reading s \<Longrightarrow> shape (s\<lparr>reading := False, handler := H_read_error report\<rparr>)"
    and "ws_status s = CONNECTED \<Longrightarrow> coroutine s \<noteq> No_session \<Longrightarrow> shape (s\<lparr>writing := True\<rparr>)"
    and "shape (s\<lparr>writing := False\<rparr>)"
    and "coroutine s \<noteq> No_session \<Longrightarrow> shape (s\<lparr>writing := False, handler := H_write_error report\<rparr>)"
    and "coroutine s \<noteq> No_session \<Longrightarrow> shape (s\<lparr>close_handshake := False, handler := H_close_done report\<rparr>)"
    and "unopened s \<Longrightarrow> shape (open_impl s)"
proof -
  show "coroutine s = Awaiting a \<Longrightarrow> shape (resumed a s)"
    using assms by (cases a) (auto simp: shape_defs)
qed (use assms in \<open>auto simp: shape_defs ws_ops\<close>)

lemma shapeD:
  assumes "shape s"
  shows "in_coroutine (handler s) \<Longrightarrow> coroutine s = In_handler"
    and "coroutine s = In_handler \<Longrightarrow> in_coroutine (handler s)"
    and "call_of (handler s) = Some c \<Longrightarrow> after_of (handler s) = Some k \<Longrightarrow> ws_goes_with c k"
    and "read_started s \<Longrightarrow> coroutine s = Finished False \<or> coroutine s = Over"
    and "reading s \<Longrightarrow> read_started s" and "reading s \<Longrightarrow> \<not> in_read (handler s)" and "reading s \<Longrightarrow> handler s \<noteq> H_release"
    and "reading s \<Longrightarrow> after_of (handler s) \<noteq> Some A_release"
    and "in_read (handler s) \<Longrightarrow> read_started s"
    and "in_completion (handler s) \<Longrightarrow> coroutine s = Over" and "in_completion (handler s) \<Longrightarrow> \<not> read_started s"
    and "handler s = H_completion f \<Longrightarrow> coroutine s = Over" and "handler s = H_completion True \<Longrightarrow> \<not> read_started s"
    and "handler s = H_release \<or> after_of (handler s) = Some A_release \<Longrightarrow> coroutine s = Over \<or> read_started s"
    and "after_of (handler s) \<noteq> Some A_late_error" and "handler s \<noteq> H_check (On_data bs) k"
  using assms unfolding shape_def shape_of_def by blast+

lemma shape_no_session:
  assumes "shape s" "coroutine s = No_session"
  shows "handler s = H_none" "\<not> session_started s" "\<not> reading s" "\<not> writing s"
  using assms by (simp_all add: shape_defs)

lemma shape_unopened: "shape s \<Longrightarrow> unopened s \<Longrightarrow> coroutine s = No_session"
  by (simp add: shape_def shape_of_def)

lemma closes_connected: "closes s \<Longrightarrow> ws_status s = CONNECTED \<Longrightarrow> coroutine s \<noteq> No_session"
  by (auto simp: closes_defs)

lemma closes_handshake: "closes s \<Longrightarrow> close_handshake s \<Longrightarrow> coroutine s \<noteq> No_session"
  by (auto simp: closes_defs)

lemma moved_shape:
  assumes "shape s" "closes s"
  shows "pred_option shape (ws_moved m s)"
proof -
  have fresh: "unopened s \<Longrightarrow> handler s = H_none"
    using shape_no_session(1) [OF assms(1) shape_unopened [OF assms(1)]] by blast
  have writing: "writing s \<Longrightarrow> coroutine s \<noteq> No_session" using shape_no_session [OF assms(1)] by blast
  show ?thesis
  proof (cases m)
    case Closes
    then show ?thesis by (auto simp: close_swap_def intro!: shape_frame [OF assms(1)] assms)
  next
    case Posts_close
    then show ?thesis by (auto simp: close_post_def intro!: shape_frame [OF assms(1)] assms split: ws_closing.split)
  next
    case Closes_inside
    then show ?thesis by (auto intro!: shape_frame [OF assms(1)] split: ws_handler.split)
  next
    case Registers
    then show ?thesis by (auto simp: set_on_buffer_released_def intro!: shape_frame [OF assms(1)])
  next
    case Resumes
    then show ?thesis using shape_idle(1) [OF assms(1)] by (auto simp: idle_do_def split: ws_coroutine.split)
  next
    case (Await_fails c)
    then show ?thesis using shape_idle(2) [OF assms(1)] by (auto split: ws_coroutine.split)
  next
    case Completes
    then show ?thesis using shape_idle(3) [OF assms(1)] by (auto simp: idle_do_def split: ws_coroutine.split)
  next
    case Runs
    then show ?thesis using runs_shape [OF assms(1)] by simp
  next
    case Runs_close
    then show ?thesis by (auto simp: run_close_def intro!: shape_frame [OF assms(1)] split: ws_closing.split)
  next
    case Writes
    then show ?thesis using shape_idle(6) [OF assms(1)] closes_connected [OF assms(2)] by (simp add: idle_do_def)
  next
    case (Write_fails r)
    then show ?thesis using shape_idle(8) [OF assms(1)] writing by (simp add: idle_do_def)
  next
    case (Close_ends r)
    then show ?thesis using shape_idle(9) [OF assms(1)] closes_handshake [OF assms(2)] by (simp add: idle_do_def)
  next
    case Returns
    have "shape (s\<lparr>handler := H_after k\<rparr>)" if "handler s = H_in c k" for c k
      using assms(1) that by (auto simp: shape_defs)
    with Returns show ?thesis by (auto split: ws_handler.split)
  next
    case Throws
    have "shape (callback_throws c k s)" if "handler s = H_in c k" for c k
      using assms(1) that by (auto simp: callback_throws_def shape_defs)
    with Throws show ?thesis by (auto split: ws_handler.split)
  qed (auto simp: idle_do_def fresh intro!: shape_frame [OF assms(1)] shape_idle [OF assms(1)])
qed

section \<open>Closing\<close>

lemma closes_init: "closes (ws_init shared tls pending)"
  by (simp add: closes_defs ws_init_def)

lemma close_closing:
  "(ws_status (close s), closing (close s)) =
     (if ws_status s = CONNECTING \<or> ws_status s = CONNECTED then (DISCONNECTING, Close_posted (ws_status s)) else (ws_status s, closing s))"
  by (cases "ws_status s") (simp_all add: close_def close_swap_def close_post_def less_eq_ws_status_def)

lemma closes_frame:
  assumes "closes s" "handler t = handler s" "coroutine t = coroutine s" "ws_status t = ws_status s" "closing t = closing s"
    "close_handshake t = close_handshake s"
  shows "closes t"
  using assms(1) unfolding closes_def by (simp only: assms(2-6))

text \<open>A handler that goes on to one outside the closing handshake, with the status as it was or DISCONNECTED.\<close>

lemma closes_goes_on:
  assumes "closes s" "in_close h \<longrightarrow> in_close (handler s)" "coroutine t = coroutine s" "closing t = closing s"
    "close_handshake t = close_handshake s" "handler t = h" "after_of h = Some A_write_error \<longrightarrow> after_of (handler s) = Some A_write_error"
    "ws_status t = ws_status s \<or> ws_status t = DISCONNECTED" "before_connect h (coroutine s) \<longrightarrow> before_connect (handler s) (coroutine s)"
  shows "closes t"
  using assms by (auto simp: closes_def closes_of_def)

text \<open>\<open>close()\<close> called by a handler.\<close>

definition past_connect :: "ws \<Rightarrow> bool" where
  "past_connect s \<longleftrightarrow> \<not> before_connect (handler s) (coroutine s)"

lemma closes_close:
  assumes "closes s" "past_connect s"
  shows "closes (close s)"
  using assms close_closing [of s] by (cases "ws_status s") (auto simp: closes_defs past_connect_def)

lemma after_of_class:
  assumes "after_of h = Some k"
  shows "in_read h \<longleftrightarrow> k = A_read_error \<or> k = A_data" "in_completion h \<longleftrightarrow> k = A_session_error"
    "in_close h \<longleftrightarrow> k = A_close_error \<or> k = A_end" "in_coroutine h \<longleftrightarrow> k = A_connected"
  using assms by (cases h; auto simp: in_coroutine_def)+

lemma callback_past_connect:
  assumes "shape s" "closes s" "after_of (handler s) = Some k"
  shows "past_connect s"
proof -
  note kind = after_of_class [OF assms(3)] and d = shapeD [OF assms(1)]
  have h: "\<not> connecting (handler s)" using assms(3) by (cases "handler s") simp_all
  have "coroutine s = In_handler \<or> coroutine s = Over \<or> read_started s \<or> in_close (handler s) \<or> k = A_write_error"
  proof (cases k)
    case A_connected
    then show ?thesis using d(1) kind(4) by blast
  next
    case A_session_error
    then show ?thesis using d(10) kind(2) by blast
  next
    case A_release
    then show ?thesis using d(14) assms(3) by blast
  qed (use kind d(9,15) assms(3) in blast)+
  moreover have "past_connect s" if "coroutine s = In_handler \<or> coroutine s = Over \<or> read_started s"
    using that d(4) h by (auto simp: past_connect_def before_connect_def)
  moreover have "past_connect s" if "in_close (handler s) \<or> k = A_write_error"
    using that assms(2,3) by (auto simp: closes_def closes_of_def past_connect_def)
  ultimately show ?thesis by blast
qed

lemma closes_handler:
  assumes "closes s" "past_connect s" "\<not> in_close h" "\<not> before_connect h (coroutine s)"
  shows "closes (s\<lparr>handler := h\<rparr>)"
  using assms by (auto simp: closes_defs)

lemma after_closes:
  assumes "closes s" "shape s" "handler s = H_after k"
  shows "closes (after_callback k s)"
proof -
  have past: "past_connect s" using callback_past_connect [OF assms(2,1)] assms(3) by simp
  then have resumed: "\<not> not_resumed (coroutine s)" by (simp add: past_connect_def before_connect_def)
  have closed: "closes ((close s)\<lparr>handler := h\<rparr>)" if "h = H_release \<or> h = H_none" for h
  proof (rule closes_handler [OF closes_close [OF assms(1) past]])
    show "past_connect (close s)" using past by (simp add: past_connect_def)
    show "\<not> in_close h" "\<not> before_connect h (coroutine (close s))" using that resumed by (auto simp: before_connect_def)
  qed
  have goes: "closes (s\<lparr>handler := h\<rparr>)" if "\<not> in_close h" "\<not> connecting h" for h
    by (rule closes_handler [OF assms(1) past that(1)]) (use resumed that(2) in \<open>simp add: before_connect_def\<close>)
  have reads: "closes (s\<lparr>reading := True, handler := H_none\<rparr>)"
    using assms(1) by (rule closes_goes_on [where h = H_none]) (simp_all add: before_connect_def)
  have connected: "closes (after_connected s)" if "k = A_connected"
    using assms(1,3) that resumed by (auto simp: closes_defs after_connected_def)
  have store: "closes (s\<lparr>handler := H_close_store\<rparr>)" if "k = A_close_error"
    by (rule closes_goes_on [OF assms(1), where h = H_close_store]) (use assms(3) that in \<open>simp_all add: before_connect_def\<close>)
  show ?thesis
  proof (cases k)
    case A_connected
    then show ?thesis using connected by simp
  next
    case A_late_error
    then show ?thesis using shapeD(15) [OF assms(2)] assms(3) by simp
  next
    case A_close_error
    then show ?thesis using store by simp
  qed (simp_all add: goes closed reads)
qed

lemma runs_closes:
  assumes "closes s" "shape s"
  shows "pred_option closes (handler_runs (handler s) s)"
proof (cases "handler s")
  case (H_after k)
  then show ?thesis using after_closes [OF assms] by simp
next
  case (H_completion f)
  then have "\<not> f" if "read_started s" using that assms(2) by (simp add: shape_defs)
  with H_completion show ?thesis using assms(1) by (auto simp: closes_defs completion_def Let_def)
next
  case H_connect
  then have "coroutine s = In_handler" using assms(2) by (simp add: shape_defs)
  with H_connect show ?thesis using assms(1) by (auto simp: closes_defs connect_def)
qed (use assms(1) in \<open>auto simp: closes_defs begin_session_def abort_session_def shaken_def connect_def completed_def
    read_error_def read_status_def write_error_def close_done_def read_data_def Let_def\<close>)

lemma closes_open:
  assumes "closes s" "shape s" "unopened s"
  shows "closes (open_impl s)"
proof -
  have "coroutine s = No_session" "handler s = H_none"
    using shape_unopened [OF assms(2,3)] shape_no_session(1) [OF assms(2)] by blast+
  with assms(1) show ?thesis by (auto simp: closes_defs open_impl_def Let_def)
qed

lemma closes_idle:
  assumes "closes s" "handler s = H_none"
  shows "coroutine s = Awaiting a \<Longrightarrow> closes (resumed a s)"
    and "coroutine s = Awaiting a \<Longrightarrow> pred_option closes (await_failed a closed s)"
    and "coroutine s = Finished failed \<Longrightarrow> closes (s\<lparr>coroutine := Over, handler := H_completion failed\<rparr>)"
    and "closes (s\<lparr>reading := False, handler := H_data bs\<rparr>)"
    and "closes (s\<lparr>reading := False, handler := H_read_error report\<rparr>)"
    and "closes (s\<lparr>writing := w\<rparr>)"
    and "closes (s\<lparr>writing := False, handler := H_write_error report\<rparr>)"
    and "close_handshake s \<Longrightarrow> closes (s\<lparr>close_handshake := False, handler := H_close_done report\<rparr>)"
    and "pred_option closes (run_close s)"
proof -
  show "coroutine s = Awaiting a \<Longrightarrow> closes (resumed a s)"
    using assms by (cases a) (auto simp: closes_defs)
qed (use assms in \<open>auto simp: closes_defs await_failed_def run_close_def split: ws_closing.split\<close>)

lemma moved_closes:
  assumes "closes s" "shape s"
  shows "pred_option closes (ws_moved m s)"
proof (cases m)
  case Opens
  then show ?thesis using closes_open [OF assms] by simp
next
  case Closes
  have "session_started s \<Longrightarrow> coroutine s \<noteq> No_session" using shape_no_session(2) [OF assms(2)] by blast
  with Closes show ?thesis using assms(1)
    by (cases "ws_status s") (auto simp: closes_defs close_swap_def less_eq_ws_status_def)
next
  case Posts_close
  have "closes (s\<lparr>closing := Close_posted was\<rparr>)" if "closing s = Closing was" for was
    using assms(1) that by (auto simp: closes_def closes_of_def)
  with Posts_close show ?thesis using assms(1) by (simp add: close_post_def split: ws_closing.split)
next
  case Closes_inside
  have "closes (close s)" if "handler s = H_in c k" for c k
    using closes_close [OF assms(1) callback_past_connect [OF assms(2,1), of k]] that by simp
  with Closes_inside show ?thesis by (auto split: ws_handler.split)
next
  case Registers
  then show ?thesis by (auto simp: set_on_buffer_released_def intro!: closes_frame [OF assms(1)])
next
  case Resumes
  then show ?thesis using closes_idle(1) [OF assms(1)] by (auto simp: idle_do_def split: ws_coroutine.split)
next
  case (Await_fails c)
  then show ?thesis using closes_idle(2) [OF assms(1)] by (auto split: ws_coroutine.split)
next
  case Completes
  then show ?thesis using closes_idle(3) [OF assms(1)] by (auto simp: idle_do_def split: ws_coroutine.split)
next
  case Runs
  then show ?thesis using runs_closes [OF assms] by simp
next
  case Runs_close
  then show ?thesis using closes_idle(9) [OF assms(1)] by simp
next
  case Returns
  have "closes (s\<lparr>handler := H_after k\<rparr>)" if "handler s = H_in c k" for c k
    by (rule closes_goes_on [OF assms(1), where h = "H_after k"]) (use that in \<open>auto simp: before_connect_def\<close>)
  with Returns show ?thesis by (auto split: ws_handler.split)
next
  case Throws
  have "closes (callback_throws c k s)" if "handler s = H_in c k" for c k
    using assms(1) that by (auto simp: closes_defs callback_throws_def)
  with Throws show ?thesis by (auto split: ws_handler.split)
qed (auto simp: idle_do_def intro!: closes_frame [OF assms(1)] closes_idle [OF assms(1)])

section \<open>The status only moves forward\<close>

definition forward :: "ws \<Rightarrow> ws \<Rightarrow> bool" where
  "forward s t \<longleftrightarrow> status_rank (ws_status s) \<le> status_rank (ws_status t)"

lemma forward_close: "status_rank (ws_status s) \<le> status_rank (ws_status (close s))"
  by (cases "ws_status s") (simp_all add: close_def close_swap_def close_post_def less_eq_ws_status_def)

lemma status_rank_top: "status_rank x \<le> 3"
  by (cases x) simp_all

lemma runs_forward: "pred_option (forward s) (handler_runs (handler s) s)"
proof (cases "handler s")
  case (H_after k)
  then show ?thesis
    by (cases k) (auto simp: forward_def after_connected_def forward_close)
qed (auto simp: forward_def ws_ops status_rank_top)

lemma moved_forward:
  assumes "shape s" "session_started s"
  shows "pred_option (forward s) (ws_moved m s)"
proof (cases m)
  case Opens
  have "\<not> unopened s" using assms(2) shape_no_session(2) [OF assms(1) shape_unopened [OF assms(1)]] by blast
  with Opens show ?thesis by simp
next
  case Closes
  then show ?thesis by (cases "ws_status s") (auto simp: forward_def close_swap_def less_eq_ws_status_def)
next
  case Posts_close
  then show ?thesis by (auto simp: forward_def close_post_def split: ws_closing.split)
next
  case Closes_inside
  then show ?thesis by (auto simp: forward_def forward_close split: ws_handler.split)
next
  case Registers
  then show ?thesis by (simp add: forward_def set_on_buffer_released_def)
next
  case Resumes
  have "forward s (resumed a s)" for a by (cases a) (simp_all add: forward_def)
  with Resumes show ?thesis by (simp add: idle_do_def split: ws_coroutine.split)
next
  case Runs
  then show ?thesis using runs_forward by simp
qed (auto simp: forward_def idle_do_def await_failed_def run_close_def callback_throws_def
    split: ws_coroutine.split ws_handler.split ws_closing.split)

section \<open>The callbacks of a session\<close>

text \<open>What a listener may see: at most one \<open>onConnected\<close>, data only after it, neither after \<open>onDisconnected\<close>.\<close>

datatype ws_phase = Before | Live | Gone

fun phase_next :: "ws_phase \<Rightarrow> ws_event \<Rightarrow> ws_phase option" where
  "phase_next Before (Calls On_connected) = Some Live"
| "phase_next p (Calls On_connected) = None"
| "phase_next Live (Calls (On_data bs)) = Some Live"
| "phase_next p (Calls (On_data bs)) = None"
| "phase_next p (Calls On_disconnected) = Some Gone"
| "phase_next p e = Some p"

definition phase :: "ws_event list \<Rightarrow> ws_phase option" where
  "phase tr = fold (\<lambda>e p. Option.bind p (\<lambda>q. phase_next q e)) tr (Some Before)"

lemma phase_append [simp]: "phase (tr @ [e]) = Option.bind (phase tr) (\<lambda>q. phase_next q e)"
  by (simp add: phase_def)

lemma phase_Nil [simp]: "phase [] = Some Before"
  by (simp add: phase_def)

text \<open>The handlers that run before \<open>onConnected\<close>, and those that run once the status is DISCONNECTED.\<close>

fun unconnected :: "ws_handler \<Rightarrow> bool" where
  "unconnected H_begin = True"
| "unconnected H_abort = True"
| "unconnected H_shaken = True"
| "unconnected H_connect = True"
| "unconnected (H_check c k) = (c = On_connected)"
| "unconnected (H_about c k) = (c = On_connected)"
| "unconnected _ = False"

fun ends_session :: "ws_handler \<Rightarrow> bool" where
  "ends_session (H_check c k) = (c = On_disconnected \<or> k = A_session_error)"
| "ends_session (H_about c k) = (c = On_disconnected \<or> k = A_session_error)"
| "ends_session (H_in c k) = (k = A_session_error)"
| "ends_session (H_after k) = (k = A_session_error)"
| "ends_session (H_completed f p) = True"
| "ends_session _ = False"

definition talk_of :: "ws_handler \<Rightarrow> ws_coroutine \<Rightarrow> ws_status \<Rightarrow> bool \<Rightarrow> bool \<Rightarrow> ws_phase option \<Rightarrow> bool" where
  "talk_of h co st rstarted det p \<longleftrightarrow> p \<noteq> None
     \<and> (co = No_session \<or> (\<exists>a. co = Awaiting a) \<or> unconnected h \<longrightarrow> p = Some Before)
     \<and> (h = H_in On_connected A_connected \<longrightarrow> p = Some Live)
     \<and> (h = H_after A_connected \<longrightarrow> p = Some Live \<or> det)
     \<and> (rstarted \<longrightarrow> p \<noteq> Some Before)
     \<and> (p = Some Gone \<longrightarrow> st = DISCONNECTED)
     \<and> (\<forall>bs k. h = H_about (On_data bs) k \<longrightarrow> p = Some Live)
     \<and> (ends_session h \<longrightarrow> st = DISCONNECTED)"

definition talk :: "ws \<Rightarrow> bool" where
  "talk s \<longleftrightarrow> talk_of (handler s) (coroutine s) (ws_status s) (read_started s) (detached s) (phase (trace s))"

lemmas talk_defs = talk_def talk_of_def

lemma talk_init: "talk (ws_init shared tls pending)"
  by (simp add: talk_defs ws_init_def)

lemma close_disconnected [simp]: "ws_status s = DISCONNECTED \<Longrightarrow> ws_status (close s) = DISCONNECTED"
  by (simp add: close_def close_swap_def less_eq_ws_status_def)

lemma release_phase [simp]: "phase (trace (release_buffer s)) = phase (trace s)"
  by (cases "phase (trace s)") (simp_all add: release_buffer_def Let_def)

lemma shape_after:
  assumes "shape s"
  shows "handler s = H_after A_late_error \<Longrightarrow> False"
    and "handler s = H_after A_data \<Longrightarrow> read_started s"
  using assms by (auto simp: shape_defs)

lemma talk_after: "talk s \<Longrightarrow> shape s \<Longrightarrow> handler s = H_after k \<Longrightarrow> talk (after_callback k s)"
  by (cases k) (auto simp: talk_defs after_connected_def dest: shape_after)

text \<open>What a running handler knows from \<^const>\<open>shape\<close>.\<close>

lemma shape_calls:
  assumes "shape s" "handler s = H_check c k \<or> handler s = H_about c k \<or> handler s = H_in c k"
  shows "ws_goes_with c k" and "c = On_connected \<Longrightarrow> coroutine s = In_handler" and "c = On_data bs \<Longrightarrow> read_started s"
proof -
  have h: "call_of (handler s) = Some c" "after_of (handler s) = Some k" using assms(2) by auto
  show goes: "ws_goes_with c k" using shapeD(3) [OF assms(1)] h by blast
  show "coroutine s = In_handler" if "c = On_connected"
    using shapeD(1) [OF assms(1)] goes that h by (simp add: in_coroutine_def)
  show "read_started s" if "c = On_data bs"
    using shapeD(9) [OF assms(1)] after_of_class(1) [OF h(2)] goes that by simp
qed

lemma talk_about:
  assumes "talk s" "shape s" "handler s = H_about c k" "closes s"
  shows "talk (happens (Calls c) (s\<lparr>handler := H_in c k\<rparr>))"
proof -
  have goes: "ws_goes_with c k" using shape_calls(1) [OF assms(2)] assms(3) by blast
  obtain p where p: "phase (trace s) = Some p" using assms(1) by (auto simp: talk_defs)
  show ?thesis
  proof (cases c)
    case On_connected
    then have "coroutine s = In_handler" using shape_calls(2) [OF assms(2)] assms(3) by blast
    with On_connected show ?thesis using assms(1,3) goes by (auto simp: talk_defs)
  next
    case On_disconnected
    then have "\<not> not_resumed (coroutine s)"
      using callback_past_connect [OF assms(2) assms(4), of k] assms(3) by (simp add: past_connect_def before_connect_def)
    then have "coroutine s \<noteq> No_session" "coroutine s \<noteq> Awaiting a" for a by auto
    with On_disconnected show ?thesis using assms(1,3) goes p by (cases p) (auto simp: talk_defs)
  next
    case (On_data bs)
    then show ?thesis using assms(1,3) goes by (auto simp: talk_defs)
  next
    case On_error
    then show ?thesis using assms(1,3) goes p by (cases p) (auto simp: talk_defs)
  qed
qed

lemma talk_read_data:
  assumes "talk s" "shape s" "handler s = H_data bs"
  shows "talk (read_data bs s)"
proof -
  have "read_started s" using shapeD(9) [OF assms(2)] assms(3) by simp
  moreover obtain p where "phase (trace s) = Some p" using assms(1) by (auto simp: talk_defs)
  ultimately show ?thesis using assms(1,3) by (cases p) (auto simp: talk_defs read_data_def)
qed

lemma runs_talk:
  assumes "talk s" "shape s" "closes s"
  shows "pred_option talk (handler_runs (handler s) s)"
proof (cases "handler s")
  case (H_after k)
  then show ?thesis using talk_after [OF assms(1,2)] by simp
next
  case (H_about c k)
  then show ?thesis using talk_about [OF assms(1,2) _ assms(3)] by simp
next
  case (H_data bs)
  then show ?thesis using talk_read_data [OF assms(1,2)] by simp
next
  case (H_check c k)
  then have "c \<noteq> On_data bs" for bs using assms(2) by (auto simp: shape_def shape_of_def)
  then show ?thesis using H_check assms(1) shape_calls(1) [OF assms(2), of c k] by (cases c) (auto simp: talk_defs)
next
  case (H_completion f)
  then have "\<not> f" if "read_started s" using that assms(2) by (simp add: shape_defs)
  with H_completion show ?thesis using assms(1) by (auto simp: talk_defs completion_def Let_def)
qed (use assms(1) in \<open>auto simp: talk_defs begin_session_def abort_session_def shaken_def connect_def completed_def
    read_error_def read_status_def write_error_def close_done_def Let_def\<close>)

lemma talk_frame:
  assumes "talk s" "handler t = handler s" "coroutine t = coroutine s" "read_started t = read_started s"
    "detached s \<longrightarrow> detached t" "phase (trace t) = phase (trace s)" "ws_status s = DISCONNECTED \<longrightarrow> ws_status t = DISCONNECTED"
  shows "talk t"
proof -
  have "talk_of (handler s) (coroutine s) (ws_status t) (read_started s) (detached t) (phase (trace s))"
    using assms(1,5,7) unfolding talk_defs by argo
  then show ?thesis unfolding talk_def by (simp only: assms(2-4,6))
qed

lemma talk_idle:
  assumes "talk s" "shape s" "handler s = H_none"
  shows "coroutine s = Awaiting a \<Longrightarrow> talk (resumed a s)"
    and "coroutine s = Awaiting a \<Longrightarrow> pred_option talk (await_failed a closed s)"
    and "coroutine s = Finished failed \<Longrightarrow> talk (s\<lparr>coroutine := Over, handler := H_completion failed\<rparr>)"
    and "talk (s\<lparr>reading := False, handler := H_data bs\<rparr>)"
    and "talk (s\<lparr>reading := False, handler := H_read_error report\<rparr>)"
    and "talk (s\<lparr>writing := w\<rparr>)"
    and "talk (s\<lparr>writing := False, handler := H_write_error report\<rparr>)"
    and "talk (s\<lparr>close_handshake := False, handler := H_close_done report\<rparr>)"
proof -
  show "coroutine s = Awaiting a \<Longrightarrow> talk (resumed a s)"
    using assms by (cases a) (auto simp: talk_defs)
qed (use assms in \<open>auto simp: talk_defs await_failed_def\<close>)

lemma talk_open:
  assumes "talk s" "shape s" "unopened s"
  shows "talk (open_impl s)"
proof -
  have "coroutine s = No_session" "handler s = H_none" "\<not> read_started s"
    using shape_unopened [OF assms(2,3)] shape_no_session [OF assms(2)] assms(2) by (auto simp: shape_def shape_of_def)
  with assms(1) show ?thesis by (auto simp: talk_defs open_impl_def Let_def)
qed

lemma moved_talk:
  assumes "talk s" "shape s" "closes s"
  shows "pred_option talk (ws_moved m s)"
proof (cases m)
  case Opens
  then show ?thesis using talk_open [OF assms(1,2)] by simp
next
  case Closes
  then show ?thesis
    by (auto simp: close_swap_def less_eq_ws_status_def intro!: talk_frame [OF assms(1)] assms)
next
  case Posts_close
  then show ?thesis by (auto simp: close_post_def intro!: talk_frame [OF assms(1)] assms split: ws_closing.split)
next
  case Closes_inside
  then show ?thesis by (auto intro!: talk_frame [OF assms(1)] split: ws_handler.split)
next
  case Registers
  have "phase (trace (happens Handed_over s)) = phase (trace s)" by (cases "phase (trace s)") simp_all
  with Registers show ?thesis by (auto simp: set_on_buffer_released_def simp del: happens_frame(16) intro!: talk_frame [OF assms(1)])
next
  case Resumes
  then show ?thesis using talk_idle(1) [OF assms(1,2)] by (auto simp: idle_do_def split: ws_coroutine.split)
next
  case (Await_fails c)
  then show ?thesis using talk_idle(2) [OF assms(1,2)] by (auto split: ws_coroutine.split)
next
  case Completes
  then show ?thesis using talk_idle(3) [OF assms(1,2)] by (auto simp: idle_do_def split: ws_coroutine.split)
next
  case Runs
  then show ?thesis using runs_talk [OF assms] by simp
next
  case Runs_close
  then show ?thesis by (auto simp: run_close_def intro!: talk_frame [OF assms(1)] split: ws_closing.split)
next
  case Returns
  have "talk (s\<lparr>handler := H_after k\<rparr>)" if h: "handler s = H_in c k" for c k
    using assms(1) h shape_calls(1,2) [OF assms(2), of c k] by (cases c) (auto simp: talk_defs)
  with Returns show ?thesis by (auto split: ws_handler.split)
next
  case Throws
  have "talk (callback_throws c k s)" if h: "handler s = H_in c k" for c k
  proof -
    obtain p where "phase (trace s) = Some p" using assms(1) by (auto simp: talk_defs)
    then show ?thesis using assms(1) h by (cases p) (auto simp: talk_defs callback_throws_def)
  qed
  with Throws show ?thesis by (auto split: ws_handler.split)
qed (auto simp: idle_do_def intro!: talk_frame [OF assms(1)] talk_idle [OF assms(1,2)])

end
