(* ===== verification/Ws_Session_Props.thy ===== *)
theory Ws_Session_Props
  imports Ws_Session_Safety
begin

text \<open>
  What a user of one WebSocket session can rely on, in every reachable state of \<^theory_text>\<open>Ws_Session\<close>: the order of the
  callbacks, the number of \<open>onDisconnected\<close> calls, the single hand-over of the read buffer and what is left when
  nothing can run any more; and two executions in which the code does not do what it means to.
\<close>

section \<open>How often onDisconnected is called\<close>

definition disconnects :: "ws_event list \<Rightarrow> nat" where
  "disconnects tr = length (filter (\<lambda>e. e = Calls On_disconnected) tr)"

lemma disconnects_append [simp]:
  "disconnects (tr @ [e]) = disconnects tr + (if e = Calls On_disconnected then 1 else 0)" "disconnects [] = 0"
  by (simp_all add: disconnects_def)

text \<open>The session itself, and its closing handshake, may each still call it.\<close>

fun about_release :: "ws_handler \<Rightarrow> bool" where
  "about_release (H_check c k) = (k = A_release)"
| "about_release (H_about c k) = (k = A_release)"
| "about_release _ = False"

fun about_close :: "ws_handler \<Rightarrow> bool" where
  "about_close (H_close_done r) = True"
| "about_close H_close_store = True"
| "about_close (H_check c k) = (k = A_close_error \<or> k = A_end)"
| "about_close (H_about c k) = (k = A_close_error \<or> k = A_end)"
| "about_close (H_in c k) = (k = A_close_error)"
| "about_close (H_after k) = (k = A_close_error)"
| "about_close _ = False"

fun is_finished :: "ws_coroutine \<Rightarrow> bool" where
  "is_finished (Finished f) = True"
| "is_finished _ = False"

fun is_completion :: "ws_handler \<Rightarrow> bool" where
  "is_completion (H_completion f) = True"
| "is_completion _ = False"

definition session_pending :: "ws_handler \<Rightarrow> ws_coroutine \<Rightarrow> bool \<Rightarrow> bool \<Rightarrow> bool" where
  "session_pending h co rstarted rd \<longleftrightarrow> not_resumed co \<or> co = In_handler \<or> (is_finished co \<or> is_completion h) \<and> \<not> rstarted
     \<or> rd \<or> in_read h \<or> in_completion h \<or> about_release h"

definition close_pending :: "ws_handler \<Rightarrow> ws_closing \<Rightarrow> bool \<Rightarrow> bool" where
  "close_pending h cl ch \<longleftrightarrow> cl \<noteq> Close_ran CONNECTED \<or> ch \<or> about_close h"

definition potential :: "ws \<Rightarrow> nat" where
  "potential s = disconnects (trace s)
     + of_bool (session_pending (handler s) (coroutine s) (read_started s) (reading s))
     + of_bool (close_pending (handler s) (closing s) (close_handshake s))"

lemmas potential_defs = potential_def session_pending_def close_pending_def

lemma potential_le:
  assumes "disconnects (trace t) \<le> disconnects (trace s)"
    and "session_pending (handler t) (coroutine t) (read_started t) (reading t)
      \<Longrightarrow> session_pending (handler s) (coroutine s) (read_started s) (reading s)"
    and "close_pending (handler t) (closing t) (close_handshake t) \<Longrightarrow> close_pending (handler s) (closing s) (close_handshake s)"
  shows "potential t \<le> potential s"
  using assms unfolding potential_def by (intro add_mono) auto

lemma release_disconnects [simp]: "disconnects (trace (release_buffer s)) = disconnects (trace s)"
  by (simp add: release_buffer_def Let_def)

lemma close_of_connected: "closes s \<Longrightarrow> closing s = Close_ran w \<Longrightarrow> closing (close s) = Close_ran w"
  using close_closing [of s] by (auto simp: closes_def closes_of_def split: if_splits)

lemma after_potential:
  assumes "shape s" "closes s" "handler s = H_after k"
  shows "potential (after_callback k s) \<le> potential s"
proof (cases k)
  case A_connected
  have "coroutine s = In_handler" using shapeD(1) [OF assms(1)] A_connected assms(3) by (simp add: in_coroutine_def)
  then show ?thesis using A_connected assms(3)
    by (intro potential_le) (auto simp: after_connected_def session_pending_def close_pending_def split: if_splits)
next
  case A_session_error
  then show ?thesis using assms(3) by (intro potential_le) (auto simp: session_pending_def close_pending_def)
next
  case A_late_error
  then show ?thesis using shapeD(15) [OF assms(1)] assms(3) by simp
next
  case A_read_error
  then show ?thesis using assms(3) close_of_connected [OF assms(2)]
    by (intro potential_le) (auto simp: session_pending_def close_pending_def)
next
  case A_write_error
  then show ?thesis using assms(3) close_of_connected [OF assms(2)]
    by (intro potential_le) (auto simp: session_pending_def close_pending_def)
qed (use assms(3) in \<open>intro potential_le; auto simp: session_pending_def close_pending_def\<close>)+

lemma about_potential:
  assumes "shape s" "closes s" "handler s = H_about c k"
  shows "potential (happens (Calls c) (s\<lparr>handler := H_in c k\<rparr>)) \<le> potential s"
proof (cases "c = On_disconnected")
  case True
  then have "k = A_release \<or> k = A_end" using shape_calls(1) [OF assms(1)] assms(3) by auto
  then show ?thesis
  proof
    assume k: "k = A_release"
    then have "coroutine s = Over \<or> read_started s" using shapeD(14) [OF assms(1)] assms(3) by simp
    moreover have "\<not> reading s" using shapeD(8) [OF assms(1)] assms(3) k by auto
    moreover have "read_started s \<Longrightarrow> \<not> not_resumed (coroutine s) \<and> coroutine s \<noteq> In_handler"
      using shapeD(4) [OF assms(1)] by auto
    ultimately show ?thesis using True assms(3) k
      by (auto simp: potential_defs)
  next
    assume k: "k = A_end"
    then have "closing s = Close_ran CONNECTED" "\<not> close_handshake s"
      using assms(2,3) by (simp_all add: closes_def closes_of_def)
    then show ?thesis using True assms(3) k by (auto simp: potential_defs)
  qed
next
  case False
  then show ?thesis using assms(3) shape_calls(1) [OF assms(1), of c k]
    by (intro potential_le) (auto simp: session_pending_def close_pending_def)
qed

lemma completion_cases:
  assumes "shape s" "handler s = H_completion f"
  shows "completion f s = (if read_started s then s\<lparr>handler := H_none\<rparr>
     else s\<lparr>ws_status := DISCONNECTED, handler := H_completed f (ws_status s)\<rparr>)"
  using shapeD(13) [OF assms(1)] assms(2) by (cases f) (auto simp: completion_def)

lemma runs_potential:
  assumes "shape s" "closes s"
  shows "pred_option (\<lambda>t. potential t \<le> potential s) (handler_runs (handler s) s)"
proof (cases "handler s")
  case (H_after k)
  then show ?thesis using after_potential [OF assms] by simp
next
  case (H_about c k)
  then show ?thesis using about_potential [OF assms] by simp
next
  case (H_completion f)
  have "potential (s\<lparr>handler := H_none\<rparr>) \<le> potential s" if "read_started s"
    using H_completion that by (intro potential_le) (auto simp: session_pending_def close_pending_def)
  moreover have "potential (s\<lparr>ws_status := DISCONNECTED, handler := H_completed f w\<rparr>) \<le> potential s" if "\<not> read_started s" for w
    using H_completion that by (intro potential_le) (simp_all add: session_pending_def close_pending_def)
  ultimately show ?thesis using H_completion completion_cases [OF assms(1) H_completion] by simp
next
  case (H_check c k)
  then have "potential (s\<lparr>handler := H_after k\<rparr>) \<le> potential s" "potential (s\<lparr>handler := H_about c k\<rparr>) \<le> potential s"
    by (auto intro!: potential_le simp: session_pending_def close_pending_def)
  with H_check show ?thesis by simp
next
  case H_begin
  then show ?thesis using shapeD(1) [OF assms(1)]
    by (auto intro!: potential_le simp: begin_session_def session_pending_def close_pending_def in_coroutine_def)
next
  case H_abort
  then show ?thesis using shapeD(1) [OF assms(1)]
    by (auto intro!: potential_le simp: abort_session_def session_pending_def close_pending_def in_coroutine_def Let_def)
next
  case H_connect
  then show ?thesis using shapeD(1) [OF assms(1)]
    by (auto intro!: potential_le simp: connect_def session_pending_def close_pending_def in_coroutine_def)
qed (auto intro!: potential_le simp: shaken_def completed_def read_data_def session_pending_def close_pending_def
    read_error_def read_status_def write_error_def close_done_def)

lemma resumed_potential:
  "coroutine s = Awaiting a \<Longrightarrow> handler s = H_none \<Longrightarrow> potential (resumed a s) \<le> potential s"
  by (cases a) (auto simp: potential_defs)

lemma run_close_potential: "pred_option (\<lambda>t. potential t \<le> potential s) (run_close s)"
  by (auto simp: run_close_def session_pending_def close_pending_def intro!: potential_le split: ws_closing.split)

lemma open_potential: "shape s \<Longrightarrow> unopened s \<Longrightarrow> potential (open_impl s) \<le> potential s"
  using shape_unopened [of s] shape_no_session(1) [of s]
  by (intro potential_le) (auto simp: open_impl_def Let_def session_pending_def close_pending_def split: if_splits)

lemma moved_potential:
  assumes "shape s" "closes s"
  shows "pred_option (\<lambda>t. potential t \<le> potential s) (ws_moved m s)"
proof (cases m)
  case Opens
  then show ?thesis using open_potential [OF assms(1)] by simp
next
  case Closes
  have "closing s \<noteq> Close_ran CONNECTED" if "\<not> ws_status s \<ge> DISCONNECTING"
    using that assms(2) by (auto simp: closes_def closes_of_def less_eq_ws_status_def)
  with Closes show ?thesis
    by (auto simp: close_swap_def close_pending_def intro!: potential_le)
next
  case Posts_close
  then show ?thesis by (auto simp: close_post_def close_pending_def intro!: potential_le split: ws_closing.split)
next
  case Closes_inside
  then show ?thesis using close_of_connected [OF assms(2)] by (auto simp: close_pending_def intro!: potential_le split: ws_handler.split)
next
  case Registers
  then show ?thesis by (auto simp: set_on_buffer_released_def intro!: potential_le)
next
  case Resumes
  then show ?thesis using resumed_potential [of s] by (auto simp: idle_do_def split: ws_coroutine.split)
next
  case (Await_fails c)
  have "potential (s\<lparr>coroutine := Finished f\<rparr>) \<le> potential s" if "coroutine s = Awaiting a" for a f
    using that by (intro potential_le) (simp_all add: session_pending_def)
  with Await_fails show ?thesis by (auto simp: await_failed_def split: ws_coroutine.split)
next
  case Completes
  have "potential (s\<lparr>coroutine := Over, handler := H_completion f\<rparr>) \<le> potential s" if "coroutine s = Finished f" "handler s = H_none" for f
    using that by (intro potential_le) (simp_all add: session_pending_def close_pending_def)
  with Completes show ?thesis by (auto simp: idle_do_def split: ws_coroutine.split)
next
  case Runs
  then show ?thesis using runs_potential [OF assms] by simp
next
  case Runs_close
  then show ?thesis using run_close_potential by simp
next
  case (Close_ends r)
  then show ?thesis by (auto simp: idle_do_def session_pending_def close_pending_def intro!: potential_le)
next
  case Returns
  have "potential (s\<lparr>handler := H_after k\<rparr>) \<le> potential s" if "handler s = H_in c k" for c k
    using that by (intro potential_le) (simp_all add: session_pending_def close_pending_def)
  with Returns show ?thesis by (auto split: ws_handler.split)
next
  case Throws
  have "potential (callback_throws c k s) \<le> potential s" if h: "handler s = H_in c k" for c k
  proof -
    have "k = A_connected \<Longrightarrow> coroutine s = In_handler" using shapeD(1) [OF assms(1)] h by (simp add: in_coroutine_def)
    then show ?thesis using h
      by (intro potential_le) (auto simp: callback_throws_def session_pending_def close_pending_def split: if_splits)
  qed
  with Throws show ?thesis by (auto split: ws_handler.split)
qed (auto simp: idle_do_def session_pending_def close_pending_def intro!: potential_le)

section \<open>Handing over the read buffer\<close>

text \<open>The buffer is used by clearing it and for data; once handed over, it is neither used nor handed over again.\<close>

fun uses_buffer :: "ws_event \<Rightarrow> bool" where
  "uses_buffer Handed_over = True"
| "uses_buffer Cleared = True"
| "uses_buffer (Calls (On_data bs)) = True"
| "uses_buffer _ = False"

fun tidy :: "bool \<Rightarrow> ws_event list \<Rightarrow> bool" where
  "tidy handed [] = True"
| "tidy handed (e # tr) = ((uses_buffer e \<longrightarrow> \<not> handed) \<and> tidy (handed \<or> e = Handed_over) tr)"

lemma tidy_append [simp]:
  "tidy handed (tr @ [e]) \<longleftrightarrow> tidy handed tr \<and> (uses_buffer e \<longrightarrow> \<not> handed \<and> Handed_over \<notin> set tr)"
  by (induction tr arbitrary: handed) auto

definition buffer_idle :: "ws \<Rightarrow> bool" where
  "buffer_idle s \<longleftrightarrow> \<not> reading s \<and> \<not> in_read (handler s)
     \<and> (coroutine s = Over \<or> read_started s \<or> coroutine s = No_session \<and> \<not> unopened s)"

definition buffer_inv :: "ws \<Rightarrow> bool" where
  "buffer_inv s \<longleftrightarrow> (is_shared s \<longrightarrow>
     (release_state s = KReleased \<longrightarrow> buffer_idle s)
   \<and> (Handed_over \<in> set (trace s) \<longrightarrow> release_state s = KReleased)
   \<and> tidy False (trace s))"

lemma buffer_init: "buffer_inv (ws_init shared tls pending)"
  by (simp add: buffer_inv_def ws_init_def)

lemma buffer_frame:
  assumes "buffer_inv s" "is_shared t = is_shared s" "release_state t = release_state s"
    and "trace t = trace s \<or> (\<exists>e. trace t = trace s @ [e] \<and> \<not> uses_buffer e)"
    and "buffer_idle s \<Longrightarrow> buffer_idle t"
  shows "buffer_inv t"
  using assms by (auto simp: buffer_inv_def)

lemma buffer_used:
  assumes "buffer_inv s" "is_shared t = is_shared s" "release_state t = release_state s"
    and "trace t = trace s @ [e]" "e \<noteq> Handed_over" "\<not> buffer_idle s"
  shows "buffer_inv t"
  using assms by (auto simp: buffer_inv_def)

lemma buffer_release:
  assumes "buffer_inv s" "buffer_idle (s\<lparr>handler := H_none\<rparr>)"
  shows "buffer_inv (release_buffer (s\<lparr>handler := H_none\<rparr>))"
  using assms by (auto simp: buffer_inv_def release_buffer_def buffer_idle_def Let_def)

lemma idle_close [simp]: "buffer_idle (close s) = buffer_idle s"
  by (simp add: buffer_idle_def)

lemma buffer_close: "buffer_inv s \<Longrightarrow> buffer_inv (close s)"
  by (rule buffer_frame) simp_all

text \<open>Inside the coroutine, and in the handlers of the read loop, the buffer is not idle.\<close>

lemma not_idle:
  assumes "shape s"
  shows "coroutine s = In_handler \<Longrightarrow> \<not> buffer_idle s" and "coroutine s = Awaiting a \<Longrightarrow> \<not> buffer_idle s"
    and "in_read (handler s) \<Longrightarrow> \<not> buffer_idle s" and "reading s \<Longrightarrow> \<not> buffer_idle s"
  using shapeD(4) [OF assms] by (auto simp: buffer_idle_def)

lemma after_buffer:
  assumes "buffer_inv s" "shape s" "handler s = H_after k"
  shows "buffer_inv (after_callback k s)"
proof (cases k)
  case A_connected
  then have "\<not> buffer_idle s"
    using not_idle(1) [OF assms(2)] shapeD(1) [OF assms(2)] assms(3) by (simp add: in_coroutine_def)
  then show ?thesis using A_connected
    by (auto simp: after_connected_def intro: buffer_frame [OF assms(1)] buffer_used [OF assms(1)])
next
  case A_data
  then have "\<not> buffer_idle s" using not_idle(3) [OF assms(2)] assms(3) by simp
  then show ?thesis using A_data by (auto intro!: buffer_frame [OF assms(1)])
next
  case A_late_error
  then show ?thesis using shapeD(15) [OF assms(2)] assms(3) by simp
next
  case A_read_error
  then show ?thesis using assms(3) by (auto intro!: buffer_frame [OF assms(1)] simp: buffer_idle_def)
qed (use assms(3) in \<open>auto intro!: buffer_frame [OF assms(1)] simp: buffer_idle_def\<close>)

lemma runs_buffer:
  assumes "buffer_inv s" "shape s"
  shows "pred_option buffer_inv (handler_runs (handler s) s)"
proof (cases "handler s")
  case (H_after k)
  then show ?thesis using after_buffer [OF assms] by simp
next
  case H_release
  have "buffer_idle (s\<lparr>handler := H_none\<rparr>)"
    using shapeD(7,14) [OF assms(2)] H_release by (auto simp: buffer_idle_def)
  with H_release show ?thesis using buffer_release [OF assms(1)] by simp
next
  case (H_about c k)
  have "buffer_inv (happens (Calls c) (s\<lparr>handler := H_in c k\<rparr>))"
  proof (cases "\<exists>bs. c = On_data bs")
    case True
    then have "in_read (handler s)" using shape_calls(1) [OF assms(2), of c k] H_about by auto
    then show ?thesis using not_idle(3) [OF assms(2)] by (intro buffer_used [OF assms(1), where e = "Calls c"]) simp_all
  next
    case False
    then have "\<not> uses_buffer (Calls c)" by (cases c) simp_all
    then show ?thesis using H_about by (intro buffer_frame [OF assms(1)]) (auto simp: buffer_idle_def)
  qed
  with H_about show ?thesis by simp
next
  case (H_completion f)
  have "buffer_inv (s\<lparr>handler := H_none\<rparr>)" "buffer_inv (s\<lparr>ws_status := w, handler := H_completed f w'\<rparr>)" for w w'
    using H_completion by (auto intro!: buffer_frame [OF assms(1)] simp: buffer_idle_def)
  then show ?thesis using H_completion completion_cases [OF assms(2) H_completion] by simp
next
  case (H_check c k)
  then have "buffer_inv (s\<lparr>handler := H_after k\<rparr>)" "buffer_inv (s\<lparr>handler := H_about c k\<rparr>)"
    by (auto intro!: buffer_frame [OF assms(1)] simp: buffer_idle_def)
  with H_check show ?thesis by simp
next
  case H_begin
  then have "\<not> buffer_idle s" using not_idle(1) [OF assms(2)] shapeD(1) [OF assms(2)] by (simp add: in_coroutine_def)
  with H_begin show ?thesis by (auto intro!: buffer_frame [OF assms(1)] simp: begin_session_def)
next
  case H_abort
  then have "\<not> buffer_idle s" using not_idle(1) [OF assms(2)] shapeD(1) [OF assms(2)] by (simp add: in_coroutine_def)
  with H_abort show ?thesis by (auto intro!: buffer_frame [OF assms(1)] simp: abort_session_def Let_def)
next
  case H_connect
  then have "\<not> buffer_idle s" using not_idle(1) [OF assms(2)] shapeD(1) [OF assms(2)] by (simp add: in_coroutine_def)
  with H_connect show ?thesis by (auto intro!: buffer_frame [OF assms(1)] simp: connect_def)
qed (auto intro!: buffer_frame [OF assms(1)] simp: buffer_idle_def shaken_def completed_def read_data_def
    read_error_def read_status_def write_error_def close_done_def)

lemma open_buffer:
  assumes "buffer_inv s" "shape s" "unopened s"
  shows "buffer_inv (open_impl s)"
proof -
  have s: "coroutine s = No_session" "handler s = H_none" "\<not> reading s" "\<not> read_started s"
    using shape_unopened [OF assms(2,3)] shape_no_session [OF assms(2)] shapeD(4) [OF assms(2)] by auto
  then have "\<not> buffer_idle s" using assms(3) by (simp add: buffer_idle_def)
  with s assms(1) show ?thesis
    by (auto simp: buffer_inv_def open_impl_def release_buffer_def Let_def buffer_idle_def)
qed

lemma moved_buffer:
  assumes "buffer_inv s" "shape s"
  shows "pred_option buffer_inv (ws_moved m s)"
proof (cases m)
  case Opens
  then show ?thesis using open_buffer [OF assms] by simp
next
  case Closes
  then show ?thesis by (auto simp: close_swap_def buffer_idle_def intro!: buffer_frame [OF assms(1)])
next
  case Posts_close
  then show ?thesis by (auto simp: close_post_def buffer_idle_def intro!: buffer_frame [OF assms(1)] split: ws_closing.split)
next
  case Closes_inside
  then show ?thesis using buffer_close [OF assms(1)] by (auto split: ws_handler.split)
next
  case Registers
  then show ?thesis using assms(1)
    by (cases "release_state s") (auto simp: set_on_buffer_released_def buffer_inv_def buffer_idle_def)
next
  case Resumes
  have "buffer_inv (resumed a s)" if "coroutine s = Awaiting a" for a
    using not_idle(2) [OF assms(2) that] by (cases a) (auto intro!: buffer_frame [OF assms(1)])
  with Resumes show ?thesis by (auto simp: idle_do_def split: ws_coroutine.split)
next
  case (Await_fails c)
  have "buffer_inv (s\<lparr>coroutine := Finished f\<rparr>)" if "coroutine s = Awaiting a" for a f
    using not_idle(2) [OF assms(2) that] by (auto intro!: buffer_frame [OF assms(1)])
  with Await_fails show ?thesis by (auto simp: await_failed_def split: ws_coroutine.split)
next
  case Completes
  have "buffer_inv (s\<lparr>coroutine := Over, handler := H_completion f\<rparr>)" if "coroutine s = Finished f" "handler s = H_none" for f
    using that by (auto intro!: buffer_frame [OF assms(1)] simp: buffer_idle_def)
  with Completes show ?thesis by (auto simp: idle_do_def split: ws_coroutine.split)
next
  case (Reads bs)
  then show ?thesis using not_idle(4) [OF assms(2)] by (auto simp: idle_do_def intro!: buffer_frame [OF assms(1)])
next
  case (Read_fails r)
  then show ?thesis using not_idle(4) [OF assms(2)] by (auto simp: idle_do_def intro!: buffer_frame [OF assms(1)])
next
  case Runs
  then show ?thesis using runs_buffer [OF assms] by simp
next
  case Runs_close
  then show ?thesis by (auto simp: run_close_def buffer_idle_def intro!: buffer_frame [OF assms(1)] split: ws_closing.split)
next
  case Returns
  have "buffer_inv (s\<lparr>handler := H_after k\<rparr>)" if "handler s = H_in c k" for c k
    using that by (intro buffer_frame [OF assms(1)]) (auto simp: buffer_idle_def)
  with Returns show ?thesis by (auto split: ws_handler.split)
next
  case Throws
  have "buffer_inv (callback_throws c k s)" if h: "handler s = H_in c k" for c k
  proof -
    have "k = A_connected \<Longrightarrow> \<not> buffer_idle s" using not_idle(1) [OF assms(2)] shapeD(1) [OF assms(2)] h by (simp add: in_coroutine_def)
    then show ?thesis using h
      by (intro buffer_frame [OF assms(1)]) (auto simp: callback_throws_def buffer_idle_def)
  qed
  with Throws show ?thesis by (auto split: ws_handler.split)
qed (auto simp: idle_do_def buffer_idle_def intro!: buffer_frame [OF assms(1)])

lemma moved_shared: "pred_option (\<lambda>t. is_shared t = is_shared s) (ws_moved m s)"
proof (cases m)
  case Resumes
  have "is_shared (resumed a s) = is_shared s" for a by (cases a) simp_all
  with Resumes show ?thesis by (simp add: idle_do_def split: ws_coroutine.split)
next
  case Runs
  have "is_shared (after_callback k s) = is_shared s" for k by (cases k) (simp_all add: after_connected_def)
  with Runs show ?thesis by (cases "handler s") (simp_all add: ws_ops)
qed (simp_all add: ws_ops close_swap_def close_post_def set_on_buffer_released_def
    split: ws_coroutine.split ws_handler.split ws_closing.split)

section \<open>The invariant of a session\<close>

definition ws_inv :: "ws \<Rightarrow> bool" where
  "ws_inv s \<longleftrightarrow> shape s \<and> closes s \<and> talk s \<and> buffer_inv s \<and> potential s \<le> 2"

lemma ws_inv_step: "ws_inv s \<Longrightarrow> ws_step s t \<Longrightarrow> ws_inv t"
proof (erule ws_stepE)
  fix m assume s: "ws_inv s" and m: "ws_moved m s = Some t"
  then have i: "shape s" "closes s" "talk s" "buffer_inv s" "potential s \<le> 2" by (simp_all add: ws_inv_def)
  show "ws_inv t"
    using moved_shape [OF i(1,2), of m] moved_closes [OF i(2,1), of m] moved_talk [OF i(3,1,2), of m]
      moved_buffer [OF i(4,1), of m] moved_potential [OF i(1,2), of m] i(5) m
    by (simp add: ws_inv_def)
qed

lemma ws_inv_init: "ws_inv (ws_init shared tls pending)"
  using shape_init closes_init talk_init buffer_init by (simp add: ws_inv_def potential_defs ws_init_def)

interpretation ws_system: inductive_invariant "ws_init shared tls pending" ws_step ws_inv
  for shared tls pending :: bool
  by unfold_locales (rule ws_inv_init, rule ws_inv_step)

lemma reachable_shared: "reachable (ws_init shared tls pending) ws_step s \<Longrightarrow> is_shared s = shared"
proof (induction rule: reachable.induct)
  case start
  then show ?case by (simp add: ws_init_def)
next
  case (next_step s t)
  then obtain m where "ws_moved m s = Some t" by (auto elim: ws_stepE)
  with next_step(3) show ?case using moved_shared [of s m] by simp
qed

section \<open>Executions\<close>

text \<open>A plain session connects: up to the call of \<open>onConnected\<close>.\<close>

definition connect_moves :: "ws_move list" where
  "connect_moves = [Opens, Resumes, Runs, Resumes, Resumes, Resumes, Runs, Runs, Runs, Runs]"

definition plain_session :: ws where
  "plain_session = ws_init True False False"

lemmas run_session_defs = plain_session_def connect_moves_def ws_init_def ws_ops close_def close_swap_def close_post_def
  release_buffer_def happens_def

lemma ws_schedule_reaches:
  "ws_schedule ms (ws_init shared tls pending) = Some t \<Longrightarrow> reachable (ws_init shared tls pending) ws_step t"
  by (rule steps_reachable [OF ws_schedule_steps reachable.start])

text \<open>\<open>onConnected\<close> returns, a message arrives and is delivered.\<close>

definition talking :: ws where
  "talking = plain_session\<lparr>unopened := False, ws_status := CONNECTED, session_started := True, read_started := True,
     coroutine := Over, reading := True, trace := [Calls On_connected, Cleared, Calls (On_data ''hi'')]\<rparr>"

lemma talking_reachable: "reachable plain_session ws_step talking"
proof -
  have "ws_schedule (connect_moves @ [Returns, Runs, Completes, Runs, Reads ''hi'', Runs, Runs, Returns, Runs]) plain_session = Some talking"
    by (simp add: run_session_defs talking_def)
  then show ?thesis unfolding plain_session_def by (rule ws_schedule_reaches)
qed

text \<open>Then \<open>close()\<close> of another thread, the closing handshake, and the end of the read loop.\<close>

definition closed_session :: ws where
  "closed_session = talking\<lparr>ws_status := DISCONNECTED, reading := False, release_state := KReleased,
     closing := Close_ran CONNECTED,
     trace := [Calls On_connected, Cleared, Calls (On_data ''hi''), Calls On_disconnected, Handed_over]\<rparr>"

lemma closed_session_steps: "ws_step\<^sup>*\<^sup>* talking closed_session"
proof -
  have "ws_schedule [Registers, Closes, Posts_close, Runs_close, Close_ends False, Runs, Runs, Runs, Runs, Returns, Runs,
      Read_fails False, Runs, Runs, Runs] talking = Some closed_session"
    by (simp add: run_session_defs talking_def closed_session_def set_on_buffer_released_def)
  then show ?thesis by (rule ws_schedule_steps)
qed

lemma closed_session_reachable: "reachable plain_session ws_step closed_session"
  by (rule steps_reachable [OF closed_session_steps talking_reachable])

section \<open>Properties\<close>

text \<open>
  C1. The callbacks of a session make sense to a listener: at most one \<open>onConnected\<close>, every \<open>onData\<close> after it, and
  neither of them once \<open>onDisconnected\<close> was called; after an \<open>onDisconnected\<close> \<open>status()\<close> reads DISCONNECTED.
\<close>
theorem session_callbacks_in_order:
  assumes "reachable (ws_init shared tls pending) ws_step s"
  shows "phase (trace s) \<noteq> None \<and> (phase (trace s) = Some Gone \<longrightarrow> ws_status s = DISCONNECTED)"
  using ws_system.reachable_inv [OF assms] by (simp add: ws_inv_def talk_def talk_of_def)

theorem session_callbacks_in_order_witness: "phase (trace closed_session) = Some Gone \<and> ws_status closed_session = DISCONNECTED"
  using session_callbacks_in_order [OF closed_session_reachable [unfolded plain_session_def]]
  by (simp add: closed_session_def phase_def)

text \<open>
  \<open>onDisconnected\<close> is called at most twice for a session, and twice only when a \<open>close()\<close> won while the session
  was CONNECTED and its closing handshake has completed.
\<close>
lemma at_most_two_disconnected:
  assumes "reachable (ws_init shared tls pending) ws_step s"
  shows "disconnects (trace s) \<le> 2 \<and> (disconnects (trace s) = 2 \<longrightarrow> closing s = Close_ran CONNECTED \<and> \<not> close_handshake s)"
  using ws_system.reachable_inv [OF assms] by (auto simp: ws_inv_def potential_def close_pending_def split: if_splits)

lemma at_most_two_disconnected_witness: "disconnects (trace closed_session) \<le> 2 \<and> closing closed_session = Close_ran CONNECTED"
  using at_most_two_disconnected [OF closed_session_reachable [unfolded plain_session_def]]
  by (simp add: closed_session_def)

text \<open>
  C38. The read buffer that two sessions share is handed to the next one at most once, and once it was, this session
  neither clears it, reads into it nor delivers from it.
\<close>
theorem buffer_handed_over_once:
  assumes "reachable (ws_init True tls pending) ws_step s"
  shows "tidy False (trace s) \<and> (Handed_over \<in> set (trace s) \<longrightarrow> \<not> reading s \<and> \<not> in_read (handler s) \<and> coroutine s \<noteq> In_handler)"
proof -
  have "is_shared s" using reachable_shared [OF assms] by simp
  moreover have "shape s" "buffer_inv s" using ws_system.reachable_inv [OF assms] by (simp_all add: ws_inv_def)
  ultimately show ?thesis using not_idle(1) [of s] by (auto simp: buffer_inv_def buffer_idle_def)
qed

theorem buffer_handed_over_once_witness: "Handed_over \<in> set (trace closed_session) \<and> \<not> reading closed_session"
  using buffer_handed_over_once [OF closed_session_reachable [unfolded plain_session_def]]
  by (simp add: closed_session_def)

text \<open>From its \<open>open()\<close> on, the status of a session only moves forward: CONNECTING, CONNECTED, DISCONNECTING, DISCONNECTED.\<close>
lemma status_moves_forward:
  assumes "reachable (ws_init shared tls pending) ws_step s" "session_started s" "ws_step s t"
  shows "ws_status s \<le> ws_status t"
proof -
  obtain m where "ws_moved m s = Some t" using assms(3) by (auto elim: ws_stepE)
  moreover have "shape s" using ws_system.reachable_inv [OF assms(1)] by (simp add: ws_inv_def)
  ultimately show ?thesis using moved_forward [OF _ assms(2), of m] by (simp add: forward_def less_eq_ws_status_def)
qed

lemma status_moves_forward_witness: "ws_status talking \<le> ws_status (talking\<lparr>ws_status := DISCONNECTING, closing := Closing CONNECTED\<rparr>)"
proof (rule status_moves_forward [OF talking_reachable [unfolded plain_session_def]])
  show "session_started talking" by (simp add: talking_def)
  show "ws_step talking (talking\<lparr>ws_status := DISCONNECTING, closing := Closing CONNECTED\<rparr>)"
    by (rule ws_step.move [of Closes]) (simp add: talking_def close_swap_def less_eq_ws_status_def)
qed

text \<open>
  Without any other thread: a \<open>close()\<close> made inside \<open>onConnected\<close> has \<open>onDisconnected\<close> called twice, by the completion
  handler of the session, which found DISCONNECTING, and by the closing handshake that \<open>close()\<close> posted.
\<close>
lemma close_in_connected_disconnects_twice:
  "\<exists>s. reachable (ws_init False False False) ws_step s \<and> trace s = [Calls On_connected, Calls On_disconnected, Calls On_disconnected]"
proof -
  have "\<exists>s. ws_schedule (connect_moves @ [Closes_inside, Returns, Runs, Completes, Runs, Runs, Runs, Returns, Runs, Runs,
      Runs_close, Close_ends False, Runs, Runs, Runs, Runs]) (ws_init False False False) = Some s
      \<and> trace s = [Calls On_connected, Calls On_disconnected, Calls On_disconnected]"
    by (simp add: run_session_defs)
  then show ?thesis using ws_schedule_reaches by blast
qed

text \<open>
  An exception from \<open>onData\<close> ends the read loop for good: the session is left CONNECTED with no read in flight, no
  error and no \<open>onDisconnected\<close> reported and the buffer not released.
\<close>
lemma throwing_data_callback_strands_session:
  "\<exists>s. reachable (ws_init True False False) ws_step s \<and> ws_status s = CONNECTED \<and> coroutine s = Over \<and> handler s = H_none
     \<and> \<not> reading s \<and> closing s = No_close \<and> release_state s = KActive
     \<and> trace s = [Calls On_connected, Cleared, Calls (On_data bs), Threw (On_data bs)]"
proof -
  have "\<exists>s. ws_schedule (connect_moves @ [Returns, Runs, Completes, Runs, Reads bs, Runs, Runs, Throws]) (ws_init True False False) = Some s
     \<and> ws_status s = CONNECTED \<and> coroutine s = Over \<and> handler s = H_none
     \<and> \<not> reading s \<and> closing s = No_close \<and> release_state s = KActive
     \<and> trace s = [Calls On_connected, Cleared, Calls (On_data bs), Threw (On_data bs)]"
    by (simp add: run_session_defs)
  then show ?thesis using ws_schedule_reaches by blast
qed

end
