(* ===== verification/Ws_Session_Ends.thy ===== *)
theory Ws_Session_Ends
  imports Ws_Session_Props
begin

text \<open>
  How a WebSocket session ends: while no callback has thrown, something always remains to be run until the buffer is
  released and a session that is DISCONNECTING has become DISCONNECTED; and once a session is closed, everything that
  remains runs out.
\<close>

section \<open>What is still owed\<close>

fun is_awaiting :: "ws_coroutine \<Rightarrow> bool" where
  "is_awaiting (Awaiting a) = True"
| "is_awaiting _ = False"

text \<open>The coroutine has not come to its read loop and its completion handler has not run.\<close>

definition unfinished :: "ws_handler \<Rightarrow> ws_coroutine \<Rightarrow> bool \<Rightarrow> bool" where
  "unfinished h co rstarted \<longleftrightarrow> is_awaiting co \<or> co = In_handler \<or> (is_finished co \<or> is_completion h) \<and> \<not> rstarted"

definition owes_release :: "ws_handler \<Rightarrow> ws_coroutine \<Rightarrow> bool \<Rightarrow> bool \<Rightarrow> bool" where
  "owes_release h co rstarted rd \<longleftrightarrow> unfinished h co rstarted \<or> rd \<or> in_read h \<or> in_completion h \<or> h = H_release
     \<or> after_of h = Some A_release"

fun closing_due :: "ws_closing \<Rightarrow> bool" where
  "closing_due (Closing was) = True"
| "closing_due (Close_posted was) = True"
| "closing_due _ = False"

fun before_store :: "ws_handler \<Rightarrow> bool" where
  "before_store (H_close_done r) = True"
| "before_store H_close_store = True"
| "before_store h = (after_of h = Some A_close_error)"

definition owes_status :: "ws_handler \<Rightarrow> ws_coroutine \<Rightarrow> bool \<Rightarrow> ws_closing \<Rightarrow> bool \<Rightarrow> bool" where
  "owes_status h co rstarted cl ch \<longleftrightarrow> unfinished h co rstarted \<or> closing_due cl \<or> ch \<or> before_store h"

definition calm :: "ws \<Rightarrow> bool" where
  "calm s \<longleftrightarrow> (\<forall>c. Threw c \<notin> set (trace s))"

definition owed_release :: "ws \<Rightarrow> bool" where
  "owed_release s \<longleftrightarrow> (calm s \<and> is_shared s \<and> \<not> unopened s \<longrightarrow>
     release_state s = KReleased \<or> owes_release (handler s) (coroutine s) (read_started s) (reading s))"

definition owed_status :: "ws \<Rightarrow> bool" where
  "owed_status s \<longleftrightarrow>
     (ws_status s = CONNECTING \<and> coroutine s \<noteq> No_session \<longrightarrow> unfinished (handler s) (coroutine s) (read_started s))
   \<and> (closing_was (closing s) = Some CONNECTING \<and> ws_status s = DISCONNECTING \<longrightarrow>
        unfinished (handler s) (coroutine s) (read_started s))
   \<and> (ws_status s = DISCONNECTING \<longrightarrow> closing s \<noteq> No_close)
   \<and> (calm s \<and> ws_status s = DISCONNECTING \<longrightarrow>
        owes_status (handler s) (coroutine s) (read_started s) (closing s) (close_handshake s))"

lemmas owed_defs = owes_release_def unfinished_def

lemma calm_happens [simp]: "calm (happens e s) \<longleftrightarrow> calm s \<and> (\<forall>c. e \<noteq> Threw c)"
  by (auto simp: calm_def)

lemma calm_cong: "trace t = trace s \<Longrightarrow> calm t = calm s"
  by (simp add: calm_def)

lemma calm_upd [simp]:
  "calm (s\<lparr>handler := h\<rparr>) = calm s" "calm (s\<lparr>coroutine := co\<rparr>) = calm s" "calm (s\<lparr>ws_status := st\<rparr>) = calm s"
  "calm (s\<lparr>reading := r\<rparr>) = calm s" "calm (s\<lparr>writing := r\<rparr>) = calm s" "calm (s\<lparr>closing := cl\<rparr>) = calm s"
  "calm (s\<lparr>close_handshake := r\<rparr>) = calm s" "calm (s\<lparr>release_state := rel\<rparr>) = calm s" "calm (s\<lparr>unopened := r\<rparr>) = calm s"
  "calm (s\<lparr>session_started := r\<rparr>) = calm s" "calm (s\<lparr>read_started := r\<rparr>) = calm s" "calm (s\<lparr>detached := r\<rparr>) = calm s"
  "calm (s\<lparr>open_cancelled := r\<rparr>) = calm s" "calm (s\<lparr>service_up := r\<rparr>) = calm s" "calm (close s) = calm s"
  by (simp_all add: calm_def)

lemma calm_release [simp]: "calm (release_buffer s) = calm s"
  by (simp add: release_buffer_def Let_def)

section \<open>The release of the buffer\<close>

lemma owed_release_frame:
  assumes "owed_release s" "is_shared t = is_shared s" "unopened t = unopened s" "release_state t = release_state s \<or> release_state t = KReleased"
    and "calm t \<Longrightarrow> calm s"
    and "calm t \<Longrightarrow> owes_release (handler s) (coroutine s) (read_started s) (reading s)
      \<Longrightarrow> owes_release (handler t) (coroutine t) (read_started t) (reading t)"
  shows "owed_release t"
  using assms unfolding owed_release_def by auto

lemma release_released: "is_shared s \<Longrightarrow> release_state (release_buffer s) = KReleased"
  by (simp add: release_buffer_def Let_def)

lemma owed_release_release: "owed_release (release_buffer s)"
  by (simp add: owed_release_def release_released)

lemma after_owed_release:
  assumes "owed_release s" "shape s" "handler s = H_after k"
  shows "owed_release (after_callback k s)"
proof (cases k)
  case A_connected
  then have "coroutine s = In_handler" using shapeD(1) [OF assms(2)] assms(3) by (simp add: in_coroutine_def)
  moreover from this have "\<not> read_started s" using shapeD(4) [OF assms(2)] by auto
  ultimately show ?thesis using A_connected assms(1,3)
    by (auto simp: after_connected_def owed_release_def owed_defs)
next
  case A_late_error
  then show ?thesis using shapeD(15) [OF assms(2)] assms(3) by simp
qed (use assms(3) in \<open>auto intro!: owed_release_frame [OF assms(1)] simp: owed_defs\<close>)

lemma runs_owed_release:
  assumes "owed_release s" "shape s"
  shows "pred_option owed_release (handler_runs (handler s) s)"
proof (cases "handler s")
  case (H_after k)
  then show ?thesis using after_owed_release [OF assms] by simp
next
  case H_release
  then show ?thesis using owed_release_release by simp
next
  case (H_completion f)
  have "owed_release (s\<lparr>handler := H_none\<rparr>)" if "read_started s"
    using H_completion that by (auto intro!: owed_release_frame [OF assms(1)] simp: owed_defs)
  moreover have "owed_release (s\<lparr>ws_status := w, handler := H_completed f w'\<rparr>)" for w w'
    by (auto intro!: owed_release_frame [OF assms(1)] simp: owed_defs)
  ultimately show ?thesis using H_completion completion_cases [OF assms(2) H_completion] by simp
next
  case (H_check c k)
  then have "owed_release (s\<lparr>handler := H_after k\<rparr>)" "owed_release (s\<lparr>handler := H_about c k\<rparr>)"
    by (auto intro!: owed_release_frame [OF assms(1)] simp: owed_defs)
  with H_check show ?thesis by simp
next
  case H_begin
  then show ?thesis using shapeD(1,4) [OF assms(2)]
    by (auto intro!: owed_release_frame [OF assms(1)] simp: begin_session_def owed_defs in_coroutine_def)
next
  case H_abort
  then show ?thesis using shapeD(1,4) [OF assms(2)]
    by (auto intro!: owed_release_frame [OF assms(1)] simp: abort_session_def owed_defs in_coroutine_def Let_def)
next
  case H_connect
  then show ?thesis using shapeD(1,4) [OF assms(2)]
    by (auto intro!: owed_release_frame [OF assms(1)] simp: connect_def owed_defs in_coroutine_def)
qed (auto intro!: owed_release_frame [OF assms(1)] simp: owed_defs shaken_def completed_def read_data_def
    read_error_def read_status_def write_error_def close_done_def)

lemma fresh_status:
  assumes "shape s" "closes s" "owed_status s" "unopened s"
  shows "coroutine s = No_session" "handler s = H_none" "\<not> session_started s" "ws_status s = CONNECTING \<or> ws_status s = DISCONNECTED"
    "closing s = No_close" "\<not> read_started s"
proof -
  show co: "coroutine s = No_session" by (rule shape_unopened [OF assms(1,4)])
  show "handler s = H_none" "\<not> session_started s" using shape_no_session [OF assms(1) co] by simp_all
  show "closing s = No_close" using assms(2) co by (simp add: closes_def closes_of_def)
  with assms(2,3) co show "ws_status s = CONNECTING \<or> ws_status s = DISCONNECTED"
    by (cases "ws_status s") (auto simp: closes_def closes_of_def before_connect_def owed_status_def)
  show "\<not> read_started s" using shapeD(4) [OF assms(1)] co by auto
qed

lemma moved_owed_release:
  assumes "owed_release s" "shape s" "closes s" "owed_status s"
  shows "pred_option owed_release (ws_moved m s)"
proof (cases m)
  case Opens
  then show ?thesis using fresh_status(3,4) [OF assms(2-4)] owed_release_release
    by (auto simp: open_impl_def owed_release_def owed_defs Let_def release_released)
next
  case Closes
  then show ?thesis by (auto simp: close_swap_def intro!: owed_release_frame [OF assms(1)] assms(1))
next
  case Posts_close
  then show ?thesis by (auto simp: close_post_def intro!: owed_release_frame [OF assms(1)] assms(1) split: ws_closing.split)
next
  case Closes_inside
  then show ?thesis by (auto intro!: owed_release_frame [OF assms(1)] split: ws_handler.split)
next
  case Registers
  then show ?thesis using assms(1) by (auto simp: set_on_buffer_released_def owed_release_def)
next
  case Resumes
  have "owed_release (resumed a s)" if "coroutine s = Awaiting a" for a
    by (cases a) (auto intro!: owed_release_frame [OF assms(1)] simp: owed_defs)
  with Resumes show ?thesis by (auto simp: idle_do_def split: ws_coroutine.split)
next
  case (Await_fails c)
  have "owed_release (s\<lparr>coroutine := Finished f\<rparr>)" if "coroutine s = Awaiting a" for a f
    using that shapeD(4) [OF assms(2)] by (auto intro!: owed_release_frame [OF assms(1)] simp: owed_defs)
  with Await_fails show ?thesis by (auto simp: await_failed_def split: ws_coroutine.split)
next
  case Completes
  have "owed_release (s\<lparr>coroutine := Over, handler := H_completion f\<rparr>)" if "coroutine s = Finished f" "handler s = H_none" for f
    using that by (auto intro!: owed_release_frame [OF assms(1)] simp: owed_defs)
  with Completes show ?thesis by (auto simp: idle_do_def split: ws_coroutine.split)
next
  case Runs
  then show ?thesis using runs_owed_release [OF assms(1,2)] by simp
next
  case Runs_close
  then show ?thesis by (auto simp: run_close_def intro!: owed_release_frame [OF assms(1)] split: ws_closing.split)
next
  case Returns
  have "owed_release (s\<lparr>handler := H_after k\<rparr>)" if "handler s = H_in c k" for c k
    using that by (auto intro!: owed_release_frame [OF assms(1)] simp: owed_defs)
  with Returns show ?thesis by (auto split: ws_handler.split)
next
  case Throws
  have "owed_release (callback_throws c k s)" if h: "handler s = H_in c k" for c k
    by (auto simp: callback_throws_def owed_release_def)
  with Throws show ?thesis by (auto split: ws_handler.split)
qed (auto simp: idle_do_def owed_defs intro!: owed_release_frame [OF assms(1)])

section \<open>The end of DISCONNECTING\<close>

lemma owed_status_frame:
  assumes "owed_status s" "ws_status t = ws_status s" "coroutine t \<noteq> No_session \<longrightarrow> coroutine s \<noteq> No_session" "closing t = closing s"
    and "calm t \<Longrightarrow> calm s"
    and "unfinished (handler s) (coroutine s) (read_started s) \<Longrightarrow> unfinished (handler t) (coroutine t) (read_started t)"
    and "close_handshake s \<or> before_store (handler s) \<Longrightarrow> calm t \<Longrightarrow> close_handshake t \<or> before_store (handler t)"
  shows "owed_status t"
  using assms unfolding owed_status_def owes_status_def by auto

lemma owed_status_done: "ws_status t = DISCONNECTED \<Longrightarrow> owed_status t"
  by (simp add: owed_status_def)

lemma owed_status_close:
  assumes "owed_status s" "coroutine s \<noteq> No_session"
  shows "owed_status (close s)"
proof (cases "ws_status s = CONNECTING \<or> ws_status s = CONNECTED")
  case True
  then have "ws_status (close s) = DISCONNECTING" "closing (close s) = Close_posted (ws_status s)"
    using close_closing [of s] by simp_all
  with assms True show ?thesis by (auto simp: owed_status_def owes_status_def)
next
  case False
  then have "ws_status (close s) = ws_status s" "closing (close s) = closing s" using close_closing [of s] by simp_all
  with assms show ?thesis by (auto intro!: owed_status_frame [OF assms(1)])
qed

text \<open>A handler that goes on to \<open>h\<close>, inside the coroutine or outside it.\<close>

lemma owed_status_handler:
  assumes "owed_status s" "is_completion (handler s) \<longrightarrow> read_started s" "before_store (handler s) \<longrightarrow> before_store h"
  shows "owed_status (s\<lparr>handler := h\<rparr>)"
  by (rule owed_status_frame [OF assms(1)]) (use assms(2,3) in \<open>auto simp: unfinished_def\<close>)

lemma owed_status_leaves:
  assumes "owed_status s" "\<not> read_started s" "handler s = H_none \<or> coroutine s = In_handler" "\<not> before_store (handler s)"
    "coroutine s \<noteq> No_session"
  shows "owed_status (s\<lparr>handler := H_none, coroutine := Finished f\<rparr>)"
  by (rule owed_status_frame [OF assms(1)]) (use assms(2-5) in \<open>auto simp: unfinished_def\<close>)

lemma after_owed_status:
  assumes "owed_status s" "shape s" "handler s = H_after k" "closes s"
  shows "owed_status (after_callback k s)"
proof -
  have co: "coroutine s \<noteq> No_session" using shape_no_session(1) [OF assms(2)] assms(3) by auto
  note goes = owed_status_handler [OF assms(1)] and closes = owed_status_handler [OF owed_status_close [OF assms(1) co]]
  show ?thesis
  proof (cases k)
    case A_connected
    then have "coroutine s = In_handler" using shapeD(1) [OF assms(2)] assms(3) by (simp add: in_coroutine_def)
    moreover from this have "\<not> read_started s" using shapeD(4) [OF assms(2)] by auto
    moreover have "owed_status (s\<lparr>read_started := True, reading := True, handler := H_none, coroutine := Finished False\<rparr>)"
      if "ws_status s = CONNECTED" using that by (simp add: owed_status_def)
    ultimately show ?thesis using A_connected assms(1,3) owed_status_leaves [OF assms(1)] co
      by (auto simp: after_connected_def owed_status_def)
  next
    case A_late_error
    then show ?thesis using shapeD(15) [OF assms(2)] assms(3) by simp
  next
    case A_data
    then show ?thesis using assms(3) by (auto intro!: owed_status_frame [OF assms(1)] simp: unfinished_def)
  qed (use assms(3) in \<open>auto intro!: goes closes\<close>)
qed

lemma runs_owed_status:
  assumes "owed_status s" "shape s" "closes s"
  shows "pred_option owed_status (handler_runs (handler s) s)"
proof (cases "handler s")
  case (H_after k)
  then show ?thesis using after_owed_status [OF assms(1,2) _ assms(3)] by simp
next
  case (H_completion f)
  then have "owed_status (s\<lparr>handler := H_none\<rparr>)" if "read_started s" using that by (intro owed_status_handler [OF assms(1)]) simp_all
  with H_completion show ?thesis using completion_cases [OF assms(2) H_completion] by (simp add: owed_status_done)
next
  case (H_about c k)
  have "owed_status (happens (Calls c) (s\<lparr>handler := H_in c k\<rparr>))"
    by (rule owed_status_frame [OF assms(1)]) (use H_about in \<open>auto simp: unfinished_def\<close>)
  with H_about show ?thesis by simp
next
  case H_begin
  then have "coroutine s = In_handler" using shapeD(1) [OF assms(2)] by (simp add: in_coroutine_def)
  with H_begin show ?thesis
    by (auto intro!: owed_status_frame [OF assms(1)] simp: begin_session_def unfinished_def)
next
  case H_abort
  then have "coroutine s = In_handler" using shapeD(1) [OF assms(2)] by (simp add: in_coroutine_def)
  moreover from this have "\<not> read_started s" using shapeD(4) [OF assms(2)] by auto
  ultimately show ?thesis using H_abort owed_status_leaves [OF assms(1)]
    by (auto simp: abort_session_def owed_status_done Let_def)
next
  case H_connect
  then have "coroutine s = In_handler" using shapeD(1) [OF assms(2)] by (simp add: in_coroutine_def)
  moreover from this have "\<not> read_started s" using shapeD(4) [OF assms(2)] by auto
  moreover have "owed_status (s\<lparr>ws_status := CONNECTED, handler := h\<rparr>)" for h by (simp add: owed_status_def)
  ultimately show ?thesis using H_connect owed_status_leaves [OF assms(1)] by (auto simp: connect_def)
next
  case H_release
  have "owed_status (release_buffer (s\<lparr>handler := H_none\<rparr>))"
    by (rule owed_status_frame [OF assms(1)]) (use H_release in \<open>auto simp: unfinished_def\<close>)
  with H_release show ?thesis by simp
qed (auto intro!: owed_status_handler [OF assms(1)] simp: owed_status_done shaken_def completed_def read_data_def
    read_error_def read_status_def write_error_def close_done_def)

lemma owed_status_swap:
  assumes "owed_status s" "coroutine s \<noteq> No_session" "ws_status s = CONNECTING \<or> ws_status s = CONNECTED"
  shows "owed_status (s\<lparr>ws_status := DISCONNECTING, closing := Closing (ws_status s)\<rparr>)"
  using assms by (auto simp: owed_status_def owes_status_def)

lemma moved_owed_status:
  assumes "owed_status s" "shape s" "closes s"
  shows "pred_option owed_status (ws_moved m s)"
proof (cases m)
  case Opens
  then show ?thesis using fresh_status [OF assms(2,3,1)]
    by (auto simp: open_impl_def owed_status_def owes_status_def unfinished_def Let_def)
next
  case Closes
  have "coroutine s \<noteq> No_session" if "session_started s" using that shape_no_session(2) [OF assms(2)] by blast
  with Closes show ?thesis using assms(1) owed_status_swap [OF assms(1)]
    by (cases "ws_status s") (auto simp: close_swap_def less_eq_ws_status_def)
next
  case Posts_close
  have "owed_status (s\<lparr>closing := Close_posted was\<rparr>)" if "closing s = Closing was" for was
    using assms(1) that by (auto simp: owed_status_def owes_status_def)
  with Posts_close show ?thesis using assms(1) by (simp add: close_post_def split: ws_closing.split)
next
  case Closes_inside
  have "coroutine s \<noteq> No_session" if "handler s \<noteq> H_none" using that shape_no_session(1) [OF assms(2)] by blast
  with Closes_inside show ?thesis using owed_status_close [OF assms(1)] by (auto split: ws_handler.split)
next
  case Registers
  then show ?thesis by (auto simp: set_on_buffer_released_def intro!: owed_status_frame [OF assms(1)])
next
  case Resumes
  have "owed_status (resumed a s)" if "coroutine s = Awaiting a" "handler s = H_none" for a
    using that by (cases a) (auto intro!: owed_status_frame [OF assms(1)] simp: unfinished_def)
  with Resumes show ?thesis by (auto simp: idle_do_def split: ws_coroutine.split)
next
  case (Await_fails c)
  have "owed_status (s\<lparr>coroutine := Finished f\<rparr>)" if "coroutine s = Awaiting a" for a f
    using that shapeD(4) [OF assms(2)] by (auto intro!: owed_status_frame [OF assms(1)] simp: unfinished_def)
  with Await_fails show ?thesis by (auto simp: await_failed_def split: ws_coroutine.split)
next
  case Completes
  have "owed_status (s\<lparr>coroutine := Over, handler := H_completion f\<rparr>)" if "coroutine s = Finished f" "handler s = H_none" for f
    using that by (auto intro!: owed_status_frame [OF assms(1)] simp: unfinished_def)
  with Completes show ?thesis by (auto simp: idle_do_def split: ws_coroutine.split)
next
  case Runs
  then show ?thesis using runs_owed_status [OF assms] by simp
next
  case Runs_close
  have "owed_status (if was = CONNECTING then s\<lparr>closing := Close_ran was\<rparr> else s\<lparr>closing := Close_ran was, close_handshake := True\<rparr>)"
    if "closing s = Close_posted was" for was
    using assms(1) that by (auto simp: owed_status_def owes_status_def)
  with Runs_close show ?thesis by (simp add: run_close_def split: ws_closing.split)
next
  case (Close_ends r)
  then show ?thesis by (auto simp: idle_do_def unfinished_def intro!: owed_status_frame [OF assms(1)])
next
  case Returns
  have "owed_status (s\<lparr>handler := H_after k\<rparr>)" if "handler s = H_in c k" for c k
    by (rule owed_status_handler [OF assms(1)]) (use that in simp_all)
  with Returns show ?thesis by (auto split: ws_handler.split)
next
  case Throws
  have "owed_status (callback_throws c k s)" if h: "handler s = H_in c k" for c k
  proof -
    have "coroutine s = In_handler" if "k = A_connected" using that shapeD(1) [OF assms(2)] h by (simp add: in_coroutine_def)
    moreover have "\<not> read_started s" if "coroutine s = In_handler" using that shapeD(4) [OF assms(2)] by auto
    ultimately show ?thesis using h
      by (auto simp: callback_throws_def unfinished_def intro!: owed_status_frame [OF assms(1)])
  qed
  with Throws show ?thesis by (auto split: ws_handler.split)
qed (auto simp: idle_do_def unfinished_def intro!: owed_status_frame [OF assms(1)])

section \<open>Closed sessions come to rest\<close>

definition end_inv :: "ws \<Rightarrow> bool" where
  "end_inv s \<longleftrightarrow> ws_inv s \<and> owed_release s \<and> owed_status s"

lemma end_inv_moved: "end_inv s \<Longrightarrow> ws_moved m s = Some t \<Longrightarrow> end_inv t"
proof -
  assume s: "end_inv s" and m: "ws_moved m s = Some t"
  then have i: "ws_inv s" "owed_release s" "owed_status s" "shape s" "closes s" by (simp_all add: end_inv_def ws_inv_def)
  have "ws_inv t" by (rule ws_inv_step [OF i(1) ws_step.move [OF m]])
  moreover have "owed_release t" using moved_owed_release [OF i(2,4,5,3), of m] m by simp
  moreover have "owed_status t" using moved_owed_status [OF i(3-5), of m] m by simp
  ultimately show "end_inv t" by (simp add: end_inv_def)
qed

lemma end_inv_init: "end_inv (ws_init shared tls pending)"
  using ws_inv_init
  by (auto simp: end_inv_def owed_release_def owed_status_def ws_init_def)

text \<open>
  What runs by itself once the status is DISCONNECTING or DISCONNECTED: every move but those of other threads, new
  calls of the outer class, new writes, and callbacks that throw.
\<close>

fun by_itself :: "ws_move \<Rightarrow> bool" where
  "by_itself Posts_close = True"
| "by_itself Resumes = True"
| "by_itself (Await_fails c) = True"
| "by_itself Completes = True"
| "by_itself (Reads bs) = True"
| "by_itself (Read_fails r) = True"
| "by_itself Written = True"
| "by_itself (Write_fails r) = True"
| "by_itself Runs_close = True"
| "by_itself (Close_ends r) = True"
| "by_itself Runs = True"
| "by_itself Returns = True"
| "by_itself Throws = True"
| "by_itself _ = False"

definition ws_internal :: "ws \<Rightarrow> ws \<Rightarrow> bool" where
  "ws_internal s t \<longleftrightarrow> session_started s \<and> ws_status s \<ge> DISCONNECTING
     \<and> (\<exists>m. by_itself m \<and> ws_moved m s = Some t \<and> t \<noteq> s)"

fun await_weight :: "ws_await \<Rightarrow> nat" where
  "await_weight A_start = 60" | "await_weight A_resolve = 57" | "await_weight A_connect = 56"
| "await_weight A_tls = 55" | "await_weight A_handshake = 54"

fun coroutine_weight :: "ws_coroutine \<Rightarrow> nat" where
  "coroutine_weight No_session = 0"
| "coroutine_weight (Awaiting a) = await_weight a"
| "coroutine_weight In_handler = 44"
| "coroutine_weight (Finished f) = 42"
| "coroutine_weight Over = 0"

fun after_weight :: "ws_after \<Rightarrow> nat" where
  "after_weight A_connected = 1"
| "after_weight A_session_error = 12"
| "after_weight A_late_error = 12"
| "after_weight A_release = 4"
| "after_weight A_read_error = 20"
| "after_weight A_data = 20"
| "after_weight A_write_error = 20"
| "after_weight A_close_error = 10"
| "after_weight A_end = 2"

fun ws_handler_weight :: "ws_handler \<Rightarrow> nat" where
  "ws_handler_weight H_none = 0"
| "ws_handler_weight H_begin = 14"
| "ws_handler_weight H_abort = 1"
| "ws_handler_weight H_shaken = 8"
| "ws_handler_weight H_connect = 7"
| "ws_handler_weight (H_completion f) = 40"
| "ws_handler_weight (H_completed f p) = 30"
| "ws_handler_weight (H_read_error r) = 16"
| "ws_handler_weight H_read_status = 15"
| "ws_handler_weight H_read_store = 14"
| "ws_handler_weight (H_data bs) = 16"
| "ws_handler_weight (H_write_error r) = 30"
| "ws_handler_weight (H_close_done r) = 20"
| "ws_handler_weight H_close_store = 9"
| "ws_handler_weight H_release = 1"
| "ws_handler_weight (H_check c k) = after_weight k + 4"
| "ws_handler_weight (H_about c k) = after_weight k + 3"
| "ws_handler_weight (H_in c k) = after_weight k + 2"
| "ws_handler_weight (H_after k) = after_weight k + 1"

fun closing_weight :: "ws_closing \<Rightarrow> nat" where
  "closing_weight (Closing was) = 42"
| "closing_weight (Close_posted was) = 41"
| "closing_weight _ = 0"

definition ws_weight :: "ws \<Rightarrow> nat" where
  "ws_weight s = coroutine_weight (coroutine s) + ws_handler_weight (handler s) + closing_weight (closing s)
     + (if reading s then 18 else 0) + (if writing s then 40 else 0) + (if close_handshake s then 40 else 0)"

lemma close_closed [simp]: "ws_status s \<ge> DISCONNECTING \<Longrightarrow> close s = s"
  by (simp add: close_def close_swap_def)

lemma closed_status:
  "ws_status s \<ge> DISCONNECTING \<Longrightarrow> ws_status s \<noteq> CONNECTING \<and> ws_status s \<noteq> CONNECTED"
  by (auto simp: less_eq_ws_status_def)

lemma release_weight [simp]: "ws_weight (release_buffer s) = ws_weight s"
  by (simp add: ws_weight_def)

lemma after_weight_less:
  assumes "shape s" "ws_status s \<ge> DISCONNECTING" "handler s = H_after k"
  shows "ws_weight (after_callback k s) < ws_weight s"
proof -
  have "coroutine s = In_handler" if "k = A_connected"
    using that shapeD(1) [OF assms(1)] assms(3) by (simp add: in_coroutine_def)
  moreover have "\<not> reading s" if "k = A_data" using that shapeD(6) [OF assms(1)] assms(3) by auto
  ultimately show ?thesis
    using assms(2,3) closed_status [OF assms(2)]
    by (cases k) (auto simp: ws_weight_def after_connected_def)
qed

lemma runs_weight:
  assumes "shape s" "ws_status s \<ge> DISCONNECTING"
  shows "pred_option (\<lambda>t. ws_weight t < ws_weight s) (handler_runs (handler s) s)"
proof -
  note st = closed_status [OF assms(2)]
  have co: "coroutine s = In_handler" if "in_coroutine (handler s)" using shapeD(1) [OF assms(1) that] .
  show ?thesis
  proof (cases "handler s")
    case (H_after k)
    then show ?thesis using after_weight_less [OF assms] by simp
  next
    case (H_completion f)
    then show ?thesis using completion_cases [OF assms(1) H_completion] by (simp add: ws_weight_def)
  next
    case H_begin
    then show ?thesis using st by (simp add: begin_session_def ws_weight_def)
  next
    case H_abort
    then show ?thesis using st co by (simp add: abort_session_def ws_weight_def in_coroutine_def)
  next
    case H_connect
    then show ?thesis using st co by (simp add: connect_def ws_weight_def in_coroutine_def)
  qed (use st in \<open>auto simp: ws_weight_def shaken_def completed_def read_data_def read_error_def read_status_def
      write_error_def close_done_def\<close>)
qed

lemma internal_weight:
  assumes "end_inv s" "ws_internal s t"
  shows "ws_weight t < ws_weight s"
proof -
  obtain m where m: "by_itself m" "ws_moved m s = Some t" "t \<noteq> s" and st: "ws_status s \<ge> DISCONNECTING"
    using assms(2) by (auto simp: ws_internal_def)
  have shape: "shape s" using assms(1) by (simp add: end_inv_def ws_inv_def)
  show ?thesis
  proof (cases m)
    case Posts_close
    then obtain was where "closing s = Closing was" "t = s\<lparr>closing := Close_posted was\<rparr>"
      using m(2,3) by (cases "closing s") (auto simp: close_post_def)
    then show ?thesis by (simp add: ws_weight_def)
  next
    case Resumes
    obtain a where a: "coroutine s = Awaiting a" "handler s = H_none" "t = resumed a s"
      using m(2) Resumes by (auto simp: idle_do_def split: ws_coroutine.splits if_splits)
    then show ?thesis by (cases a) (simp_all add: ws_weight_def)
  next
    case (Await_fails c)
    obtain a where a: "coroutine s = Awaiting a" "t = s\<lparr>coroutine := Finished (\<not> c)\<rparr>"
      using m(2) Await_fails by (auto simp: await_failed_def split: ws_coroutine.splits if_splits)
    then show ?thesis by (cases a) (simp_all add: ws_weight_def)
  next
    case Completes
    obtain f where "coroutine s = Finished f" "handler s = H_none" "t = s\<lparr>coroutine := Over, handler := H_completion f\<rparr>"
      using m(2) Completes by (auto simp: idle_do_def split: ws_coroutine.splits if_splits)
    then show ?thesis by (simp add: ws_weight_def)
  next
    case Runs
    then show ?thesis using runs_weight [OF shape st] m(2) by simp
  next
    case Runs_close
    then show ?thesis using m(2) by (auto simp: run_close_def ws_weight_def split: ws_closing.splits if_splits)
  next
    case Returns
    then show ?thesis using m(2) by (auto simp: ws_weight_def split: ws_handler.splits)
  next
    case Throws
    then obtain c k where h: "handler s = H_in c k" "t = callback_throws c k s" using m(2) by (auto split: ws_handler.splits)
    have "coroutine s = In_handler" if "k = A_connected" using that h(1) shapeD(1) [OF shape] by (simp add: in_coroutine_def)
    with h show ?thesis by (auto simp: callback_throws_def ws_weight_def)
  qed (use m(1,2) in \<open>auto simp: idle_do_def ws_weight_def split: if_splits\<close>)
qed

interpretation ws_rest: comes_to_rest "ws_init shared tls pending" ws_step end_inv ws_internal ws_weight
  for shared tls pending :: bool
proof unfold_locales
  show "end_inv (ws_init shared tls pending)" by (rule end_inv_init)
  show "end_inv t" if "end_inv s" "ws_step s t" for s t using that by (auto elim!: ws_stepE intro: end_inv_moved)
  show "ws_step s t" if "ws_internal s t" for s t using that by (auto simp: ws_internal_def intro: ws_step.move)
qed (rule internal_weight)

text \<open>Nothing is left: no handler runs, nothing is in flight and nothing is posted.\<close>

definition at_rest :: "ws \<Rightarrow> bool" where
  "at_rest s \<longleftrightarrow> handler s = H_none \<and> \<not> reading s \<and> \<not> writing s \<and> \<not> close_handshake s \<and> \<not> closing_due (closing s)
     \<and> (coroutine s = No_session \<or> coroutine s = Over)"

lemma at_rest_ends:
  assumes "end_inv s" "at_rest s" "calm s" "\<not> unopened s"
  shows "(is_shared s \<longrightarrow> release_state s = KReleased) \<and> ws_status s \<noteq> DISCONNECTING"
proof -
  have rest: "\<not> owes_release (handler s) (coroutine s) (read_started s) (reading s)"
      "\<not> owes_status (handler s) (coroutine s) (read_started s) (closing s) (close_handshake s)"
    using assms(2) by (auto simp: at_rest_def owed_defs owes_status_def)
  have "owed_release s" "owed_status s" using assms(1) by (simp_all add: end_inv_def)
  then show ?thesis using rest assms(3,4) unfolding owed_release_def owed_status_def by blast
qed

text \<open>In a closed session whatever is left can run.\<close>

lemma ws_differs:
  "coroutine t \<noteq> coroutine s \<or> reading t \<noteq> reading s \<or> writing t \<noteq> writing s \<or> closing t \<noteq> closing s
     \<or> close_handshake t \<noteq> close_handshake s \<or> handler t \<noteq> handler s \<Longrightarrow> t \<noteq> s"
  by auto

lemma idle_moves:
  assumes "handler s = H_none" "coroutine s \<noteq> In_handler" "\<not> at_rest s"
  shows "\<exists>m t. by_itself m \<and> ws_moved m s = Some t \<and> t \<noteq> s"
proof -
  have move: ?thesis if "by_itself m" "ws_moved m s = Some t"
      "coroutine t \<noteq> coroutine s \<or> reading t \<noteq> reading s \<or> writing t \<noteq> writing s \<or> closing t \<noteq> closing s
        \<or> close_handshake t \<noteq> close_handshake s \<or> handler t \<noteq> handler s" for m t
    using that ws_differs by blast
  have "reading s \<or> writing s \<or> close_handshake s \<or> closing_due (closing s) \<or> (coroutine s \<noteq> No_session \<and> coroutine s \<noteq> Over)"
    using assms by (auto simp: at_rest_def)
  then consider "reading s" | "writing s" | "close_handshake s" | was where "closing s = Closing was"
    | was where "closing s = Close_posted was" | a where "coroutine s = Awaiting a" | f where "coroutine s = Finished f"
    using assms(2) by (cases "closing s"; cases "coroutine s") auto
  then show ?thesis
  proof cases
    case 1
    then show ?thesis using assms(1) by (intro move [of "Read_fails False" "s\<lparr>reading := False, handler := H_read_error False\<rparr>"]) (simp_all add: idle_do_def)
  next
    case 2
    then show ?thesis using assms(1) by (intro move [of Written "s\<lparr>writing := False\<rparr>"]) (simp_all add: idle_do_def)
  next
    case 3
    then show ?thesis using assms(1) by (intro move [of "Close_ends False" "s\<lparr>close_handshake := False, handler := H_close_done False\<rparr>"]) (simp_all add: idle_do_def)
  next
    case (4 was)
    then show ?thesis by (intro move [of Posts_close "s\<lparr>closing := Close_posted was\<rparr>"]) (simp_all add: close_post_def)
  next
    case (5 was)
    show ?thesis
    proof (cases "was = CONNECTING")
      case True
      with 5 show ?thesis using assms(1) by (intro move [of Runs_close "s\<lparr>closing := Close_ran was\<rparr>"]) (simp_all add: run_close_def)
    next
      case False
      with 5 show ?thesis using assms(1)
        by (intro move [of Runs_close "s\<lparr>closing := Close_ran was, close_handshake := True\<rparr>"]) (simp_all add: run_close_def)
    qed
  next
    case (6 a)
    then show ?thesis using assms(1)
      by (intro move [of Resumes "resumed a s"]; cases a) (simp_all add: idle_do_def)
  next
    case (7 f)
    then show ?thesis using assms(1) by (intro move [of Completes "s\<lparr>coroutine := Over, handler := H_completion f\<rparr>"]) (simp_all add: idle_do_def)
  qed
qed

lemma closed_progress:
  assumes "end_inv s" "session_started s" "ws_status s \<ge> DISCONNECTING" "\<nexists>t. ws_internal s t"
  shows "at_rest s"
proof (rule ccontr)
  assume not_rest: "\<not> at_rest s"
  have shape: "shape s" using assms(1) by (simp add: end_inv_def ws_inv_def)
  have none: "\<not> (by_itself m \<and> ws_moved m s = Some t \<and> t \<noteq> s)" for m t
    using assms(2-4) by (auto simp: ws_internal_def)
  show False
  proof (cases "handler s = H_none")
    case True
    then have "coroutine s \<noteq> In_handler" using shapeD(2) [OF shape] by (auto simp: in_coroutine_def)
    with True idle_moves not_rest none show False by blast
  next
    case False
    then consider t where "handler_runs (handler s) s = Some t" | c k where "handler s = H_in c k" by (cases "handler s") auto
    then show False
    proof cases
      case 1
      then have "t \<noteq> s" using runs_weight [OF shape assms(3)] by auto
      with 1 none [of Runs t] show False by simp
    next
      case 2
      then show False using none [of Returns "s\<lparr>handler := H_after k\<rparr>"] ws_differs [of "s\<lparr>handler := H_after k\<rparr>" s] by simp
    qed
  qed
qed

definition keeps :: "ws \<Rightarrow> ws \<Rightarrow> bool" where
  "keeps s t \<longleftrightarrow> (session_started s \<longrightarrow> session_started t) \<and> (unopened t \<longrightarrow> unopened s)"

lemma runs_keeps: "pred_option (keeps s) (handler_runs (handler s) s)"
proof (cases "handler s")
  case (H_after k)
  then show ?thesis by (cases k) (auto simp: keeps_def after_connected_def)
qed (auto simp: keeps_def ws_ops)

lemma ws_internal_keeps:
  assumes "ws_internal s t"
  shows "keeps s t"
proof -
  obtain m where m: "by_itself m" "ws_moved m s = Some t" using assms by (auto simp: ws_internal_def)
  show ?thesis
  proof (cases m)
    case Resumes
    have "keeps s (resumed a s)" for a by (cases a) (simp_all add: keeps_def)
    with Resumes m(2) show ?thesis by (auto simp: idle_do_def split: ws_coroutine.splits if_splits)
  next
    case Runs
    then show ?thesis using runs_keeps [of s] m(2) by simp
  qed (use m in \<open>auto simp: keeps_def idle_do_def await_failed_def run_close_def close_post_def callback_throws_def
      split: ws_coroutine.splits ws_handler.splits ws_closing.splits if_splits\<close>)
qed

lemma internal_status:
  assumes "end_inv s" "ws_internal s t"
  shows "ws_status t \<ge> DISCONNECTING"
proof -
  have "shape s" "session_started s" "ws_status s \<ge> DISCONNECTING" using assms by (simp_all add: end_inv_def ws_inv_def ws_internal_def)
  moreover obtain m where "ws_moved m s = Some t" using assms(2) by (auto simp: ws_internal_def)
  ultimately show ?thesis using moved_forward [of s m] by (simp add: forward_def less_eq_ws_status_def)
qed

lemma internal_run_keeps:
  assumes "ws_internal\<^sup>*\<^sup>* s t" "end_inv s" "session_started s" "ws_status s \<ge> DISCONNECTING"
  shows "keeps s t \<and> end_inv t \<and> session_started t \<and> ws_status t \<ge> DISCONNECTING"
  using assms(1)
proof (induction rule: rtranclp_induct)
  case base
  then show ?case using assms by (simp add: keeps_def)
next
  case (step t u)
  have "end_inv u" using step end_inv_moved by (auto simp: ws_internal_def)
  moreover have "ws_status u \<ge> DISCONNECTING" using internal_status step by blast
  moreover have "keeps t u" using ws_internal_keeps step by blast
  ultimately show ?case using step by (auto simp: keeps_def)
qed

text \<open>The next session has registered, or has been opened.\<close>

definition waiting :: "ws \<Rightarrow> bool" where
  "waiting s \<longleftrightarrow> release_state s = KCallbackSet \<or> Handed_over \<in> set (trace s)"

lemma waiting_release: "waiting s \<Longrightarrow> is_shared s \<Longrightarrow> waiting (release_buffer s)"
  by (auto simp: waiting_def release_buffer_def Let_def)

lemma waiting_release_private: "waiting s \<Longrightarrow> waiting (release_buffer s)"
  by (cases "is_shared s") (auto simp: waiting_release, simp add: release_buffer_def)

lemma waiting_frame: "waiting s \<Longrightarrow> release_state t = release_state s \<Longrightarrow> set (trace s) \<subseteq> set (trace t) \<Longrightarrow> waiting t"
  by (auto simp: waiting_def)

lemma moved_waiting:
  assumes "waiting s"
  shows "pred_option waiting (ws_moved m s)"
proof (cases m)
  case Opens
  then show ?thesis
    by (auto simp: open_impl_def Let_def intro!: waiting_release_private waiting_frame [OF assms])
next
  case Resumes
  have "waiting (resumed a s)" for a by (cases a) (auto intro: waiting_frame [OF assms])
  with Resumes show ?thesis by (simp add: idle_do_def split: ws_coroutine.split)
next
  case Runs
  have "waiting (after_callback k s)" for k
    by (cases k) (auto simp: after_connected_def intro!: waiting_frame [OF assms])
  moreover have "waiting (release_buffer (s\<lparr>handler := H_none\<rparr>))"
    by (rule waiting_release_private) (rule waiting_frame [OF assms]; simp)
  ultimately show ?thesis using Runs
    by (cases "handler s") (auto simp: ws_ops intro!: waiting_frame [OF assms])
next
  case Registers
  then show ?thesis using assms by (auto simp: set_on_buffer_released_def waiting_def)
qed (auto simp: idle_do_def await_failed_def run_close_def close_post_def close_swap_def callback_throws_def
    intro!: waiting_frame [OF assms] assms split: ws_coroutine.split ws_handler.split ws_closing.split)

section \<open>Properties\<close>

lemma started_opened: "end_inv s \<Longrightarrow> session_started s \<Longrightarrow> \<not> unopened s"
  using shape_no_session(2) [OF _ shape_unopened] by (auto simp: end_inv_def ws_inv_def)

text \<open>
  C2. Once \<open>close()\<close> has won, or the connection is gone, a session ends by itself: every run of what is left is finite, whatever
  the callbacks throw, can be completed, and ends with no handler, no operation and no posted \<open>close\<close> left.  If none of its
  callbacks has thrown by then, it reads DISCONNECTED and has released the shared buffer, so that the session waiting for it can open.
\<close>
theorem closed_session_comes_to_rest:
  assumes "reachable (ws_init shared tls pending) ws_step s" "session_started s" "ws_status s \<ge> DISCONNECTING"
  shows "(\<forall>n t. (ws_internal ^^ n) s t \<longrightarrow> n \<le> ws_weight s)
     \<and> (\<exists>t. ws_internal\<^sup>*\<^sup>* s t \<and> (\<nexists>u. ws_internal t u))
     \<and> (\<forall>t. ws_internal\<^sup>*\<^sup>* s t \<and> (\<nexists>u. ws_internal t u) \<longrightarrow>
          at_rest t \<and> (calm t \<longrightarrow> ws_status t = DISCONNECTED \<and> (is_shared t \<longrightarrow> release_state t = KReleased)))"
proof (intro conjI allI impI)
  have inv: "end_inv s" by (rule ws_rest.reachable_inv [OF assms(1)])
  show "n \<le> ws_weight s" if "(ws_internal ^^ n) s t" for n t using ws_rest.run_bounded [OF that inv] .
  show "\<exists>t. ws_internal\<^sup>*\<^sup>* s t \<and> (\<nexists>u. ws_internal t u)" by (rule ws_rest.rests [OF inv])
  fix t assume t: "ws_internal\<^sup>*\<^sup>* s t \<and> (\<nexists>u. ws_internal t u)"
  then have k: "keeps s t" "end_inv t" "session_started t" "ws_status t \<ge> DISCONNECTING"
    using internal_run_keeps inv assms(2,3) by blast+
  show rest: "at_rest t" using closed_progress [OF k(2-4)] t by blast
  have ends: "(is_shared t \<longrightarrow> release_state t = KReleased) \<and> ws_status t \<noteq> DISCONNECTING" if "calm t"
    using at_rest_ends [OF k(2) rest that started_opened [OF k(2,3)]] .
  show "ws_status t = DISCONNECTED" if "calm t" using ends [OF that] k(4) by (cases "ws_status t") (auto simp: less_eq_ws_status_def)
  show "release_state t = KReleased" if "calm t" "is_shared t" using ends [OF that(1)] that(2) by blast
qed

definition closing_session :: ws where
  "closing_session = talking\<lparr>ws_status := DISCONNECTING, closing := Closing CONNECTED\<rparr>"

theorem closed_session_comes_to_rest_witness:
  "\<exists>t. ws_internal\<^sup>*\<^sup>* closing_session t \<and> at_rest t \<and> (calm t \<longrightarrow> ws_status t = DISCONNECTED)"
proof -
  have "ws_step talking closing_session"
    by (rule ws_step.move [of Closes]) (simp add: talking_def closing_session_def close_swap_def less_eq_ws_status_def)
  then have "reachable (ws_init True False False) ws_step closing_session"
    using talking_reachable unfolding plain_session_def by (rule reachable.next_step [rotated])
  moreover have "session_started closing_session" "ws_status closing_session \<ge> DISCONNECTING"
    by (simp_all add: closing_session_def talking_def)
  ultimately show ?thesis using closed_session_comes_to_rest by blast
qed

text \<open>
  A reconnect that waits for the shared buffer is never forgotten: once the next session has registered with the old
  one, it has been opened by the time the old one has nothing left to run, unless a callback threw.
\<close>
lemma waiting_session_opened:
  assumes "reachable (ws_init True tls pending) ws_step s" "ws_moved Registers s = Some u" "ws_step\<^sup>*\<^sup>* u t"
    "at_rest t" "calm t" "\<not> unopened t"
  shows "Handed_over \<in> set (trace t)"
proof -
  have u: "reachable (ws_init True tls pending) ws_step u"
    by (rule reachable.next_step [OF assms(1) ws_step.move [OF assms(2)]])
  have t: "reachable (ws_init True tls pending) ws_step t" by (rule steps_reachable [OF assms(3) u])
  have "waiting u" using assms(2) by (auto simp: waiting_def set_on_buffer_released_def split: if_splits)
  with assms(3) have "waiting t"
  proof (induction rule: rtranclp_induct)
    case (step v w)
    then obtain m where "ws_moved m v = Some w" by (auto elim: ws_stepE)
    with step show ?case using moved_waiting [of v m] by simp
  qed
  moreover have "release_state t = KReleased"
    using at_rest_ends [OF ws_rest.reachable_inv [OF t] assms(4-6)] reachable_shared [OF t] by simp
  ultimately show ?thesis by (simp add: waiting_def)
qed

text \<open>A reconnect registered while the session talks, with the session run to its end.\<close>

lemma waiting_session_opened_witness: "Handed_over \<in> set (trace closed_session) \<and> at_rest closed_session"
proof -
  define u where "u = talking\<lparr>release_state := KCallbackSet\<rparr>"
  have u: "ws_moved Registers talking = Some u" by (simp add: u_def talking_def set_on_buffer_released_def plain_session_def ws_init_def)
  have "ws_schedule [Closes, Posts_close, Runs_close, Close_ends False, Runs, Runs, Runs, Runs, Returns, Runs,
      Read_fails False, Runs, Runs, Runs] u = Some closed_session"
    by (simp add: u_def run_session_defs talking_def closed_session_def)
  then have steps: "ws_step\<^sup>*\<^sup>* u closed_session" by (rule ws_schedule_steps)
  have rest: "at_rest closed_session" "calm closed_session" "\<not> unopened closed_session"
    by (simp_all add: at_rest_def calm_def closed_session_def talking_def plain_session_def ws_init_def)
  show ?thesis
    using waiting_session_opened [OF talking_reachable [unfolded plain_session_def] u steps rest] rest(1) by simp
qed

end
