(* ===== verification/Ws_Object.thy ===== *)
theory Ws_Object
  imports Ws_Session_Ends "HOL-Library.Word"
begin

text \<open>
  The outer class \<open>Websocket\<close> of \<open>detail/websocket_impl.hpp\<close>: one object and the sessions (\<open>Impl\<close>s) it has had, with
  \<open>open\<close>, \<open>close\<close>, \<open>detach\<close>, \<open>status\<close> and the destructor, and the chain in which sessions over a shared backend hand
  it on; and the checks and the record of \<open>Impl::send\<close>.
\<close>

section \<open>The object\<close>

text \<open>
  \<open>sessions\<close> are the \<open>Impl\<close>s in the order they were made; the last one is \<open>impl_\<close>.  \<open>deciding\<close>: an \<open>open()\<close> is between
  its two looks at the status of a started session.
\<close>

record websocket =
  shares :: bool
  secure :: bool
  sessions :: "ws list"
  deciding :: bool
  destroyed :: bool

definition websocket_init :: "bool \<Rightarrow> bool \<Rightarrow> websocket" where
  "websocket_init shared tls = \<lparr>shares = shared, secure = tls, sessions = [], deciding = False, destroyed = False\<rparr>"

definition object_status :: "websocket \<Rightarrow> ws_status" where
  "object_status w = (if sessions w = [] then DISCONNECTED else ws_status (last (sessions w)))"

text \<open>\<open>Impl::open\<close> of session \<open>k\<close>; one that was cancelled or abandoned hands the buffer on to the next.\<close>

definition hands_over :: "ws \<Rightarrow> ws \<Rightarrow> bool" where
  "hands_over s t \<longleftrightarrow> Handed_over \<in> set (trace t) \<and> Handed_over \<notin> set (trace s)"

function open_session :: "nat \<Rightarrow> ws list \<Rightarrow> ws list" where
  "open_session k ss =
     (if k < length ss
      then let s = ss ! k; t = open_impl s; ss = ss[k := t] in
           if is_shared s \<and> hands_over s t then open_session (Suc k) ss else ss
      else ss)"
  by pat_completeness auto

termination by (relation "measure (\<lambda>(k, ss). length ss - k)") auto

declare open_session.simps [simp del]

text \<open>Session \<open>k\<close> goes on; when it releases the buffer, the session that waits for it is opened.\<close>

definition session_goes :: "nat \<Rightarrow> ws \<Rightarrow> ws list \<Rightarrow> ws list" where
  "session_goes k t ss =
     (if is_shared t \<and> hands_over (ss ! k) t then open_session (Suc k) (ss[k := t]) else ss[k := t])"

text \<open>The part of \<open>Impl::close\<close> that decides; its post is \<^const>\<open>Posts_close\<close>.\<close>

definition impl_close :: "ws \<Rightarrow> ws" where
  "impl_close s = (case close_swap s of None \<Rightarrow> s | Some t \<Rightarrow> t)"

text \<open>\<open>open()\<close> once it has decided to replace the session \<open>old\<close>.\<close>

definition replace_session :: "websocket \<Rightarrow> websocket" where
  "replace_session w =
     (let n = length (sessions w) - 1; old = (last (sessions w))\<lparr>detached := True\<rparr>;
          old = (if session_started old then impl_close old else old)
      in if shares w
         then let next = ws_init True (secure w) True in
              w\<lparr>sessions := session_goes n (set_on_buffer_released old) ((sessions w)[n := old] @ [next])\<rparr>
         else w\<lparr>sessions := open_session (Suc n) ((sessions w)[n := old] @ [ws_init False (secure w) False])\<rparr>)"

text \<open>\<open>open()\<close> up to its first look at the status, and the rest.\<close>

definition object_open :: "websocket \<Rightarrow> websocket" where
  "object_open w =
     (if sessions w = [] then w\<lparr>sessions := open_session 0 [ws_init (shares w) (secure w) False]\<rparr>
      else let impl = last (sessions w) in
           if \<not> session_started impl then (if \<not> open_cancelled impl then w else replace_session w)
           else if ws_status impl = CONNECTED then w
           else w\<lparr>deciding := True\<rparr>)"

definition object_decides :: "websocket \<Rightarrow> websocket" where
  "object_decides w =
     (let w = w\<lparr>deciding := False\<rparr> in if ws_status (last (sessions w)) = CONNECTING then w else replace_session w)"

definition on_last :: "(ws \<Rightarrow> ws) \<Rightarrow> websocket \<Rightarrow> websocket" where
  "on_last f w = (if sessions w = [] then w
     else w\<lparr>sessions := (sessions w)[length (sessions w) - 1 := f (last (sessions w))]\<rparr>)"

definition object_close :: "websocket \<Rightarrow> websocket \<times> bool" where
  "object_close w =
     (if sessions w = [] then (w, True)
      else let impl = last (sessions w) in
           if \<not> session_started impl then (on_last (\<lambda>s. s\<lparr>open_cancelled := True\<rparr>) w, True)
           else (on_last impl_close w, close_swap impl \<noteq> None))"

definition object_detach :: "websocket \<Rightarrow> websocket" where
  "object_detach w = on_last (\<lambda>s. s\<lparr>detached := True\<rparr>) w"

definition object_destroy :: "websocket \<Rightarrow> websocket" where
  "object_destroy w =
     (on_last (\<lambda>s. let s = s\<lparr>detached := True, open_cancelled := True\<rparr> in if session_started s then impl_close s else s) w)
       \<lparr>destroyed := True\<rparr>"

text \<open>A session goes on by itself: anything but what its object does to it.\<close>

fun own_move :: "ws_move \<Rightarrow> bool" where
  "own_move Opens = False"
| "own_move Registers = False"
| "own_move m = True"

inductive object_step :: "websocket \<Rightarrow> websocket \<Rightarrow> bool" where
  goes: "k < length (sessions w) \<Longrightarrow> own_move m \<Longrightarrow> ws_moved m (sessions w ! k) = Some t \<Longrightarrow>
     object_step w (w\<lparr>sessions := session_goes k t (sessions w)\<rparr>)"
| opens: "\<not> destroyed w \<Longrightarrow> \<not> deciding w \<Longrightarrow> object_step w (object_open w)"
| decides: "\<not> destroyed w \<Longrightarrow> deciding w \<Longrightarrow> object_step w (object_decides w)"
| closes: "\<not> destroyed w \<Longrightarrow> \<not> deciding w \<Longrightarrow> object_step w (fst (object_close w))"
| detaches: "\<not> destroyed w \<Longrightarrow> \<not> deciding w \<Longrightarrow> object_step w (object_detach w)"
| destroys: "\<not> destroyed w \<Longrightarrow> \<not> deciding w \<Longrightarrow> object_step w (object_destroy w)"

section \<open>The chain of sessions\<close>

text \<open>Each session over a shared backend was made by the code, and is opened exactly when its predecessor has handed over.\<close>

definition genuine :: "ws \<Rightarrow> bool" where
  "genuine s \<longleftrightarrow> (\<exists>tls pending. reachable (ws_init True tls pending) ws_step s)"

definition linked_from :: "nat \<Rightarrow> ws list \<Rightarrow> bool" where
  "linked_from k ss \<longleftrightarrow> (\<forall>i < length ss. waiting (ss ! i) \<longleftrightarrow> Suc i < length ss)
     \<and> (\<forall>i < length ss. genuine (ss ! i))
     \<and> (\<forall>i < length ss. i \<noteq> k \<longrightarrow> unopened (ss ! i) \<longleftrightarrow> i \<noteq> 0 \<and> Handed_over \<notin> set (trace (ss ! (i - 1))))"

text \<open>Outside the moment in which session \<open>k\<close> is being opened.\<close>

definition chained :: "ws list \<Rightarrow> bool" where
  "chained ss \<longleftrightarrow> linked_from (length ss) ss"

lemma genuine_inv: "genuine s \<Longrightarrow> end_inv s" and genuine_shared: "genuine s \<Longrightarrow> is_shared s"
  by (auto simp: genuine_def intro: ws_rest.reachable_inv dest: reachable_shared)

lemma genuine_moved: "genuine s \<Longrightarrow> ws_moved m s = Some t \<Longrightarrow> genuine t"
  by (auto simp: genuine_def intro: reachable.next_step ws_step.move)

lemma genuine_handed_idle:
  assumes "genuine s" "Handed_over \<in> set (trace s)"
  shows "buffer_idle s" "\<not> unopened s"
proof -
  have inv: "shape s" "buffer_inv s" using genuine_inv [OF assms(1)] by (simp_all add: end_inv_def ws_inv_def)
  then show idle: "buffer_idle s" using genuine_shared [OF assms(1)] assms(2) by (simp add: buffer_inv_def)
  show "\<not> unopened s"
    using idle shape_unopened [OF inv(1)] shapeD(4) [OF inv(1)] by (auto simp: buffer_idle_def)
qed

text \<open>Only a registration makes a session wait; only \<open>Opens\<close> opens it; the hand-over is not undone.\<close>

lemma waiting_release_new: "\<not> waiting s \<Longrightarrow> \<not> waiting (release_buffer s)"
  by (auto simp: waiting_def release_buffer_def Let_def)

lemma not_waiting_frame:
  "\<not> waiting s \<Longrightarrow> release_state t = release_state s \<Longrightarrow> Handed_over \<in> set (trace t) \<longleftrightarrow> Handed_over \<in> set (trace s) \<Longrightarrow> \<not> waiting t"
  by (auto simp: waiting_def)

definition same_chain :: "ws \<Rightarrow> ws \<Rightarrow> bool" where
  "same_chain s t \<longleftrightarrow> (waiting t \<longleftrightarrow> waiting s) \<and> (Handed_over \<in> set (trace s) \<longrightarrow> Handed_over \<in> set (trace t))"

lemma same_chain_frame:
  "release_state t = release_state s \<Longrightarrow> Handed_over \<in> set (trace t) \<longleftrightarrow> Handed_over \<in> set (trace s) \<Longrightarrow> same_chain s t"
  by (auto simp: same_chain_def waiting_def)

lemma same_chain_release: "release_state u = release_state s \<Longrightarrow> trace u = trace s \<Longrightarrow> same_chain s (release_buffer u)"
  by (auto simp: same_chain_def waiting_def release_buffer_def Let_def)

lemma moved_same_chain:
  assumes "m \<noteq> Registers"
  shows "pred_option (same_chain s) (ws_moved m s)"
proof (cases m)
  case Opens
  have "same_chain s (release_buffer (s\<lparr>unopened := False\<rparr>))"
      "same_chain s (release_buffer (s\<lparr>unopened := False, ws_status := DISCONNECTED\<rparr>))"
    by (rule same_chain_release; simp)+
  with Opens show ?thesis by (auto simp: open_impl_def Let_def same_chain_frame)
next
  case Resumes
  have "same_chain s (resumed a s)" for a by (cases a) (auto intro: same_chain_frame)
  with Resumes show ?thesis by (simp add: idle_do_def split: ws_coroutine.split)
next
  case Runs
  have "same_chain s (after_callback k s)" for k
    by (cases k) (auto simp: after_connected_def intro!: same_chain_frame)
  moreover have "same_chain s (release_buffer (s\<lparr>handler := H_none\<rparr>))" by (rule same_chain_release; simp)
  ultimately show ?thesis using Runs by (cases "handler s") (auto simp: ws_ops same_chain_frame)
qed (use assms in \<open>auto simp: idle_do_def await_failed_def run_close_def close_post_def close_swap_def callback_throws_def
    intro!: same_chain_frame split: ws_coroutine.split ws_handler.split ws_closing.split\<close>)

lemma moved_unopened: "m \<noteq> Opens \<Longrightarrow> pred_option (\<lambda>t. unopened t = unopened s) (ws_moved m s)"
proof (cases m)
  case Resumes
  have "unopened (resumed a s) = unopened s" for a by (cases a) simp_all
  with Resumes show ?thesis by (simp add: idle_do_def split: ws_coroutine.split)
next
  case Runs
  have "unopened (after_callback k s) = unopened s" for k by (cases k) (simp_all add: after_connected_def)
  with Runs show ?thesis by (cases "handler s") (simp_all add: ws_ops)
qed (simp_all add: ws_ops close_swap_def close_post_def set_on_buffer_released_def
    split: ws_coroutine.split ws_handler.split ws_closing.split)

lemma open_impl_keeps:
  assumes "genuine s" "unopened s"
  shows "genuine (open_impl s)" "\<not> unopened (open_impl s)" "same_chain s (open_impl s)" "Handed_over \<notin> set (trace s)"
proof -
  have m: "ws_moved Opens s = Some (open_impl s)" using assms(2) by simp
  show "genuine (open_impl s)" by (rule genuine_moved [OF assms(1) m])
  show "same_chain s (open_impl s)" using moved_same_chain [of Opens s] m by simp
  show "\<not> unopened (open_impl s)" by (auto simp: open_impl_def Let_def)
  show "Handed_over \<notin> set (trace s)" using genuine_handed_idle(2) [OF assms(1)] assms(2) by blast
qed

lemma nth_upd: "k < length xs \<Longrightarrow> xs[k := x] ! i = (if i = k then x else xs ! i)"
  by (cases "i = k") simp_all

lemma open_session_chained:
  assumes "linked_from k ss" "k < length ss" "unopened (ss ! k)" "k \<noteq> 0 \<longrightarrow> Handed_over \<in> set (trace (ss ! (k - 1)))"
  shows "chained (open_session k ss)"
  using assms
proof (induction "length ss - k" arbitrary: k ss)
  case (Suc n)
  let ?s = "ss ! k" and ?t = "open_impl (ss ! k)" and ?ss = "ss[k := open_impl (ss ! k)]"
  have l: "\<And>i. i < length ss \<Longrightarrow> waiting (ss ! i) \<longleftrightarrow> Suc i < length ss" "\<And>i. i < length ss \<Longrightarrow> genuine (ss ! i)"
    "\<And>i. i < length ss \<Longrightarrow> i \<noteq> k \<Longrightarrow> unopened (ss ! i) \<longleftrightarrow> i \<noteq> 0 \<and> Handed_over \<notin> set (trace (ss ! (i - 1)))"
    using Suc.prems(1,2) unfolding linked_from_def by auto
  note t = open_impl_keeps [OF l(2) [OF Suc.prems(2)] Suc.prems(3)]
  have waits: "waiting (?ss ! i) \<longleftrightarrow> Suc i < length ss" if "i < length ss" for i
    using l(1) [OF that] t(3) that by (cases "i = k") (auto simp: same_chain_def)
  have all: "genuine (?ss ! i)" if "i < length ss" for i
    using l(2) [OF that] t(1) that by (cases "i = k") auto
  show ?case
  proof (cases "hands_over ?s ?t")
    case True
    then have handed: "Handed_over \<in> set (trace ?t)" by (simp add: hands_over_def)
    then have "waiting ?t" by (simp add: waiting_def)
    then have k: "Suc k < length ss" using waits [OF Suc.prems(2)] Suc.prems(2) by simp
    have "linked_from (Suc k) ?ss"
      unfolding linked_from_def using waits all t(2) Suc.prems(2,4) l(3) by (auto simp: nth_upd)
    moreover have "unopened (?ss ! Suc k)" using l(3) [of "Suc k"] k t(4) by simp
    ultimately have "chained (open_session (Suc k) ?ss)"
      using Suc.hyps(1) [of ?ss "Suc k"] Suc.hyps(2) k handed by simp
    with True show ?thesis
      using genuine_shared [OF l(2) [OF Suc.prems(2)]] Suc.prems(2) by (subst open_session.simps) (simp add: Let_def)
  next
    case False
    then have "Handed_over \<notin> set (trace ?t)" using t(4) by (simp add: hands_over_def)
    then have "chained ?ss"
      unfolding chained_def linked_from_def using waits all t(2,4) Suc.prems(2,4) l(3)
      by (auto simp: nth_upd)
    with False show ?thesis using Suc.prems(2) by (subst open_session.simps) (simp add: Let_def)
  qed
qed simp

lemma session_goes_chained:
  assumes k: "k < length ss"
    and waits: "\<And>i. i < length ss \<Longrightarrow> i \<noteq> k \<Longrightarrow> waiting (ss ! i) \<longleftrightarrow> Suc i < length ss" "waiting t \<longleftrightarrow> Suc k < length ss"
    and all: "\<And>i. i < length ss \<Longrightarrow> genuine (ss ! i)" "genuine t"
    and unopened: "\<And>i. i < length ss \<Longrightarrow> unopened (ss ! i) \<longleftrightarrow> i \<noteq> 0 \<and> Handed_over \<notin> set (trace (ss ! (i - 1)))"
    and same: "unopened t = unopened (ss ! k)" "Handed_over \<in> set (trace (ss ! k)) \<longrightarrow> Handed_over \<in> set (trace t)"
  shows "chained (session_goes k t ss)"
proof -
  have waits': "waiting (ss[k := t] ! i) \<longleftrightarrow> Suc i < length ss" if "i < length ss" for i
    using waits that by (cases "i = k") auto
  have all': "genuine (ss[k := t] ! i)" if "i < length ss" for i using all that by (cases "i = k") auto
  show ?thesis
  proof (cases "hands_over (ss ! k) t")
    case True
    then have handed: "Handed_over \<in> set (trace t)" "Handed_over \<notin> set (trace (ss ! k))" by (simp_all add: hands_over_def)
    then have "Suc k < length ss" using waits(2) by (simp add: waiting_def)
    moreover from this have "unopened (ss[k := t] ! Suc k)" using unopened [of "Suc k"] handed(2) by simp
    moreover have "linked_from (Suc k) (ss[k := t])"
      unfolding linked_from_def using waits' all' unopened same k by (auto simp: nth_upd)
    ultimately have "chained (open_session (Suc k) (ss[k := t]))"
      using handed(1) k by (intro open_session_chained) simp_all
    with True show ?thesis using genuine_shared [OF all(2)] by (simp add: session_goes_def)
  next
    case False
    then have "Handed_over \<in> set (trace t) \<longleftrightarrow> Handed_over \<in> set (trace (ss ! k))" using same(2) by (auto simp: hands_over_def)
    then have "chained (ss[k := t])"
      unfolding chained_def linked_from_def using waits' all' unopened same(1) k by (auto simp: nth_upd)
    with False show ?thesis by (simp add: session_goes_def)
  qed
qed

lemma chainedD:
  assumes "chained ss" "i < length ss"
  shows "waiting (ss ! i) \<longleftrightarrow> Suc i < length ss" "genuine (ss ! i)"
    "unopened (ss ! i) \<longleftrightarrow> i \<noteq> 0 \<and> Handed_over \<notin> set (trace (ss ! (i - 1)))"
  using assms unfolding chained_def linked_from_def by auto

text \<open>A session changes without registering or being opened.\<close>

lemma session_changes_chained:
  assumes "chained ss" "k < length ss" "genuine t" "same_chain (ss ! k) t" "unopened t = unopened (ss ! k)"
  shows "chained (session_goes k t ss)"
  using chainedD [OF assms(1)] assms(2-5) by (intro session_goes_chained [OF assms(2)]) (auto simp: same_chain_def)

lemma own_move_chained:
  assumes "chained ss" "k < length ss" "own_move m" "ws_moved m (ss ! k) = Some t"
  shows "chained (session_goes k t ss)"
proof -
  have m: "m \<noteq> Registers" "m \<noteq> Opens" using assms(3) by auto
  have same: "same_chain (ss ! k) t" "unopened t = unopened (ss ! k)"
    using moved_same_chain [OF m(1), of "ss ! k"] moved_unopened [OF m(2), of "ss ! k"] assms(4) by simp_all
  show ?thesis
    by (rule session_changes_chained [OF assms(1,2) genuine_moved [OF chainedD(2) [OF assms(1,2)] assms(4)] same])
qed

text \<open>What the object does to a session is made of moves of it.\<close>

lemma genuine_flags:
  assumes "genuine s"
  shows "genuine (s\<lparr>detached := True\<rparr>)" "genuine (s\<lparr>open_cancelled := True\<rparr>)"
    "session_started s \<Longrightarrow> genuine (impl_close s)"
  using genuine_moved [OF assms, of Detaches] genuine_moved [OF assms, of Cancels] genuine_moved [OF assms, of Closes]
  by (auto simp: impl_close_def split: option.splits)

lemma impl_close_frame:
  "unopened (impl_close s) = unopened s" "trace (impl_close s) = trace s" "release_state (impl_close s) = release_state s"
  by (auto simp: impl_close_def close_swap_def)

text \<open>The object changes its last session without a hand-over.\<close>

lemma on_last_chained:
  assumes "chained (sessions w)" "genuine (last (sessions w)) \<Longrightarrow> genuine (f (last (sessions w)))"
    and "\<And>s. release_state (f s) = release_state s" "\<And>s. unopened (f s) = unopened s" "\<And>s. trace (f s) = trace s"
  shows "chained (sessions (on_last f w))"
proof (cases "sessions w = []")
  case False
  let ?ss = "sessions w" and ?k = "length (sessions w) - 1"
  have k: "?k < length ?ss" using False by simp
  have l: "last ?ss = ?ss ! ?k" using False by (simp add: last_conv_nth)
  have "chained (session_goes ?k (f (last ?ss)) ?ss)"
    by (rule session_changes_chained [OF assms(1) k])
      (use assms(2-5) chainedD(2) [OF assms(1) k] l in \<open>auto intro: same_chain_frame\<close>)
  moreover have "\<not> hands_over (?ss ! ?k) (f (last ?ss))" using assms(5) l by (simp add: hands_over_def)
  ultimately show ?thesis using False by (simp add: session_goes_def on_last_def)
qed (use assms in \<open>simp add: on_last_def\<close>)

lemma genuine_new: "genuine (ws_init True tls pending)" "\<not> waiting (ws_init True tls pending)" "unopened (ws_init True tls pending)"
proof -
  show "genuine (ws_init True tls pending)" unfolding genuine_def by (intro exI) (rule reachable.start)
qed (simp_all add: waiting_def ws_init_def)

lemma genuine_register:
  assumes "genuine s" "\<not> waiting s"
  shows "genuine (set_on_buffer_released s)" "waiting (set_on_buffer_released s)"
    "unopened (set_on_buffer_released s) = unopened s"
proof -
  have "ws_moved Registers s = Some (set_on_buffer_released s)" using assms(2) by (simp add: waiting_def)
  then show "genuine (set_on_buffer_released s)" by (rule genuine_moved [OF assms(1)])
qed (use genuine_shared [OF assms(1)] in \<open>auto simp: waiting_def set_on_buffer_released_def\<close>)

lemma replace_chained:
  assumes "chained (sessions w)" "sessions w \<noteq> []" "shares w"
  shows "chained (sessions (replace_session w))"
proof -
  define n where "n = length (sessions w) - 1"
  define old where "old = (let s = (last (sessions w))\<lparr>detached := True\<rparr> in if session_started s then impl_close s else s)"
  define next_one where "next_one = ws_init True (secure w) True"
  let ?ss = "(sessions w)[n := old] @ [next_one]"
  have n: "n < length (sessions w)" "Suc n = length (sessions w)" using assms(2) by (simp_all add: n_def)
  have l: "last (sessions w) = sessions w ! n" using assms(2) by (simp add: n_def last_conv_nth)
  have c: "genuine (sessions w ! n)" "\<not> waiting (sessions w ! n)"
    using chainedD [OF assms(1) n(1)] n(2) by simp_all
  have genuine_old: "genuine old"
    using genuine_flags(1) [OF c(1)] genuine_flags(3) [OF genuine_flags(1) [OF c(1)]] by (simp add: old_def l Let_def)
  have old: "unopened old = unopened (sessions w ! n)" "trace old = trace (sessions w ! n)" "release_state old = release_state (sessions w ! n)"
    by (simp_all add: old_def l Let_def impl_close_frame)
  have not_waiting: "\<not> waiting old" using c(2) old by (simp add: waiting_def)
  note reg = genuine_register [OF genuine_old not_waiting]
  have at: "?ss ! i = (if i = n then old else if i < n then sessions w ! i else next_one)" if "i < Suc (length (sessions w))" for i
    using that n by (auto simp: nth_append nth_upd less_Suc_eq)
  have len: "length ?ss = Suc (Suc n)" using n by simp
  have "chained (session_goes n (set_on_buffer_released old) ?ss)"
  proof (rule session_goes_chained)
    show "waiting (?ss ! i) \<longleftrightarrow> Suc i < length ?ss" if "i < length ?ss" "i \<noteq> n" for i
      using that chainedD(1) [OF assms(1), of i] at [of i] len n genuine_new(2) by (auto simp: next_one_def)
    show "genuine (?ss ! i)" if "i < length ?ss" for i
      using that chainedD(2) [OF assms(1), of i] at [of i] len n genuine_old genuine_new(1) by (auto simp: next_one_def)
    show "unopened (?ss ! i) \<longleftrightarrow> i \<noteq> 0 \<and> Handed_over \<notin> set (trace (?ss ! (i - 1)))" if "i < length ?ss" for i
    proof (cases "i = Suc n")
      case True
      then have "i - 1 = n" "?ss ! i = next_one" using at [of i] n by simp_all
      then show ?thesis using at [of n] n True genuine_new(3) not_waiting assms(2) by (simp add: next_one_def waiting_def)
    next
      case False
      then have i: "i < length (sessions w)" using that len n by simp
      have "unopened (?ss ! i) = unopened (sessions w ! i)" using at [of i] i n old(1) by auto
      moreover have "trace (?ss ! (i - 1)) = trace (sessions w ! (i - 1))" if "i \<noteq> 0"
        using at [of "i - 1"] i n old(2) that by auto
      ultimately show ?thesis using chainedD(3) [OF assms(1) i] by auto
    qed
    show "Handed_over \<in> set (trace (?ss ! n)) \<longrightarrow> Handed_over \<in> set (trace (set_on_buffer_released old))"
      using not_waiting at [of n] n by (simp add: waiting_def)
  qed (use reg at [of n] n in simp_all)
  moreover have "sessions (replace_session w) = session_goes n (set_on_buffer_released old) ?ss"
    using assms(3) by (simp add: replace_session_def old_def next_one_def n_def Let_def)
  ultimately show ?thesis by simp
qed

definition object_inv :: "websocket \<Rightarrow> bool" where
  "object_inv w \<longleftrightarrow> shares w \<and> chained (sessions w) \<and> (deciding w \<longrightarrow> sessions w \<noteq> [])"

lemma session_count: "length (open_session k ss) = length ss" "length (session_goes k t ss) = length ss"
proof -
  show opened: "length (open_session k ss) = length ss" for k ss
    by (induction k ss rule: open_session.induct) (subst open_session.simps, simp add: Let_def)
  show "length (session_goes k t ss) = length ss" by (simp add: session_goes_def opened)
qed

lemma object_inv_step:
  assumes "object_inv w" "object_step w v"
  shows "object_inv v"
  using assms(2)
proof (cases rule: object_step.cases)
  case (goes k m t)
  then have "chained (session_goes k t (sessions w))" using own_move_chained assms(1) by (simp add: object_inv_def)
  moreover have "sessions w \<noteq> [] \<longleftrightarrow> session_goes k t (sessions w) \<noteq> []"
    using session_count(2) [of k t "sessions w"] by (metis length_0_conv)
  ultimately show ?thesis using goes assms(1) by (simp add: object_inv_def)
next
  case opens
  have "chained (open_session 0 [ws_init True (secure w) False])"
    by (rule open_session_chained) (simp_all add: linked_from_def genuine_new)
  with opens assms(1) replace_chained [of w] show ?thesis
    by (auto simp: object_inv_def object_open_def Let_def replace_session_def)
next
  case decides
  then show ?thesis using assms(1) replace_chained [of "w\<lparr>deciding := False\<rparr>"]
    by (auto simp: object_inv_def object_decides_def Let_def replace_session_def)
next
  case closes
  have "chained (sessions (on_last (\<lambda>s. s\<lparr>open_cancelled := True\<rparr>) w))"
    using closes assms(1) by (intro on_last_chained) (simp_all add: object_inv_def genuine_flags)
  moreover have "chained (sessions (on_last impl_close w))" if "session_started (last (sessions w))"
    using closes assms(1) that by (intro on_last_chained) (simp_all add: object_inv_def genuine_flags impl_close_frame)
  ultimately show ?thesis using closes assms(1) by (auto simp: object_inv_def object_close_def on_last_def Let_def)
next
  case detaches
  have "chained (sessions (on_last (\<lambda>s. s\<lparr>detached := True\<rparr>) w))"
    using detaches assms(1) by (intro on_last_chained) (simp_all add: object_inv_def genuine_flags)
  then show ?thesis using detaches assms(1) by (auto simp: object_inv_def object_detach_def on_last_def)
next
  case destroys
  have "chained (sessions (on_last (\<lambda>s. let s = s\<lparr>detached := True, open_cancelled := True\<rparr> in if session_started s then impl_close s else s) w))"
    using destroys assms(1)
    by (intro on_last_chained)
      (simp_all add: object_inv_def Let_def impl_close_frame genuine_flags(3) genuine_flags(2) [OF genuine_flags(1)] cong: if_cong)
  then show ?thesis using destroys assms(1) by (auto simp: object_inv_def object_destroy_def on_last_def)
qed

interpretation websocket_object: inductive_invariant "websocket_init True tls" object_step object_inv
  for tls :: bool
  by unfold_locales (simp add: object_inv_def websocket_init_def chained_def linked_from_def, rule object_inv_step)

section \<open>Executions\<close>

text \<open>Session \<open>k\<close> makes the moves \<open>ms\<close> of its own.\<close>

fun sessions_go :: "nat \<Rightarrow> ws_move list \<Rightarrow> ws list \<Rightarrow> ws list option" where
  "sessions_go k [] ss = Some ss"
| "sessions_go k (m # ms) ss =
     (if k < length ss \<and> own_move m
      then case ws_moved m (ss ! k) of None \<Rightarrow> None | Some t \<Rightarrow> sessions_go k ms (session_goes k t ss) else None)"

lemma sessions_go_steps:
  "sessions_go k ms ss = Some ss' \<Longrightarrow> sessions w = ss \<Longrightarrow> object_step\<^sup>*\<^sup>* w (w\<lparr>sessions := ss'\<rparr>)"
proof (induction k ms ss arbitrary: w rule: sessions_go.induct)
  case (2 k m ms ss)
  then obtain t where t: "k < length ss" "own_move m" "ws_moved m (ss ! k) = Some t" "sessions_go k ms (session_goes k t ss) = Some ss'"
    by (auto split: if_splits option.splits)
  define v where "v = w\<lparr>sessions := session_goes k t ss\<rparr>"
  have "object_step w v" unfolding v_def using object_step.goes [of k w m t] t 2 by simp
  moreover have "object_step\<^sup>*\<^sup>* v (v\<lparr>sessions := ss'\<rparr>)" using 2(1) [OF _ t(3,4), of v] t(1,2) by (simp add: v_def)
  ultimately show ?case by (simp add: v_def converse_rtranclp_into_rtranclp)
next
  case (1 k ss)
  then have "w\<lparr>sessions := ss'\<rparr> = w" by simp
  then show ?case by simp
qed

lemmas run_object_defs = run_session_defs websocket_init_def object_open_def object_decides_def replace_session_def
  session_goes_def hands_over_def set_on_buffer_released_def impl_close_def

lemma open_session_1 [simp]:
  "\<not> is_shared (ss ! k) \<Longrightarrow> open_session k ss = (if k < length ss then ss[k := open_impl (ss ! k)] else ss)"
  by (subst open_session.simps) (simp add: Let_def)

text \<open>An object whose first connection has failed.\<close>

definition failed_session :: ws where
  "failed_session = plain_session\<lparr>unopened := False, ws_status := DISCONNECTED, session_started := True, coroutine := Over,
     release_state := KReleased, trace := [Calls On_error, Calls On_disconnected]\<rparr>"

definition failed_object :: websocket where
  "failed_object = (websocket_init True False)\<lparr>sessions := [failed_session]\<rparr>"

lemma open_first: "open_session 0 [ws_init shared tls False] = [open_impl (ws_init shared tls False)]"
  by (subst open_session.simps) (simp add: Let_def hands_over_def open_impl_def ws_init_def)

lemma failed_object_reachable: "reachable (websocket_init True False) object_step failed_object"
proof -
  define w where "w = object_open (websocket_init True False)"
  have "object_step (websocket_init True False) w"
    unfolding w_def by (rule object_step.opens) (simp_all add: websocket_init_def)
  moreover have w: "sessions w = [open_impl (ws_init True False False)]" "w = (websocket_init True False)\<lparr>sessions := sessions w\<rparr>"
    by (simp_all add: w_def object_open_def websocket_init_def open_first)
  moreover have "sessions_go 0 [Resumes, Runs, Await_fails False, Completes, Runs, Runs, Runs, Returns, Runs, Runs, Returns, Runs, Runs]
      [open_impl (ws_init True False False)] = Some [failed_session]"
    by (simp add: run_object_defs failed_session_def)
  then have "object_step\<^sup>*\<^sup>* w (w\<lparr>sessions := [failed_session]\<rparr>)" by (rule sessions_go_steps) (rule w(1))
  moreover have "w\<lparr>sessions := [failed_session]\<rparr> = failed_object" by (subst w(2)) (simp add: failed_object_def)
  ultimately show ?thesis by (metis steps_reachable reachable.start reachable.next_step)
qed

section \<open>Sending\<close>

text \<open>
  \<open>Impl::send\<close> up to \<open>publish\<close> (what follows is \<^theory_text>\<open>Write_Chain\<close>): the record is two flag bytes and the payload, its
  length a 32-bit number.  \<open>write_frame\<close> is how \<open>do_write\<close> reads a record of that length.
\<close>

datatype send_result = Not_connected | Too_large | Queued "32 word" "char list"

definition flag_byte :: "bool \<Rightarrow> char" where
  "flag_byte b = (if b then CHR 0x01 else CHR 0x00)"

definition impl_send :: "ws_status \<Rightarrow> char list \<Rightarrow> bool \<Rightarrow> bool \<Rightarrow> send_result" where
  "impl_send status buffer is_binary suppress_log =
     (if status > CONNECTED then Not_connected
      else if length buffer > 2 ^ 32 - 1 - 2 then Too_large
      else Queued (word_of_nat (length buffer) + 2) (flag_byte is_binary # flag_byte suppress_log # buffer))"

text \<open>\<open>on_error_\<close> is called for a payload that is too large, unless the session is detached.\<close>

definition send_reports :: "send_result \<Rightarrow> bool \<Rightarrow> bool" where
  "send_reports r is_detached \<longleftrightarrow> r = Too_large \<and> \<not> is_detached"

definition write_frame :: "32 word \<Rightarrow> char list \<Rightarrow> bool \<times> bool \<times> char list" where
  "write_frame len msg = (msg ! 0 \<noteq> CHR 0x00, msg ! 1 \<noteq> CHR 0x00, take (unat (len - 2)) (drop 2 msg))"

definition object_send :: "websocket \<Rightarrow> char list \<Rightarrow> bool \<Rightarrow> bool \<Rightarrow> send_result" where
  "object_send w buffer is_binary suppress_log =
     (if sessions w = [] then Not_connected else impl_send (ws_status (last (sessions w))) buffer is_binary suppress_log)"

definition send_binary_data :: "websocket \<Rightarrow> char list \<Rightarrow> bool \<Rightarrow> send_result" where
  "send_binary_data w buffer suppress_log = object_send w buffer True suppress_log"

section \<open>Properties\<close>

text \<open>
  C6. Sessions over one shared backend take turns: as soon as a later session of the object has been opened, no earlier
  one reads into the buffer, delivers from it or can come to do so.
\<close>
theorem sessions_take_turns:
  assumes "reachable (websocket_init True tls) object_step w" "i < j" "j < length (sessions w)" "\<not> unopened (sessions w ! j)"
  shows "buffer_idle (sessions w ! i)"
proof -
  have chained: "chained (sessions w)" using websocket_object.reachable_inv [OF assms(1)] by (simp add: object_inv_def)
  note c = chainedD [OF chained]
  have "\<not> unopened (sessions w ! Suc i)"
    using assms(2-4)
  proof (induction "j - Suc i" arbitrary: j)
    case (Suc n)
    then obtain l where l: "j = Suc l" "i < l" by (cases j) auto
    then have "Handed_over \<in> set (trace (sessions w ! l))" using c(3) [of j] Suc.prems by simp
    then have "\<not> unopened (sessions w ! l)" using genuine_handed_idle(2) c(2) [of l] Suc.prems l by simp
    with Suc.hyps(1) [of l] Suc.hyps(2) Suc.prems l show ?case by simp
  next
    case 0
    then have "j = Suc i" by simp
    with 0 show ?case by simp
  qed
  then have "Handed_over \<in> set (trace (sessions w ! i))" using c(3) [of "Suc i"] assms(2,3) by simp
  then show ?thesis using genuine_handed_idle(1) c(2) [of i] assms(2,3) by simp
qed

definition reopened_object :: websocket where
  "reopened_object = object_decides (object_open failed_object)"

theorem sessions_take_turns_witness:
  "length (sessions reopened_object) = 2 \<and> \<not> unopened (sessions reopened_object ! 1) \<and> buffer_idle (sessions reopened_object ! 0)"
proof -
  have two: "sessions reopened_object = [failed_session\<lparr>detached := True, trace := trace failed_session @ [Handed_over]\<rparr>,
      open_impl (ws_init True False True)]" and decides: "deciding (object_open failed_object)" "\<not> destroyed (object_open failed_object)"
    by (simp_all add: reopened_object_def failed_object_def failed_session_def run_object_defs open_session.simps)
  have "object_step failed_object (object_open failed_object)"
    by (rule object_step.opens) (simp_all add: failed_object_def websocket_init_def)
  moreover have "object_step (object_open failed_object) reopened_object"
    unfolding reopened_object_def by (rule object_step.decides) (use decides in simp_all)
  ultimately have r: "reachable (websocket_init True False) object_step reopened_object"
    using failed_object_reachable by (meson reachable.next_step)
  have opened: "\<not> unopened (sessions reopened_object ! 1)" by (simp add: two open_impl_def ws_init_def)
  show ?thesis using sessions_take_turns [OF r, of 0 1] opened by (simp add: two)
qed

text \<open>
  \<open>open()\<close> looks at the status twice: when the connection of the object gets from CONNECTING to CONNECTED in between,
  neither look stops it, and an \<open>open()\<close> made while connecting closes the connection that just succeeded, without
  \<open>onDisconnected\<close>, and starts another.
\<close>
lemma open_kills_new_connection:
  "\<exists>w. reachable (websocket_init False False) object_step w \<and> length (sessions w) = 2
     \<and> trace (sessions w ! 0) = [Calls On_connected] \<and> ws_status (sessions w ! 0) = DISCONNECTING \<and> detached (sessions w ! 0)
     \<and> ws_status (sessions w ! 1) = CONNECTING"
proof -
  define u where "u = object_open (websocket_init False False)"
  define connecting where "connecting = (ws_init False False False)\<lparr>unopened := False, ws_status := CONNECTING, session_started := True,
      coroutine := In_handler, handler := H_connect\<rparr>"
  define connected where "connected = connecting\<lparr>ws_status := CONNECTED, handler := H_in On_connected A_connected, trace := [Calls On_connected]\<rparr>"
  define v where "v = u\<lparr>sessions := [connecting]\<rparr>"
  define w where "w = v\<lparr>deciding := True, sessions := [connected]\<rparr>"
  have u: "object_step (websocket_init False False) u"
    unfolding u_def by (rule object_step.opens) (simp_all add: websocket_init_def)
  have us: "sessions u = [open_impl (ws_init False False False)]" "deciding u = False" "destroyed u = False" "shares u = False" "secure u = False"
    by (simp_all add: u_def object_open_def websocket_init_def open_first)
  have "sessions_go 0 [Resumes, Runs, Resumes, Resumes, Resumes, Runs] [open_impl (ws_init False False False)] = Some [connecting]"
    by (simp add: run_object_defs connecting_def)
  then have uv: "object_step\<^sup>*\<^sup>* u v" unfolding v_def by (rule sessions_go_steps) (rule us(1))
  have "object_open v = v\<lparr>deciding := True\<rparr>" by (simp add: object_open_def v_def connecting_def ws_init_def)
  then have vo: "object_step v (v\<lparr>deciding := True\<rparr>)"
    using object_step.opens [of v] us by (simp add: v_def)
  have "sessions_go 0 [Runs, Runs, Runs] [connecting] = Some [connected]"
    by (simp add: run_object_defs connecting_def connected_def)
  then have "object_step\<^sup>*\<^sup>* (v\<lparr>deciding := True\<rparr>) ((v\<lparr>deciding := True\<rparr>)\<lparr>sessions := [connected]\<rparr>)"
    by (rule sessions_go_steps) (simp add: v_def)
  then have ow: "object_step\<^sup>*\<^sup>* (v\<lparr>deciding := True\<rparr>) w" by (simp add: w_def)
  have wd: "object_step w (object_decides w)" by (rule object_step.decides) (simp_all add: w_def v_def us)
  have "object_step\<^sup>*\<^sup>* (websocket_init False False) (object_decides w)"
    using u uv vo ow wd by (meson rtranclp_trans rtranclp.rtrancl_into_rtrancl r_into_rtranclp)
  then have r: "reachable (websocket_init False False) object_step (object_decides w)"
    by (rule steps_reachable) (rule reachable.start)
  have "sessions (object_decides w) = [connected\<lparr>detached := True, ws_status := DISCONNECTING, closing := Closing CONNECTED\<rparr>,
      open_impl (ws_init False False False)]"
    by (simp add: w_def v_def us object_decides_def replace_session_def connected_def connecting_def ws_init_def
        impl_close_def close_swap_def less_eq_ws_status_def)
  then show ?thesis using r
    by (intro exI [of _ "object_decides w"]) (simp add: connected_def connecting_def ws_init_def open_impl_def)
qed

text \<open>
  C28. A message that \<open>send\<close> accepts is queued with its exact length, which does not wrap, and \<open>do_write\<close> reads back the
  same flags and payload; one that is too large for the length field is refused.
\<close>
theorem send_round_trip:
  assumes "status \<le> CONNECTED"
  shows "case impl_send status buffer is_binary suppress_log of
      Queued l msg \<Rightarrow> unat l = length msg \<and> write_frame l msg = (is_binary, suppress_log, buffer)
    | Too_large \<Rightarrow> length buffer + 2 \<ge> 2 ^ 32
    | Not_connected \<Rightarrow> False"
proof (cases "length buffer > 2 ^ 32 - 1 - 2")
  case False
  then have small: "length buffer + 2 < 2 ^ 32" by simp
  have "(word_of_nat (length buffer) + 2 :: 32 word) = word_of_nat (length buffer + 2)" by simp
  then have "unat (word_of_nat (length buffer) + 2 :: 32 word) = length buffer + 2"
    using small by (simp only: unsigned_of_nat) (simp add: take_bit_nat_eq_self)
  moreover have "unat (word_of_nat (length buffer) :: 32 word) = length buffer"
    using small by (simp add: unsigned_of_nat take_bit_nat_eq_self)
  ultimately show ?thesis using assms False
    by (simp add: impl_send_def write_frame_def flag_byte_def not_le [symmetric])
qed (use assms in \<open>simp add: impl_send_def not_le [symmetric]\<close>)

theorem send_round_trip_witness:
  "\<exists>l msg. impl_send CONNECTING ''hi'' True False = Queued l msg \<and> unat l = 4 \<and> write_frame l msg = (True, False, ''hi'')"
proof -
  have st: "CONNECTING \<le> CONNECTED" "\<not> CONNECTED < CONNECTING" by (simp_all add: less_eq_ws_status_def less_ws_status_def)
  obtain l msg where r: "impl_send CONNECTING ''hi'' True False = Queued l msg" "length msg = 4"
    using st by (simp add: impl_send_def)
  show ?thesis using send_round_trip [OF st(1), of "''hi''" True False] r by simp
qed

end
