(* ===== verification/Write_Chain.thy ===== *)
theory Write_Chain
  imports Transitions Prelude
begin

text \<open>
  The write chain of a WebSocket session: \<open>write_chain_gate\<close>
  (\<open>include/slick/net/detail/write_chain_gate.hpp\<close>) with its two users in
  \<open>include/slick/net/detail/websocket_impl.hpp\<close>, the producers (\<open>Impl::send\<close>, any number of threads) and the
  one consumer (\<open>do_write\<close>, \<open>next_queued_write\<close>, \<open>on_write\<close>, \<open>maybe_start_queued_write\<close> on the strand).

  Each rule is one atomic operation of one thread.  Memory has store buffers, as the class comment
  asks: a producer's \<open>publish\<close> and the consumer's \<open>running_ = false\<close> first sit in the storing thread's
  buffer and become visible at some later \<open>memory_step\<close>; a sequentially consistent fence and a
  compare-exchange wait until the thread's own buffer is empty.  The flag \<open>fences\<close> says whether the two
  fences of the class are there, so the code without them can be compared.
\<close>

section \<open>The gate on its own\<close>

text \<open>The operations of the class when no other thread interferes: the flag \<open>running_\<close> before and after.\<close>

definition claim_after_publish :: "bool \<Rightarrow> bool \<times> bool" where
  "claim_after_publish running = (if running then (False, running) else (True, True))"

definition ended_or_reclaimed :: "bool \<Rightarrow> bool \<Rightarrow> bool \<times> bool" where
  "ended_or_reclaimed probe running = (if \<not> probe then (False, False) else (True, True))"

definition abandon :: "bool \<Rightarrow> bool" where
  "abandon running = False"

section \<open>The record queue\<close>

text \<open>
  \<open>slick::queue\<close> is not part of the repository.  The model is parametric in its operations: \<open>reserve\<close>
  hands out the next record slot, \<open>publish\<close> fills a reserved slot and makes it readable, \<open>read\<close> returns
  the record at a cursor if it is published.  Slots and cursors count records (the code's count bytes).
  \<open>queue_contract\<close> is the documented behaviour the code relies on, with \<open>slots\<close> the records of a queue in
  reservation order; a queue that is lapped by its producers is outside it.
\<close>

record ('q, 'r) queue_ops =
  q_empty :: 'q
  q_reserve :: "'q \<Rightarrow> nat \<times> 'q"
  q_publish :: "nat \<Rightarrow> 'r \<Rightarrow> 'q \<Rightarrow> 'q"
  q_read :: "'q \<Rightarrow> nat \<Rightarrow> 'r option"

definition queue_contract :: "('q, 'r) queue_ops \<Rightarrow> ('q \<Rightarrow> 'r option list) \<Rightarrow> bool" where
  "queue_contract ops slots \<longleftrightarrow>
     slots (q_empty ops) = []
   \<and> (\<forall>q. fst (q_reserve ops q) = length (slots q) \<and> slots (snd (q_reserve ops q)) = slots q @ [None])
   \<and> (\<forall>q k r. k < length (slots q) \<longrightarrow> slots q ! k = None \<longrightarrow> slots (q_publish ops k r q) = (slots q)[k := Some r])
   \<and> (\<forall>q c. q_read ops q c = (if c < length (slots q) then slots q ! c else None))"

section \<open>State\<close>

text \<open>Where a producer is in \<open>send\<close> and \<open>claim_after_publish\<close>.\<close>

datatype 'r producer_pc =
    P_idle
  | P_reserved nat 'r   \<comment> \<open>the slot is reserved and being filled\<close>
  | P_published         \<comment> \<open>\<open>publish\<close> returned; the fence comes next\<close>
  | P_fenced            \<comment> \<open>the load of \<open>running_\<close> comes next\<close>
  | P_loaded            \<comment> \<open>the load read false; the compare-exchange comes next\<close>
  | P_won               \<comment> \<open>\<open>claim_after_publish\<close> returned true; the post comes next\<close>

text \<open>Where the handler running on the strand is, in \<open>do_write\<close>, \<open>next_queued_write\<close> and \<open>ended_or_reclaimed\<close>.\<close>

datatype handler_pc =
    H_none              \<comment> \<open>no handler of the chain is running\<close>
  | H_start             \<comment> \<open>\<open>do_write\<close> is entered\<close>
  | H_drain             \<comment> \<open>\<open>next_queued_write\<close> is entered\<close>
  | H_stored            \<comment> \<open>\<open>running_ = false\<close> is stored; the fence comes next\<close>
  | H_fenced            \<comment> \<open>the probe comes next\<close>
  | H_hit               \<comment> \<open>the probe found a record; the compare-exchange comes next\<close>

record ('q, 'r) chain =
  queue :: 'q                               \<comment> \<open>\<open>w_buffer_\<close> as the memory has it\<close>
  cursor :: nat                             \<comment> \<open>\<open>w_cursor_\<close>\<close>
  running :: bool                           \<comment> \<open>\<open>running_\<close> as the memory has it\<close>
  pending :: bool                           \<comment> \<open>the store \<open>running_ = false\<close> is in the consumer's buffer\<close>
  pc :: "nat \<Rightarrow> 'r producer_pc"             \<comment> \<open>each producer's position\<close>
  buffer :: "nat \<Rightarrow> (nat \<times> 'r) option"      \<comment> \<open>each producer's store buffer\<close>
  handler :: handler_pc
  posted :: nat                             \<comment> \<open>wakeups posted to the strand and not yet run\<close>
  writing :: nat                            \<comment> \<open>\<open>async_write\<close> calls in flight\<close>
  parked :: bool                            \<comment> \<open>\<open>write_parked_\<close>\<close>
  connected :: bool                         \<comment> \<open>\<open>status_\<close> is CONNECTED\<close>
  sent :: "'r list"                         \<comment> \<open>the records given to \<open>async_write\<close>, in order\<close>
  abandoned :: bool                         \<comment> \<open>the last chain ended by \<open>abandon\<close>\<close>

definition chain_init :: "('q, 'r) queue_ops \<Rightarrow> ('q, 'r) chain" where
  "chain_init ops = \<lparr>queue = q_empty ops, cursor = 0, running = False, pending = False,
     pc = (\<lambda>_. P_idle), buffer = (\<lambda>_. None), handler = H_none, posted = 0, writing = 0,
     parked = False, connected = False, sent = [], abandoned = False\<rparr>"

section \<open>Steps\<close>

text \<open>
  A producer: \<open>send\<close> reserves, fills and publishes a record, then calls \<open>claim_after_publish\<close> (fence,
  load, compare-exchange), and posts the wakeup if it won the gate.
\<close>

inductive producer_step :: "bool \<Rightarrow> ('q, 'r) queue_ops \<Rightarrow> ('q, 'r) chain \<Rightarrow> ('q, 'r) chain \<Rightarrow> bool"
  for fences ops where
  reserve: "pc s i = P_idle \<Longrightarrow> q_reserve ops (queue s) = (k, q') \<Longrightarrow>
     producer_step fences ops s (s\<lparr>queue := q', pc := (pc s)(i := P_reserved k r)\<rparr>)"
| publish: "pc s i = P_reserved k r \<Longrightarrow> buffer s i = None \<Longrightarrow>
     producer_step fences ops s (s\<lparr>pc := (pc s)(i := P_published), buffer := (buffer s)(i := Some (k, r))\<rparr>)"
| fence: "pc s i = P_published \<Longrightarrow> fences \<longrightarrow> buffer s i = None \<Longrightarrow>
     producer_step fences ops s (s\<lparr>pc := (pc s)(i := P_fenced)\<rparr>)"
| load_running: "pc s i = P_fenced \<Longrightarrow> running s \<Longrightarrow>
     producer_step fences ops s (s\<lparr>pc := (pc s)(i := P_idle)\<rparr>)"
| load_ended: "pc s i = P_fenced \<Longrightarrow> \<not> running s \<Longrightarrow>
     producer_step fences ops s (s\<lparr>pc := (pc s)(i := P_loaded)\<rparr>)"
| claim: "pc s i = P_loaded \<Longrightarrow> buffer s i = None \<Longrightarrow> \<not> running s \<Longrightarrow>
     producer_step fences ops s (s\<lparr>running := True, pc := (pc s)(i := P_won), abandoned := False\<rparr>)"
| claim_lost: "pc s i = P_loaded \<Longrightarrow> buffer s i = None \<Longrightarrow> running s \<Longrightarrow>
     producer_step fences ops s (s\<lparr>pc := (pc s)(i := P_idle)\<rparr>)"
| post: "pc s i = P_won \<Longrightarrow>
     producer_step fences ops s (s\<lparr>posted := Suc (posted s), pc := (pc s)(i := P_idle)\<rparr>)"

text \<open>
  The consumer.  \<open>wakeup\<close> runs a posted handler, \<open>written\<close> and \<open>write_failed\<close> the completion of a write
  (\<open>on_write\<close>), each when the strand is free.  \<open>park\<close> is the early return of \<open>do_write\<close>, \<open>resume\<close> is
  \<open>maybe_start_queued_write\<close>.
\<close>

inductive consumer_step :: "bool \<Rightarrow> ('q, 'r) queue_ops \<Rightarrow> ('q, 'r) chain \<Rightarrow> ('q, 'r) chain \<Rightarrow> bool"
  for fences ops where
  wakeup: "handler s = H_none \<Longrightarrow> posted s = Suc n \<Longrightarrow>
     consumer_step fences ops s (s\<lparr>posted := n, handler := H_start\<rparr>)"
| park: "handler s = H_start \<Longrightarrow> \<not> connected s \<Longrightarrow>
     consumer_step fences ops s (s\<lparr>parked := True, handler := H_none\<rparr>)"
| start: "handler s = H_start \<Longrightarrow> connected s \<Longrightarrow>
     consumer_step fences ops s (s\<lparr>handler := H_drain\<rparr>)"
| resume: "handler s = H_none \<Longrightarrow> parked s \<Longrightarrow>
     consumer_step fences ops s (s\<lparr>parked := False, posted := Suc (posted s)\<rparr>)"
| read: "handler s = H_drain \<Longrightarrow> q_read ops (queue s) (cursor s) = Some r \<Longrightarrow>
     consumer_step fences ops s
       (s\<lparr>cursor := Suc (cursor s), sent := sent s @ [r], writing := Suc (writing s), handler := H_none\<rparr>)"
| read_dry: "handler s = H_drain \<Longrightarrow> q_read ops (queue s) (cursor s) = None \<Longrightarrow>
     consumer_step fences ops s (s\<lparr>pending := True, handler := H_stored\<rparr>)"
| end_fence: "handler s = H_stored \<Longrightarrow> fences \<longrightarrow> \<not> pending s \<Longrightarrow>
     consumer_step fences ops s (s\<lparr>handler := H_fenced\<rparr>)"
| probe: "handler s = H_fenced \<Longrightarrow> q_read ops (queue s) (cursor s) = Some r \<Longrightarrow>
     consumer_step fences ops s (s\<lparr>handler := H_hit\<rparr>)"
| probe_dry: "handler s = H_fenced \<Longrightarrow> q_read ops (queue s) (cursor s) = None \<Longrightarrow>
     consumer_step fences ops s (s\<lparr>handler := H_none\<rparr>)"
| reclaim: "handler s = H_hit \<Longrightarrow> \<not> pending s \<Longrightarrow> \<not> running s \<Longrightarrow>
     q_read ops (queue s) (cursor s) = Some r \<Longrightarrow>
     consumer_step fences ops s
       (s\<lparr>running := True, cursor := Suc (cursor s), sent := sent s @ [r],
          writing := Suc (writing s), handler := H_none, abandoned := False\<rparr>)"
| reclaim_lost: "handler s = H_hit \<Longrightarrow> \<not> pending s \<Longrightarrow> running s \<Longrightarrow>
     consumer_step fences ops s (s\<lparr>handler := H_none\<rparr>)"
| written: "handler s = H_none \<Longrightarrow> writing s = Suc n \<Longrightarrow>
     consumer_step fences ops s (s\<lparr>writing := n, handler := H_start\<rparr>)"
| write_failed: "handler s = H_none \<Longrightarrow> writing s = Suc n \<Longrightarrow>
     consumer_step fences ops s (s\<lparr>writing := n, pending := True, abandoned := True\<rparr>)"

text \<open>The memory: buffered stores become visible.\<close>

inductive memory_step :: "('q, 'r) queue_ops \<Rightarrow> ('q, 'r) chain \<Rightarrow> ('q, 'r) chain \<Rightarrow> bool" for ops where
  flush_record: "buffer s i = Some (k, r) \<Longrightarrow>
     memory_step ops s (s\<lparr>queue := q_publish ops k r (queue s), buffer := (buffer s)(i := None)\<rparr>)"
| flush_running: "pending s \<Longrightarrow> memory_step ops s (s\<lparr>running := False, pending := False\<rparr>)"

text \<open>The session reaches or leaves CONNECTED at any time.\<close>

inductive chain_step :: "bool \<Rightarrow> ('q, 'r) queue_ops \<Rightarrow> ('q, 'r) chain \<Rightarrow> ('q, 'r) chain \<Rightarrow> bool"
  for fences ops where
  producer: "producer_step fences ops s t \<Longrightarrow> chain_step fences ops s t"
| consumer: "consumer_step fences ops s t \<Longrightarrow> chain_step fences ops s t"
| memory: "memory_step ops s t \<Longrightarrow> chain_step fences ops s t"
| session: "chain_step fences ops s (s\<lparr>connected := b\<rparr>)"

section \<open>Who owns the gate\<close>

text \<open>
  At every moment at most one party owns the gate: the producer that won it, the posted wakeup, the
  running handler, the write in flight, or the parked chain.
\<close>

datatype owner = Nobody | Producer nat | Wakeup | Handler | Write | Parked

definition owned_by :: "owner \<Rightarrow> ('q, 'r) chain \<Rightarrow> bool" where
  "owned_by t s \<longleftrightarrow>
     (\<forall>i. pc s i = P_won \<longleftrightarrow> t = Producer i) \<and> posted s = (if t = Wakeup then 1 else 0)
   \<and> (handler s = H_start \<or> handler s = H_drain \<longleftrightarrow> t = Handler) \<and> writing s = (if t = Write then 1 else 0)
   \<and> (parked s \<longleftrightarrow> t = Parked) \<and> (running s \<longleftrightarrow> t \<noteq> Nobody \<or> pending s) \<and> (pending s \<longrightarrow> t = Nobody)"

inductive_cases producer_stepE: "producer_step fences ops s t"
inductive_cases consumer_stepE: "consumer_step fences ops s t"
inductive_cases memory_stepE: "memory_step ops s t"
inductive_cases chain_stepE: "chain_step fences ops s t"

lemma owned_by_init: "owned_by Nobody (chain_init ops)"
  by (simp add: owned_by_def chain_init_def)

lemma producer_owned: "owned_by t s \<Longrightarrow> producer_step fences ops s s' \<Longrightarrow> \<exists>t'. owned_by t' s'"
proof (erule producer_stepE)
  fix i assume o: "owned_by t s"
  { assume "s' = s\<lparr>running := True, pc := (pc s)(i := P_won), abandoned := False\<rparr>" "\<not> running s"
    with o show ?thesis by (intro exI [of _ "Producer i"]) (auto simp: owned_by_def) }
  { assume "s' = s\<lparr>posted := Suc (posted s), pc := (pc s)(i := P_idle)\<rparr>" "pc s i = P_won"
    with o show ?thesis by (intro exI [of _ Wakeup]) (auto simp: owned_by_def) }
qed (rule exI [of _ t]; force simp: owned_by_def)+

lemma consumer_owned: "owned_by t s \<Longrightarrow> consumer_step fences ops s s' \<Longrightarrow> \<exists>t'. owned_by t' s'"
  apply (erule consumer_stepE)
  subgoal by (rule exI [of _ Handler]) (auto simp: owned_by_def split: if_splits)
  subgoal by (rule exI [of _ Parked]) (auto simp: owned_by_def split: if_splits)
  subgoal by (rule exI [of _ t]) (auto simp: owned_by_def split: if_splits)
  subgoal by (rule exI [of _ Wakeup]) (auto simp: owned_by_def split: if_splits)
  subgoal by (rule exI [of _ Write]) (auto simp: owned_by_def split: if_splits)
  subgoal by (rule exI [of _ Nobody]) (auto simp: owned_by_def split: if_splits)
  subgoal by (rule exI [of _ t]) (auto simp: owned_by_def split: if_splits)
  subgoal by (rule exI [of _ t]) (auto simp: owned_by_def split: if_splits)
  subgoal by (rule exI [of _ t]) (auto simp: owned_by_def split: if_splits)
  subgoal by (rule exI [of _ Write]) (auto simp: owned_by_def split: if_splits)
  subgoal by (rule exI [of _ t]) (auto simp: owned_by_def split: if_splits)
  subgoal by (rule exI [of _ Handler]) (auto simp: owned_by_def split: if_splits)
  subgoal by (rule exI [of _ Nobody]) (auto simp: owned_by_def split: if_splits)
  done

lemma memory_owned: "owned_by t s \<Longrightarrow> memory_step ops s s' \<Longrightarrow> \<exists>t'. owned_by t' s'"
  by (erule memory_stepE; rule exI [of _ t]) (auto simp: owned_by_def)

lemma chain_owned: "owned_by t s \<Longrightarrow> chain_step fences ops s s' \<Longrightarrow> \<exists>t'. owned_by t' s'"
proof (erule chain_stepE)
  fix b assume "owned_by t s" "s' = s\<lparr>connected := b\<rparr>"
  then show ?thesis by (intro exI [of _ t]) (simp add: owned_by_def)
qed (auto intro: producer_owned consumer_owned memory_owned)

interpretation owned: inductive_invariant "chain_init ops" "chain_step fences ops" "\<lambda>s. \<exists>t. owned_by t s"
  for fences :: bool and ops :: "('q, 'r) queue_ops"
  by unfold_locales (auto intro: owned_by_init chain_owned)

section \<open>What is in the queue\<close>

definition holding :: "nat \<Rightarrow> nat \<Rightarrow> 'r \<Rightarrow> ('q, 'r) chain \<Rightarrow> bool" where
  "holding i k r s \<longleftrightarrow> pc s i = P_reserved k r \<or> buffer s i = Some (k, r)"

text \<open>
  Every slot that is not readable yet is held by one producer, and the records written so far are the
  first \<open>cursor\<close> records of the queue, in order.
\<close>

definition queue_inv :: "('q \<Rightarrow> 'r option list) \<Rightarrow> ('q, 'r) chain \<Rightarrow> bool" where
  "queue_inv slots s \<longleftrightarrow>
     (\<forall>i k r. holding i k r s \<longrightarrow> k < length (slots (queue s)) \<and> slots (queue s) ! k = None)
   \<and> (\<forall>i j k r r'. holding i k r s \<longrightarrow> holding j k r' s \<longrightarrow> i = j)
   \<and> (\<forall>k < length (slots (queue s)). slots (queue s) ! k = None \<longrightarrow> (\<exists>i r. holding i k r s))
   \<and> (\<forall>i. buffer s i \<noteq> None \<longrightarrow> pc s i = P_published)
   \<and> cursor s \<le> length (slots (queue s)) \<and> map Some (sent s) = take (cursor s) (slots (queue s))"

lemma queue_invD:
  assumes "queue_inv slots s"
  shows "holding i k r s \<Longrightarrow> k < length (slots (queue s)) \<and> slots (queue s) ! k = None"
    and "holding i k r s \<Longrightarrow> holding j k r' s \<Longrightarrow> i = j"
    and "k < length (slots (queue s)) \<Longrightarrow> slots (queue s) ! k = None \<Longrightarrow> \<exists>i r. holding i k r s"
    and "buffer s i = Some kr \<Longrightarrow> pc s i = P_published"
    and "cursor s \<le> length (slots (queue s))"
    and "map Some (sent s) = take (cursor s) (slots (queue s))"
proof -
  show "holding i k r s \<Longrightarrow> k < length (slots (queue s)) \<and> slots (queue s) ! k = None"
    using assms unfolding queue_inv_def by blast
  show "holding i k r s \<Longrightarrow> holding j k r' s \<Longrightarrow> i = j"
    using assms unfolding queue_inv_def by blast
  show "k < length (slots (queue s)) \<Longrightarrow> slots (queue s) ! k = None \<Longrightarrow> \<exists>i r. holding i k r s"
    using assms unfolding queue_inv_def by blast
  show "buffer s i = Some kr \<Longrightarrow> pc s i = P_published"
    using assms unfolding queue_inv_def by (metis option.distinct(1))
qed (use assms in \<open>simp_all add: queue_inv_def\<close>)

lemma queue_invI:
  assumes "\<And>i k r. holding i k r s \<Longrightarrow> k < length (slots (queue s)) \<and> slots (queue s) ! k = None"
    and "\<And>i j k r r'. holding i k r s \<Longrightarrow> holding j k r' s \<Longrightarrow> i = j"
    and "\<And>k. k < length (slots (queue s)) \<Longrightarrow> slots (queue s) ! k = None \<Longrightarrow> \<exists>i r. holding i k r s"
    and "\<And>i kr. buffer s i = Some kr \<Longrightarrow> pc s i = P_published"
    and "cursor s \<le> length (slots (queue s))"
    and "map Some (sent s) = take (cursor s) (slots (queue s))"
  shows "queue_inv slots s"
  unfolding queue_inv_def using assms by blast

lemma contract_reserve:
  "queue_contract ops slots \<Longrightarrow> q_reserve ops q = (k, q') \<Longrightarrow> k = length (slots q) \<and> slots q' = slots q @ [None]"
  by (metis fst_conv snd_conv queue_contract_def)

lemma contract_publish:
  "queue_contract ops slots \<Longrightarrow> k < length (slots q) \<Longrightarrow> slots q ! k = None \<Longrightarrow>
     slots (q_publish ops k r q) = (slots q)[k := Some r]"
  by (simp add: queue_contract_def)

lemma contract_read:
  "queue_contract ops slots \<Longrightarrow> q_read ops q c = (if c < length (slots q) then slots q ! c else None)"
  by (simp add: queue_contract_def)

lemma contract_read_Some:
  "queue_contract ops slots \<Longrightarrow> q_read ops q c = Some r \<longleftrightarrow> c < length (slots q) \<and> slots q ! c = Some r"
  by (simp add: contract_read)

lemma queue_inv_init: "queue_contract ops slots \<Longrightarrow> queue_inv slots (chain_init ops)"
  by (simp add: queue_inv_def chain_init_def queue_contract_def holding_def)

text \<open>Steps that move neither a slot nor the cursor keep it.\<close>

lemma queue_inv_frame:
  assumes "queue_inv slots s" "queue s' = queue s" "cursor s' = cursor s" "sent s' = sent s" "buffer s' = buffer s"
    and "\<And>i k r. pc s' i = P_reserved k r \<longleftrightarrow> pc s i = P_reserved k r"
    and "\<And>i. buffer s i \<noteq> None \<Longrightarrow> pc s' i = P_published"
  shows "queue_inv slots s'"
  using assms unfolding queue_inv_def holding_def by simp

lemma queue_inv_next:
  assumes "queue_inv slots s" "queue_contract ops slots" "q_read ops (queue s) (cursor s) = Some r"
    and "queue s' = queue s" "cursor s' = Suc (cursor s)" "sent s' = sent s @ [r]" "buffer s' = buffer s" "pc s' = pc s"
  shows "queue_inv slots s'"
  using assms by (simp add: queue_inv_def holding_def contract_read_Some take_Suc_conv_app_nth)

lemma queue_inv_reserve:
  assumes "queue_inv slots s" "queue_contract ops slots" "pc s i = P_idle" "q_reserve ops (queue s) = (k, q')"
  shows "queue_inv slots (s\<lparr>queue := q', pc := (pc s)(i := P_reserved k r)\<rparr>)"
proof -
  let ?s = "s\<lparr>queue := q', pc := (pc s)(i := P_reserved k r)\<rparr>"
  have k: "k = length (slots (queue s))" "slots q' = slots (queue s) @ [None]"
    using contract_reserve [OF assms(2,4)] by simp_all
  have b: "buffer s i = None" using queue_invD(4) [OF assms(1), of i] assms(3) by (cases "buffer s i") auto
  have h: "holding j l r' ?s \<longleftrightarrow> (if j = i then l = k \<and> r' = r else holding j l r' s)" for j l r'
    using b assms(3) by (auto simp: holding_def)
  have hs: "holding j l r' s \<Longrightarrow> j \<noteq> i \<and> l < k" for j l r'
    using queue_invD(1) [OF assms(1)] assms(3) b k(1) by (auto simp: holding_def)
  show ?thesis
    using assms(1) unfolding queue_inv_def h using hs k b
    by (auto simp: nth_append less_Suc_eq) (metis)+
qed

lemma queue_inv_publish:
  assumes "queue_inv slots s" "pc s i = P_reserved k r" "buffer s i = None"
  shows "queue_inv slots (s\<lparr>pc := (pc s)(i := P_published), buffer := (buffer s)(i := Some (k, r))\<rparr>)"
proof -
  let ?s = "s\<lparr>pc := (pc s)(i := P_published), buffer := (buffer s)(i := Some (k, r))\<rparr>"
  have h: "holding j l r' ?s \<longleftrightarrow> holding j l r' s" for j l r'
    using assms(2,3) by (auto simp: holding_def)
  show ?thesis
    using assms(1) unfolding queue_inv_def h by auto
qed

lemma queue_inv_flush:
  assumes "queue_inv slots s" "queue_contract ops slots" "buffer s i = Some (k, r)"
  shows "queue_inv slots (s\<lparr>queue := q_publish ops k r (queue s), buffer := (buffer s)(i := None)\<rparr>)"
proof -
  let ?s = "s\<lparr>queue := q_publish ops k r (queue s), buffer := (buffer s)(i := None)\<rparr>"
  have hi: "holding i k r s" using assms(3) by (simp add: holding_def)
  then have k: "k < length (slots (queue s))" "slots (queue s) ! k = None"
    using queue_invD(1) [OF assms(1)] by auto
  have sl: "slots (queue ?s) = (slots (queue s))[k := Some r]"
    using contract_publish [OF assms(2) k] by simp
  have pi: "pc s i = P_published" by (rule queue_invD(4) [OF assms(1,3)])
  have h: "holding j l r' ?s \<longleftrightarrow> j \<noteq> i \<and> holding j l r' s" for j l r'
    using assms(3) pi by (auto simp: holding_def)
  have ne: "holding j l r' s \<Longrightarrow> j \<noteq> i \<Longrightarrow> l \<noteq> k" for j l r'
    using queue_invD(2) [OF assms(1) hi] by blast
  have only: "holding i l r' s \<Longrightarrow> l = k" for l r'
    using assms(3) pi by (auto simp: holding_def)
  have "cursor s \<le> k"
  proof (rule ccontr)
    assume "\<not> cursor s \<le> k"
    then have "map Some (sent s) ! k = None" "k < length (sent s)"
      using assms(1) k by (auto simp: queue_inv_def dest!: arg_cong [where f = length])
    then show False by simp
  qed
  then have "take (cursor s) (slots (queue ?s)) = take (cursor s) (slots (queue s))"
    unfolding sl by simp
  note take = this and D = queue_invD [OF assms(1)]
  show ?thesis
  proof (rule queue_invI)
    show "l < length (slots (queue ?s)) \<and> slots (queue ?s) ! l = None" if "holding j l r' ?s" for j l r'
    proof -
      from that have "holding j l r' s" "l \<noteq> k" using ne by (auto simp: h)
      with D(1) show ?thesis unfolding sl by simp
    qed
    show "j = j'" if "holding j l r' ?s" "holding j' l r'' ?s" for j j' l r' r''
      using that D(2) unfolding h by blast
    show "\<exists>j r'. holding j l r' ?s" if "l < length (slots (queue ?s))" "slots (queue ?s) ! l = None" for l
    proof -
      from that have "l \<noteq> k" "l < length (slots (queue s))" "slots (queue s) ! l = None"
        unfolding sl by (cases "l = k"; use k in simp)+
      moreover from this D(3) obtain j r' where "holding j l r' s" by blast
      ultimately have "j \<noteq> i" "holding j l r' s" using only [of l r'] by auto
      then show ?thesis unfolding h by blast
    qed
    show "pc ?s j = P_published" if "buffer ?s j = Some kr" for j kr
      using that D(4) by (auto split: if_splits)
    show "cursor ?s \<le> length (slots (queue ?s))" unfolding sl using D(5) by simp
    show "map Some (sent ?s) = take (cursor ?s) (slots (queue ?s))" using D(6) take by simp
  qed
qed

lemma chain_queue_inv:
  assumes "chain_step True ops s s'" "queue_contract ops slots" "queue_inv slots s"
  shows "queue_inv slots s'"
  using assms(1)
proof (cases rule: chain_step.cases)
  case producer
  then show ?thesis
  proof (cases rule: producer_step.cases)
    case (reserve i k q' r)
    then show ?thesis using queue_inv_reserve [OF assms(3,2)] by simp
  next
    case (publish i k r)
    then show ?thesis using queue_inv_publish [OF assms(3)] by simp
  qed (rule queue_inv_frame [OF assms(3)]; use queue_invD(4) [OF assms(3)] in \<open>auto split: if_splits\<close>)+
next
  case consumer
  then show ?thesis
  proof (cases rule: consumer_step.cases)
    case (read r)
    then show ?thesis using queue_inv_next [OF assms(3,2)] by simp
  next
    case (reclaim r)
    then show ?thesis using queue_inv_next [OF assms(3,2)] by simp
  qed (rule queue_inv_frame [OF assms(3)]; use queue_invD(4) [OF assms(3)] in auto)+
next
  case memory
  then show ?thesis
  proof (cases rule: memory_step.cases)
    case (flush_record i k r)
    then show ?thesis using queue_inv_flush [OF assms(3,2)] by simp
  qed (rule queue_inv_frame [OF assms(3)]; use queue_invD(4) [OF assms(3)] in auto)
next
  case (session b)
  then show ?thesis by (intro queue_inv_frame [OF assms(3)]) (use queue_invD(4) [OF assms(3)] in auto)
qed

section \<open>Why no record is stranded\<close>

text \<open>
  While nobody owns the gate and there is a readable record, someone is still going to look: a
  producer between its publish and its compare-exchange, or the consumer between storing
  \<open>running_ = false\<close> and the end of its probe (or the chain was abandoned on purpose).
\<close>

definition looking :: "('q, 'r) chain \<Rightarrow> bool" where
  "looking s \<longleftrightarrow> handler s = H_stored \<or> handler s = H_fenced \<or> handler s = H_hit \<or> abandoned s
     \<or> (\<exists>i. pc s i = P_published \<or> pc s i = P_fenced \<or> pc s i = P_loaded)"

definition readable :: "('q \<Rightarrow> 'r option list) \<Rightarrow> ('q, 'r) chain \<Rightarrow> bool" where
  "readable slots s \<longleftrightarrow> cursor s < length (slots (queue s)) \<and> slots (queue s) ! cursor s \<noteq> None"

definition wake_inv :: "('q \<Rightarrow> 'r option list) \<Rightarrow> ('q, 'r) chain \<Rightarrow> bool" where
  "wake_inv slots s \<longleftrightarrow>
     (pending s \<longrightarrow> handler s = H_stored \<or> abandoned s)
   \<and> (handler s = H_hit \<longrightarrow> readable slots s)
   \<and> (owned_by Nobody s \<and> readable slots s \<longrightarrow> looking s)"

lemma wake_inv_init: "queue_contract ops slots \<Longrightarrow> wake_inv slots (chain_init ops)"
  by (simp add: wake_inv_def chain_init_def readable_def queue_contract_def)

lemma owned_by_Nobody_running: "owned_by Nobody s \<Longrightarrow> running s \<Longrightarrow> pending s"
  by (simp add: owned_by_def)

lemma readable_read:
  "queue_contract ops slots \<Longrightarrow> readable slots s \<longleftrightarrow> q_read ops (queue s) (cursor s) \<noteq> None"
  by (simp add: readable_def contract_read)

text \<open>The queue only grows, so a readable record stays readable until the cursor passes it.\<close>

lemma readable_reserve:
  assumes "queue_contract ops slots" "q_reserve ops (queue s) = (k, q')"
    and "queue_inv slots s"
  shows "readable slots (s\<lparr>queue := q', pc := x\<rparr>) = readable slots s"
  using contract_reserve [OF assms(1,2)] queue_invD(5) [OF assms(3)]
  by (auto simp: readable_def nth_append less_Suc_eq)

lemma readable_frame:
  "queue s' = queue s \<Longrightarrow> cursor s' = cursor s \<Longrightarrow> readable slots s' = readable slots s"
  by (simp add: readable_def)

lemma owned_by_unique: "owned_by t s \<Longrightarrow> owned_by Nobody s \<Longrightarrow> t = Nobody"
  by (cases t) (auto simp: owned_by_def split: if_splits)

lemma owned_by_Nobody_iff:
  "owned_by Nobody s \<longleftrightarrow> (\<forall>i. pc s i \<noteq> P_won) \<and> posted s = 0 \<and> handler s \<noteq> H_start \<and> handler s \<noteq> H_drain
     \<and> writing s = 0 \<and> \<not> parked s \<and> running s = pending s"
  by (auto simp: owned_by_def)

text \<open>The same two conditions with one producer singled out.\<close>

lemma owned_by_Nobody_at:
  "owned_by Nobody s \<longleftrightarrow> pc s i \<noteq> P_won \<and> (\<forall>j. j \<noteq> i \<longrightarrow> pc s j \<noteq> P_won) \<and> posted s = 0
     \<and> handler s \<noteq> H_start \<and> handler s \<noteq> H_drain \<and> writing s = 0 \<and> \<not> parked s \<and> running s = pending s"
  unfolding owned_by_Nobody_iff by metis

lemma looking_at:
  "looking s \<longleftrightarrow> handler s = H_stored \<or> handler s = H_fenced \<or> handler s = H_hit \<or> abandoned s
     \<or> pc s i = P_published \<or> pc s i = P_fenced \<or> pc s i = P_loaded
     \<or> (\<exists>j. j \<noteq> i \<and> (pc s j = P_published \<or> pc s j = P_fenced \<or> pc s j = P_loaded))"
  unfolding looking_def by metis

lemma producer_wake:
  assumes "producer_step True ops s s'" "queue_contract ops slots" "queue_inv slots s" "wake_inv slots s"
    and "owned_by t s"
  shows "wake_inv slots s'"
  using assms(1)
proof (cases rule: producer_step.cases)
  case (reserve i k q' r)
  then show ?thesis
    using assms(4) readable_reserve [OF assms(2) reserve(3) assms(3)]
    by (auto simp: wake_inv_def owned_by_Nobody_at [of _ i] looking_at [of _ i])
next
  case (publish i k r)
  with assms(4) show ?thesis
    by (auto simp: wake_inv_def owned_by_Nobody_at [of _ i] looking_at [of _ i] readable_def)
next
  case (fence i)
  with assms(4) show ?thesis
    by (auto simp: wake_inv_def owned_by_Nobody_at [of _ i] looking_at [of _ i] readable_def)
next
  case (load_running i)
  with assms(4) show ?thesis
    by (auto simp: wake_inv_def owned_by_Nobody_at [of _ i] looking_at [of _ i] readable_def)
next
  case (load_ended i)
  with assms(4) show ?thesis
    by (auto simp: wake_inv_def owned_by_Nobody_at [of _ i] looking_at [of _ i] readable_def)
next
  case (claim i)
  then have "\<not> pending s" using assms(5) by (auto simp: owned_by_def)
  with claim assms(4) show ?thesis
    by (auto simp: wake_inv_def owned_by_Nobody_at [of _ i] looking_at [of _ i] readable_def)
next
  case (claim_lost i)
  with assms(4) show ?thesis
    by (auto simp: wake_inv_def owned_by_Nobody_at [of _ i] looking_at [of _ i] readable_def)
next
  case (post i)
  with assms(4) show ?thesis
    by (auto simp: wake_inv_def owned_by_Nobody_at [of _ i] looking_at [of _ i] readable_def)
qed

lemma consumer_wake:
  assumes "consumer_step True ops s s'" "queue_contract ops slots" "wake_inv slots s" "owned_by t s"
  shows "wake_inv slots s'"
  using assms(1)
proof (cases rule: consumer_step.cases)
qed (use assms in \<open>auto simp: wake_inv_def owned_by_Nobody_iff looking_def readable_def contract_read_Some
       contract_read owned_by_def split: if_splits\<close>)

lemma memory_wake:
  assumes "memory_step ops s s'" "queue_contract ops slots" "queue_inv slots s" "wake_inv slots s"
  shows "wake_inv slots s'"
  using assms(1)
proof (cases rule: memory_step.cases)
  case (flush_record i k r)
  then have pi: "pc s i = P_published" using queue_invD(4) [OF assms(3)] by blast
  have k: "k < length (slots (queue s))" "slots (queue s) ! k = None"
    using queue_invD(1) [OF assms(3), of i k r] flush_record by (auto simp: holding_def)
  have "slots (queue s') = (slots (queue s))[k := Some r]"
    using flush_record contract_publish [OF assms(2) k] by simp
  then have "readable slots s \<Longrightarrow> readable slots s'"
    using flush_record k by (auto simp: readable_def nth_list_update)
  with assms(4) flush_record pi show ?thesis
    by (auto simp: wake_inv_def looking_def)
next
  case flush_running
  with assms(4) show ?thesis
    by (auto simp: wake_inv_def owned_by_Nobody_iff looking_def readable_def)
qed

definition chain_inv :: "('q \<Rightarrow> 'r option list) \<Rightarrow> ('q, 'r) chain \<Rightarrow> bool" where
  "chain_inv slots s \<longleftrightarrow> (\<exists>t. owned_by t s) \<and> queue_inv slots s \<and> wake_inv slots s"

lemma chain_inv_init: "queue_contract ops slots \<Longrightarrow> chain_inv slots (chain_init ops)"
  using owned_by_init by (auto simp: chain_inv_def queue_inv_init wake_inv_init)

lemma chain_inv_step:
  assumes "queue_contract ops slots" "chain_inv slots s" "chain_step True ops s s'"
  shows "chain_inv slots s'"
proof -
  from assms(2) obtain t where t: "owned_by t s" "queue_inv slots s" "wake_inv slots s"
    by (auto simp: chain_inv_def)
  have "wake_inv slots s'"
    using assms(3)
  proof (cases rule: chain_step.cases)
    case producer
    then show ?thesis using producer_wake assms(1) t by blast
  next
    case consumer
    then show ?thesis using consumer_wake assms(1) t by blast
  next
    case memory
    then show ?thesis using memory_wake assms(1) t by blast
  next
    case (session b)
    with t show ?thesis by (simp add: wake_inv_def owned_by_Nobody_iff looking_def readable_def)
  qed
  then show ?thesis
    using chain_owned [OF t(1) assms(3)] chain_queue_inv [OF assms(3,1) t(2)] by (auto simp: chain_inv_def)
qed

interpretation chain_sys: inductive_invariant "chain_init ops" "chain_step True ops"
    "\<lambda>s. queue_contract ops slots \<longrightarrow> chain_inv slots s"
  for ops :: "('q, 'r) queue_ops" and slots :: "'q \<Rightarrow> 'r option list"
  by unfold_locales (auto intro: chain_inv_init chain_inv_step)

section \<open>Coming to rest\<close>

text \<open>
  The internal steps: everything but a new \<open>send\<close>, a failing write, and a change of the session's
  status (parking is impossible while connected).
\<close>

definition internal_step :: "('q, 'r) queue_ops \<Rightarrow> ('q, 'r) chain \<Rightarrow> ('q, 'r) chain \<Rightarrow> bool" where
  "internal_step ops s t \<longleftrightarrow> (producer_step True ops s t \<or> consumer_step True ops s t \<or> memory_step ops s t)
     \<and> connected s \<and> (\<forall>i. pc s i = P_idle \<longrightarrow> pc t i = P_idle) \<and> (abandoned t \<longrightarrow> abandoned s)"

lemma internal_chain_step: "internal_step ops s t \<Longrightarrow> chain_step True ops s t"
  by (auto simp: internal_step_def intro: chain_step.intros)

definition producer_weight :: "('q, 'r) chain \<Rightarrow> nat \<Rightarrow> nat" where
  "producer_weight s i =
     (case pc s i of P_idle \<Rightarrow> 0 | P_reserved k r \<Rightarrow> 15
      | P_published \<Rightarrow> if buffer s i = None then 13 else 14
      | P_fenced \<Rightarrow> 12 | P_loaded \<Rightarrow> 11 | P_won \<Rightarrow> 10)"

definition busy :: "('q, 'r) chain \<Rightarrow> nat set" where
  "busy s = {i. pc s i \<noteq> P_idle}"

definition handler_weight :: "handler_pc \<Rightarrow> nat" where
  "handler_weight h = (case h of H_none \<Rightarrow> 0 | H_start \<Rightarrow> 8 | H_drain \<Rightarrow> 7 | H_stored \<Rightarrow> 5 | H_fenced \<Rightarrow> 4 | H_hit \<Rightarrow> 3)"

definition chain_weight :: "('q \<Rightarrow> 'r option list) \<Rightarrow> ('q, 'r) chain \<Rightarrow> nat" where
  "chain_weight slots s = sum (producer_weight s) (busy s) + handler_weight (handler s) + 9 * posted s + 9 * writing s
     + (if parked s then 10 else 0) + (if pending s then 1 else 0) + 20 * (length (slots (queue s)) - cursor s)"

lemma producers_diff:
  assumes "finite (busy s)" "pc s i \<noteq> P_idle" "\<And>j. j \<noteq> i \<Longrightarrow> pc t j = pc s j \<and> buffer t j = buffer s j"
  shows "sum (producer_weight t) (busy t) + producer_weight s i = sum (producer_weight s) (busy s) + producer_weight t i"
proof -
  have sub: "busy t \<subseteq> busy s"
  proof
    fix x assume "x \<in> busy t"
    then show "x \<in> busy s" using assms(2,3) by (cases "x = i") (simp_all add: busy_def)
  qed
  have "sum (producer_weight t) (busy t) = sum (producer_weight t) (busy s)"
    by (rule sum.mono_neutral_left [OF assms(1) sub]) (auto simp: busy_def producer_weight_def)
  also have "\<dots> = producer_weight t i + sum (producer_weight t) (busy s - {i})"
    using assms(1,2) by (simp add: sum.remove busy_def)
  also have "sum (producer_weight t) (busy s - {i}) = sum (producer_weight s) (busy s - {i})"
    by (rule sum.cong) (use assms(3) in \<open>auto simp: producer_weight_def\<close>)
  finally have "sum (producer_weight t) (busy t) = producer_weight t i + sum (producer_weight s) (busy s - {i})" .
  moreover have "sum (producer_weight s) (busy s) = producer_weight s i + sum (producer_weight s) (busy s - {i})"
    by (rule sum.remove) (use assms(1,2) in \<open>simp_all add: busy_def\<close>)
  ultimately show ?thesis by simp
qed

lemma busy_step: "chain_step fences ops s t \<Longrightarrow> finite (busy s) \<Longrightarrow> finite (busy t)"
proof -
  assume st: "chain_step fences ops s t" and fin: "finite (busy s)"
  have "\<exists>i. busy t \<subseteq> insert i (busy s)"
    using st
  proof (cases rule: chain_step.cases)
    case producer
    then show ?thesis
      by (cases rule: producer_step.cases) (auto simp: busy_def split: if_splits)
  next
    case consumer
    then show ?thesis
      by (cases rule: consumer_step.cases) (auto simp: busy_def)
  next
    case memory
    then show ?thesis
      by (cases rule: memory_step.cases) (auto simp: busy_def)
  next
    case session
    then show ?thesis by (auto simp: busy_def)
  qed
  with fin show ?thesis by (meson finite_insert finite_subset)
qed

lemma producer_weight_less:
  assumes "producer_step True ops s t" "\<forall>i. pc s i = P_idle \<longrightarrow> pc t i = P_idle" "finite (busy s)"
  shows "chain_weight slots t < chain_weight slots s"
proof -
  obtain i where i: "pc s i \<noteq> P_idle" "\<And>j. j \<noteq> i \<Longrightarrow> pc t j = pc s j \<and> buffer t j = buffer s j"
    "9 * posted t + producer_weight t i < 9 * posted s + producer_weight s i"
    "queue t = queue s" "cursor t = cursor s" "handler t = handler s" "writing t = writing s"
    "parked t = parked s" "pending t = pending s"
    using assms(1)
  proof (cases rule: producer_step.cases)
    case (reserve i k q' r)
    with assms(2) show ?thesis by (metis chain.select_convs(5) chain.surjective chain.update_convs(5)
        fun_upd_same producer_pc.distinct(1))
  qed (rule that; auto simp: producer_weight_def)+
  then show ?thesis
    using producers_diff [OF assms(3) i(1,2)] by (simp add: chain_weight_def)
qed

lemma consumer_weight_less:
  assumes "consumer_step True ops s t" "connected s" "queue_contract ops slots"
  shows "chain_weight slots t < chain_weight slots s"
proof -
  have pc: "producer_weight t = producer_weight s" "busy t = busy s"
    using assms(1) by (cases rule: consumer_step.cases; auto simp: producer_weight_def busy_def fun_eq_iff)+
  show ?thesis
    using assms(1)
  proof (cases rule: consumer_step.cases)
    case (read r)
    then have "cursor s < length (slots (queue s))" using assms(3) by (simp add: contract_read_Some)
    with read pc show ?thesis by (simp add: chain_weight_def handler_weight_def)
  next
    case (reclaim r)
    then have "cursor s < length (slots (queue s))" using assms(3) by (simp add: contract_read_Some)
    with reclaim pc show ?thesis by (simp add: chain_weight_def handler_weight_def)
  qed (use assms(2) pc in \<open>simp_all add: chain_weight_def handler_weight_def\<close>)
qed

lemma memory_weight_less:
  assumes "memory_step ops s t" "queue_contract ops slots" "queue_inv slots s" "finite (busy s)"
  shows "chain_weight slots t < chain_weight slots s"
  using assms(1)
proof (cases rule: memory_step.cases)
  case (flush_record i k r)
  have pi: "pc s i = P_published" using queue_invD(4) [OF assms(3)] flush_record by blast
  have "k < length (slots (queue s))" "slots (queue s) ! k = None"
    using queue_invD(1) [OF assms(3), of i k r] flush_record by (auto simp: holding_def)
  then have "length (slots (queue t)) = length (slots (queue s))"
    using flush_record contract_publish [OF assms(2)] by simp
  moreover have "sum (producer_weight t) (busy t) + producer_weight s i = sum (producer_weight s) (busy s) + producer_weight t i"
    by (rule producers_diff [OF assms(4)]) (use flush_record pi in auto)
  moreover have "producer_weight t i < producer_weight s i"
    using flush_record pi by (simp add: producer_weight_def)
  ultimately show ?thesis using flush_record by (simp add: chain_weight_def)
next
  case flush_running
  then have "producer_weight t = producer_weight s" "busy t = busy s"
    by (auto simp: producer_weight_def busy_def fun_eq_iff)
  with flush_running show ?thesis by (simp add: chain_weight_def)
qed

lemma chain_weight_less:
  assumes "internal_step ops s t" "queue_contract ops slots" "queue_inv slots s" "finite (busy s)"
  shows "chain_weight slots t < chain_weight slots s"
  using assms producer_weight_less consumer_weight_less memory_weight_less
  unfolding internal_step_def by metis

lemma busy_init: "finite (busy (chain_init ops))"
  by (simp add: busy_def chain_init_def)

interpretation chain_rest: comes_to_rest "chain_init ops" "chain_step True ops"
    "\<lambda>s. finite (busy s) \<and> (queue_contract ops slots \<longrightarrow> chain_inv slots s)"
    "\<lambda>s t. queue_contract ops slots \<and> internal_step ops s t" "chain_weight slots"
  for ops :: "('q, 'r) queue_ops" and slots :: "'q \<Rightarrow> 'r option list"
proof unfold_locales
  fix s t :: "('q, 'r) chain"
  assume "finite (busy s) \<and> (queue_contract ops slots \<longrightarrow> chain_inv slots s)"
    "queue_contract ops slots \<and> internal_step ops s t"
  then show "chain_weight slots t < chain_weight slots s"
    by (auto simp: chain_inv_def intro: chain_weight_less)
qed (auto intro: internal_chain_step busy_init chain_inv_init busy_step chain_inv_step)

text \<open>A resting state has nobody under way, and then every published record has been written.\<close>

lemma producer_can_move:
  assumes "queue_inv slots s" "connected s" "pc s i \<noteq> P_idle"
  shows "\<exists>t. internal_step ops s t"
proof -
  note b = queue_invD(4) [OF assms(1), of i]
  have int: "internal_step ops s t"
    if "producer_step True ops s t \<or> memory_step ops s t" "\<And>j. j \<noteq> i \<Longrightarrow> pc t j = pc s j" "abandoned t \<Longrightarrow> abandoned s" for t
    using that assms(2,3) by (auto simp: internal_step_def) metis+
  show ?thesis
  proof (cases "pc s i")
    case (P_reserved k r)
    with b have "buffer s i = None" by (cases "buffer s i") auto
    from int [OF disjI1, OF producer_step.publish, OF P_reserved this] show ?thesis by auto
  next
    case P_published
    show ?thesis
    proof (cases "buffer s i")
      case None
      then show ?thesis using int [OF disjI1, OF producer_step.fence, OF P_published] by auto
    next
      case (Some kr)
      then have "buffer s i = Some (fst kr, snd kr)" by simp
      from int [OF disjI2, OF memory_step.flush_record, OF this] show ?thesis by auto
    qed
  next
    case P_fenced
    show ?thesis
    proof (cases "running s")
      case True
      from int [OF disjI1, OF producer_step.load_running, OF P_fenced this] show ?thesis by auto
    next
      case False
      from int [OF disjI1, OF producer_step.load_ended, OF P_fenced this] show ?thesis by auto
    qed
  next
    case P_loaded
    with b have bi: "buffer s i = None" by (cases "buffer s i") auto
    show ?thesis
    proof (cases "running s")
      case True
      from int [OF disjI1, OF producer_step.claim_lost, OF P_loaded bi this] show ?thesis by auto
    next
      case False
      from int [OF disjI1, OF producer_step.claim, OF P_loaded bi this] show ?thesis by auto
    qed
  next
    case P_won
    from int [OF disjI1, OF producer_step.post, OF P_won] show ?thesis by auto
  qed (use assms(3) in simp)
qed

text \<open>The consumer, the memory and the strand have nothing left to do.\<close>

definition chain_still :: "('q, 'r) chain \<Rightarrow> bool" where
  "chain_still s \<longleftrightarrow> handler s = H_none \<and> posted s = 0 \<and> writing s = 0 \<and> \<not> parked s \<and> \<not> pending s"

lemma internal_consumer:
  "consumer_step True ops s t \<or> memory_step ops s t \<Longrightarrow> connected s \<Longrightarrow> pc t = pc s \<Longrightarrow> (abandoned t \<Longrightarrow> abandoned s)
     \<Longrightarrow> \<exists>t. internal_step ops s t"
  by (auto simp: internal_step_def)

lemma consumer_can_move:
  assumes "queue_contract ops slots" "wake_inv slots s" "connected s" "\<not> chain_still s"
  shows "\<exists>t. internal_step ops s t"
proof (cases "pending s")
  case True
  from internal_consumer [OF disjI2, OF memory_step.flush_running, OF True] assms(3) show ?thesis by simp
next
  case pe: False
  note mv = internal_consumer [OF disjI1]
  show ?thesis
  proof (cases "handler s")
    case H_none
    show ?thesis
    proof (cases "posted s")
      case 0
      show ?thesis
      proof (cases "writing s")
        case 0
        with \<open>posted s = 0\<close> H_none pe assms(4) have "parked s" by (simp add: chain_still_def)
        from mv [OF consumer_step.resume, OF H_none this] assms(3) show ?thesis by simp
      next
        case (Suc n)
        from mv [OF consumer_step.written, OF H_none this] assms(3) show ?thesis by simp
      qed
    next
      case (Suc n)
      from mv [OF consumer_step.wakeup, OF H_none this] assms(3) show ?thesis by simp
    qed
  next
    case H_start
    from mv [OF consumer_step.start, OF H_start assms(3)] assms(3) show ?thesis by simp
  next
    case H_drain
    show ?thesis
    proof (cases "q_read ops (queue s) (cursor s)")
      case None
      from mv [OF consumer_step.read_dry, OF H_drain this] assms(3) show ?thesis by simp
    next
      case (Some r)
      from mv [OF consumer_step.read, OF H_drain this] assms(3) show ?thesis by simp
    qed
  next
    case H_stored
    from mv [OF consumer_step.end_fence, OF H_stored] pe assms(3) show ?thesis by simp
  next
    case H_fenced
    show ?thesis
    proof (cases "q_read ops (queue s) (cursor s)")
      case None
      from mv [OF consumer_step.probe_dry, OF H_fenced this] assms(3) show ?thesis by simp
    next
      case (Some r)
      from mv [OF consumer_step.probe, OF H_fenced this] assms(3) show ?thesis by simp
    qed
  next
    case H_hit
    then obtain r where r: "q_read ops (queue s) (cursor s) = Some r"
      using assms(1,2) by (auto simp: wake_inv_def readable_read)
    show ?thesis
    proof (cases "running s")
      case True
      from mv [OF consumer_step.reclaim_lost, OF H_hit pe this] assms(3) show ?thesis by simp
    next
      case False
      from mv [OF consumer_step.reclaim, OF H_hit pe this r] assms(3) show ?thesis by simp
    qed
  qed
qed

lemma still_drained:
  assumes "chain_inv slots s" "chain_still s" "\<And>i. pc s i = P_idle" "\<not> abandoned s"
  shows "map Some (sent s) = slots (queue s)"
proof -
  from assms(1) obtain t where t: "owned_by t s" and q: "queue_inv slots s" and w: "wake_inv slots s"
    by (auto simp: chain_inv_def)
  have "t = Nobody"
    using t assms(2,3) by (cases t) (auto simp: owned_by_def chain_still_def)
  with t w have "\<not> readable slots s"
    using assms(2-4) by (auto simp: wake_inv_def looking_def chain_still_def)
  moreover have "slots (queue s) ! k \<noteq> None" if "k < length (slots (queue s))" for k
  proof
    assume "slots (queue s) ! k = None"
    with queue_invD(3) [OF q that] obtain i r where "holding i k r s" by blast
    then show False using assms(3) [of i] queue_invD(4) [OF q, of i] by (auto simp: holding_def)
  qed
  ultimately have "cursor s = length (slots (queue s))"
    using queue_invD(5) [OF q] unfolding readable_def by (metis le_neq_implies_less)
  then show ?thesis using queue_invD(6) [OF q] by simp
qed

lemma rest_drained:
  assumes "queue_contract ops slots" "chain_inv slots s" "connected s" "\<not> abandoned s" "\<nexists>t. internal_step ops s t"
  shows "map Some (sent s) = slots (queue s)"
proof (rule still_drained [OF assms(2) _ _ assms(4)])
  from assms(2) have inv: "queue_inv slots s" "wake_inv slots s" by (auto simp: chain_inv_def)
  show "chain_still s" using consumer_can_move [OF assms(1) inv(2) assms(3)] assms(5) by blast
  show "pc s i = P_idle" for i using producer_can_move [OF inv(1) assms(3)] assms(5) by blast
qed

lemma internal_keeps:
  "(internal_step ops)\<^sup>*\<^sup>* s t \<Longrightarrow> \<not> abandoned s \<Longrightarrow> connected s \<Longrightarrow> \<not> abandoned t \<and> connected t"
proof (induction rule: rtranclp_induct)
  case (step t u)
  then have c: "\<not> abandoned t" "connected t" by simp_all
  have "connected u = connected t"
    using step(2) unfolding internal_step_def
    by (auto elim!: producer_stepE consumer_stepE memory_stepE)
  with step(2) c show ?case by (auto simp: internal_step_def)
qed simp

section \<open>Schedules\<close>

text \<open>
  The step relation, run by a scheduler: a move names the party that acts next, and \<open>moved\<close> computes what
  it does.
\<close>

datatype 'r move =
    Sends nat 'r | Moves nat | Flushes nat | Wakes | Resumes | Handles | Completes | Fails | Settles | Connects bool

fun moved :: "bool \<Rightarrow> ('q, 'r) queue_ops \<Rightarrow> 'r move \<Rightarrow> ('q, 'r) chain \<Rightarrow> ('q, 'r) chain option" where
  "moved fences ops (Sends i r) s = (case pc s i of
       P_idle \<Rightarrow> (let (k, q') = q_reserve ops (queue s) in Some (s\<lparr>queue := q', pc := (pc s)(i := P_reserved k r)\<rparr>))
     | _ \<Rightarrow> None)"
| "moved fences ops (Moves i) s = (case pc s i of
       P_idle \<Rightarrow> None
     | P_reserved k r \<Rightarrow> (case buffer s i of
         None \<Rightarrow> Some (s\<lparr>pc := (pc s)(i := P_published), buffer := (buffer s)(i := Some (k, r))\<rparr>) | Some _ \<Rightarrow> None)
     | P_published \<Rightarrow> if fences \<and> \<not> Option.is_none (buffer s i) then None else Some (s\<lparr>pc := (pc s)(i := P_fenced)\<rparr>)
     | P_fenced \<Rightarrow> Some (s\<lparr>pc := (pc s)(i := if running s then P_idle else P_loaded)\<rparr>)
     | P_loaded \<Rightarrow> if \<not> Option.is_none (buffer s i) then None
         else if running s then Some (s\<lparr>pc := (pc s)(i := P_idle)\<rparr>)
         else Some (s\<lparr>running := True, pc := (pc s)(i := P_won), abandoned := False\<rparr>)
     | P_won \<Rightarrow> Some (s\<lparr>posted := Suc (posted s), pc := (pc s)(i := P_idle)\<rparr>))"
| "moved fences ops (Flushes i) s = (case buffer s i of
       None \<Rightarrow> None
     | Some (k, r) \<Rightarrow> Some (s\<lparr>queue := q_publish ops k r (queue s), buffer := (buffer s)(i := None)\<rparr>))"
| "moved fences ops Wakes s = (case (handler s, posted s) of
       (H_none, Suc n) \<Rightarrow> Some (s\<lparr>posted := n, handler := H_start\<rparr>) | _ \<Rightarrow> None)"
| "moved fences ops Resumes s =
     (if handler s = H_none \<and> parked s then Some (s\<lparr>parked := False, posted := Suc (posted s)\<rparr>) else None)"
| "moved fences ops Handles s = (case handler s of
       H_none \<Rightarrow> None
     | H_start \<Rightarrow> Some (if connected s then s\<lparr>handler := H_drain\<rparr> else s\<lparr>parked := True, handler := H_none\<rparr>)
     | H_drain \<Rightarrow> (case q_read ops (queue s) (cursor s) of
         None \<Rightarrow> Some (s\<lparr>pending := True, handler := H_stored\<rparr>)
       | Some r \<Rightarrow> Some (s\<lparr>cursor := Suc (cursor s), sent := sent s @ [r], writing := Suc (writing s), handler := H_none\<rparr>))
     | H_stored \<Rightarrow> if fences \<and> pending s then None else Some (s\<lparr>handler := H_fenced\<rparr>)
     | H_fenced \<Rightarrow> (case q_read ops (queue s) (cursor s) of
         None \<Rightarrow> Some (s\<lparr>handler := H_none\<rparr>) | Some r \<Rightarrow> Some (s\<lparr>handler := H_hit\<rparr>))
     | H_hit \<Rightarrow> if pending s then None
         else if running s then Some (s\<lparr>handler := H_none\<rparr>)
         else (case q_read ops (queue s) (cursor s) of
             None \<Rightarrow> None
           | Some r \<Rightarrow> Some (s\<lparr>running := True, cursor := Suc (cursor s), sent := sent s @ [r],
                 writing := Suc (writing s), handler := H_none, abandoned := False\<rparr>)))"
| "moved fences ops Completes s = (case (handler s, writing s) of
       (H_none, Suc n) \<Rightarrow> Some (s\<lparr>writing := n, handler := H_start\<rparr>) | _ \<Rightarrow> None)"
| "moved fences ops Fails s = (case (handler s, writing s) of
       (H_none, Suc n) \<Rightarrow> Some (s\<lparr>writing := n, pending := True, abandoned := True\<rparr>) | _ \<Rightarrow> None)"
| "moved fences ops Settles s = (if pending s then Some (s\<lparr>running := False, pending := False\<rparr>) else None)"
| "moved fences ops (Connects b) s = Some (s\<lparr>connected := b\<rparr>)"

fun schedule :: "bool \<Rightarrow> ('q, 'r) queue_ops \<Rightarrow> 'r move list \<Rightarrow> ('q, 'r) chain \<Rightarrow> ('q, 'r) chain option" where
  "schedule fences ops [] s = Some s"
| "schedule fences ops (m # ms) s = (case moved fences ops m s of None \<Rightarrow> None | Some t \<Rightarrow> schedule fences ops ms t)"

lemmas chain_steps_intro =
  producer_step.intros [THEN chain_step.producer] consumer_step.intros [THEN chain_step.consumer]
  memory_step.intros [THEN chain_step.memory] chain_step.session

lemma no_pair: "(\<forall>a b. x \<noteq> Some (a, b)) \<longleftrightarrow> x = None"
  by (cases x) auto

lemma moved_step: "moved fences ops m s = Some t \<Longrightarrow> chain_step fences ops s t"
  by (induction fences ops m s rule: moved.induct)
    (auto split: producer_pc.splits handler_pc.splits option.splits if_splits nat.splits prod.splits
      simp: Option.is_none_def no_pair intro: chain_steps_intro)

lemma schedule_reachable:
  "schedule fences ops ms s = Some t \<Longrightarrow> reachable (chain_init ops) (chain_step fences ops) s \<Longrightarrow>
     reachable (chain_init ops) (chain_step fences ops) t"
proof (induction ms arbitrary: s)
  case (Cons m ms)
  then obtain u where "moved fences ops m s = Some u" "schedule fences ops ms u = Some t"
    by (auto split: option.splits)
  with Cons show ?case by (blast intro: moved_step reachable.next_step)
qed simp

lemmas schedule_reaches = schedule_reachable [OF _ reachable.start]

text \<open>A queue that meets the contract, for the examples: the list of its slots.\<close>

definition list_queue :: "('r option list, 'r) queue_ops" where
  "list_queue = \<lparr>q_empty = [], q_reserve = (\<lambda>q. (length q, q @ [None])),
     q_publish = (\<lambda>k r q. q[k := Some r]), q_read = (\<lambda>q c. if c < length q then q ! c else None)\<rparr>"

lemma list_queue_contract: "queue_contract list_queue (\<lambda>q. q)"
  by (simp add: queue_contract_def list_queue_def)

definition one_send :: "nat \<Rightarrow> 'r \<Rightarrow> 'r move list" where
  "one_send i r = [Sends i r, Moves i, Flushes i, Moves i, Moves i, Moves i, Moves i]"

definition coalesced_send :: "nat \<Rightarrow> 'r \<Rightarrow> 'r move list" where
  "coalesced_send i r = [Sends i r, Moves i, Flushes i, Moves i, Moves i]"

text \<open>The execution of the class comment: the second record is published while the chain ends.\<close>

definition store_buffer_litmus :: "nat move list" where
  "store_buffer_litmus = Connects True # one_send 0 7 @ [Wakes, Handles, Handles, Completes, Handles, Handles, Handles,
     Sends 1 8, Moves 1, Moves 1, Moves 1, Handles, Settles, Flushes 1]"

section \<open>Properties\<close>

text \<open>
  C22. There is never more than one write chain: in every reachable state (with or without the fences) at most
  one wakeup, running handler, \<open>async_write\<close> or parked chain exists, and then nobody else wins the gate.
\<close>
theorem one_write_chain:
  assumes "reachable (chain_init ops) (chain_step fences ops) s"
  shows "posted s + writing s + (if parked s then 1 else 0)
       + (if handler s = H_start \<or> handler s = H_drain then 1 else 0) + card {i. pc s i = P_won} \<le> 1"
proof -
  obtain t where t: "owned_by t s" using owned.reachable_inv [OF assms] by blast
  have "{i. pc s i = P_won} = {i. t = Producer i}" using t by (auto simp: owned_by_def)
  also have "card \<dots> = (case t of Producer i \<Rightarrow> 1 | _ \<Rightarrow> 0)" by (cases t) auto
  finally show ?thesis using t by (cases t) (auto simp: owned_by_def)
qed

theorem one_write_chain_witness:
  "\<exists>s. schedule True list_queue (Connects True # one_send 0 (7::nat) @ [Wakes, Handles, Handles]) (chain_init list_queue) = Some s
     \<and> writing s = 1 \<and> posted s + writing s + (if parked s then 1 else 0)
       + (if handler s = H_start \<or> handler s = H_drain then 1 else 0) + card {i. pc s i = P_won} \<le> 1"
proof -
  obtain s where s: "schedule True list_queue (Connects True # one_send 0 (7::nat) @ [Wakes, Handles, Handles])
      (chain_init list_queue) = Some s" "writing s = 1"
    by (simp add: one_send_def coalesced_send_def list_queue_def chain_init_def)
  from one_write_chain [OF schedule_reaches [OF s(1)]] s show ?thesis by blast
qed

text \<open>
  C31. Every record is written once and in the order the producers reserved them: the records given to
  \<open>async_write\<close> are always the first \<open>w_cursor_\<close> records of the queue.
\<close>
theorem chain_writes_in_order:
  assumes "queue_contract ops slots" "reachable (chain_init ops) (chain_step True ops) s"
  shows "map Some (sent s) = take (cursor s) (slots (queue s))"
  using chain_sys.reachable_inv [OF assms(2), of slots] assms(1) queue_invD(6) by (auto simp: chain_inv_def)

theorem chain_writes_in_order_witness:
  "\<exists>s. schedule True list_queue
      (Connects True # one_send 0 (7::nat) @ coalesced_send 1 8 @ [Wakes, Handles, Handles, Completes, Handles, Handles])
      (chain_init list_queue) = Some s
     \<and> sent s = [7, 8] \<and> map Some (sent s) = take (cursor s) (queue s)"
proof -
  obtain s where s: "schedule True list_queue
      (Connects True # one_send 0 (7::nat) @ coalesced_send 1 8 @ [Wakes, Handles, Handles, Completes, Handles, Handles])
      (chain_init list_queue) = Some s" "sent s = [7, 8]"
    by (simp add: one_send_def coalesced_send_def list_queue_def chain_init_def)
  from chain_writes_in_order [OF list_queue_contract schedule_reaches [OF s(1)]] s show ?thesis by blast
qed

text \<open>
  C23. No record is stranded, unless a failed write made the last chain abandon the queue, which stays so until the next
  \<open>send\<close> wins the gate: a record that is readable at the cursor while nobody owns the gate has a producer or the ending chain
  about to look at the gate.
\<close>
theorem no_stranded_record:
  assumes "queue_contract ops slots" "reachable (chain_init ops) (chain_step True ops) s"
    and "owned_by Nobody s" "q_read ops (queue s) (cursor s) \<noteq> None" "\<not> abandoned s"
  shows "handler s \<in> {H_stored, H_fenced, H_hit} \<or> (\<exists>i. pc s i \<in> {P_published, P_fenced, P_loaded})"
proof -
  have "wake_inv slots s"
    using chain_sys.reachable_inv [OF assms(2), of slots] assms(1) by (auto simp: chain_inv_def)
  then show ?thesis
    using assms by (auto simp: wake_inv_def looking_def readable_read)
qed

theorem no_stranded_record_witness:
  "\<exists>s. schedule True list_queue [Sends 0 (7::nat), Moves 0, Flushes 0] (chain_init list_queue) = Some s
     \<and> pc s 0 = P_published \<and> (handler s \<in> {H_stored, H_fenced, H_hit} \<or> (\<exists>i. pc s i \<in> {P_published, P_fenced, P_loaded}))"
proof -
  obtain s where s: "schedule True list_queue [Sends 0 (7::nat), Moves 0, Flushes 0] (chain_init list_queue) = Some s"
      "pc s 0 = P_published" "owned_by Nobody s" "q_read list_queue (queue s) (cursor s) \<noteq> None" "\<not> abandoned s"
    by (simp add: list_queue_def chain_init_def owned_by_def)
  from no_stranded_record [OF list_queue_contract schedule_reaches [OF s(1)] s(3-5)] s show ?thesis by blast
qed

text \<open>
  C10. Liveness: while the session stays connected, no write fails and no new \<open>send\<close> starts, every run of the
  system is finite, can be completed, and ends with every record of the queue written, in order.
\<close>
theorem chain_drains:
  assumes "queue_contract ops slots" "reachable (chain_init ops) (chain_step True ops) s"
    and "connected s" "\<not> abandoned s"
  shows "(\<forall>n t. (internal_step ops ^^ n) s t \<longrightarrow> n \<le> chain_weight slots s)
     \<and> (\<exists>t. (internal_step ops)\<^sup>*\<^sup>* s t \<and> (\<nexists>u. internal_step ops t u))
     \<and> (\<forall>t. (internal_step ops)\<^sup>*\<^sup>* s t \<and> (\<nexists>u. internal_step ops t u) \<longrightarrow> map Some (sent t) = slots (queue t))"
proof -
  have eq: "(\<lambda>s t. queue_contract ops slots \<and> internal_step ops s t) = internal_step ops" using assms(1) by simp
  note rest = chain_rest.run_bounded [where ops = ops and slots = slots, unfolded eq]
    chain_rest.rests [where ops = ops and slots = slots, unfolded eq]
    chain_rest.internal_inv [where ops = ops and slots = slots, unfolded eq]
  have inv: "finite (busy s) \<and> (queue_contract ops slots \<longrightarrow> chain_inv slots s)"
    by (rule chain_rest.reachable_inv [OF assms(2)])
  show ?thesis
    using rest(1) [OF _ inv] rest(2) [OF inv] rest(3) [OF _ inv] assms(1) internal_keeps [OF _ assms(4,3)]
      rest_drained [OF assms(1)] by blast
qed

theorem chain_drains_witness:
  "\<exists>s. schedule True list_queue (Connects True # one_send 0 (7::nat) @ coalesced_send 1 8) (chain_init list_queue) = Some s
     \<and> sent s = [] \<and> (\<exists>t. (internal_step list_queue)\<^sup>*\<^sup>* s t \<and> map Some (sent t) = queue t)"
proof -
  obtain s where s: "schedule True list_queue (Connects True # one_send 0 (7::nat) @ coalesced_send 1 8)
      (chain_init list_queue) = Some s" "connected s" "\<not> abandoned s" "sent s = []"
    by (simp add: one_send_def coalesced_send_def list_queue_def chain_init_def)
  from chain_drains [OF list_queue_contract schedule_reaches [OF s(1)] s(2,3)] s show ?thesis by blast
qed

text \<open>
  The fences are needed: without them the program reaches a state where everything is still, the session is
  connected, no chain was abandoned, and the second record is in the queue with nobody to write it.
\<close>
lemma fences_needed:
  "\<exists>s. reachable (chain_init list_queue) (chain_step False list_queue) s
     \<and> chain_still s \<and> \<not> running s \<and> connected s \<and> \<not> abandoned s \<and> (\<forall>i. pc s i = P_idle \<and> buffer s i = None)
     \<and> queue s = [Some 7, Some (8::nat)] \<and> sent s = [7]"
proof -
  obtain s where s: "schedule False list_queue store_buffer_litmus (chain_init list_queue) = Some s"
    "chain_still s" "\<not> running s" "connected s" "\<not> abandoned s" "\<forall>i. pc s i = P_idle \<and> buffer s i = None"
    "queue s = [Some 7, Some 8]" "sent s = [7]"
    by (simp add: store_buffer_litmus_def one_send_def list_queue_def chain_init_def chain_still_def)
  with schedule_reaches [OF s(1)] show ?thesis by blast
qed

text \<open>
  \<open>claim_after_publish\<close> run on its own is the fence, load and compare-exchange of the concurrent model: a
  producer whose publish is visible ends with the gate and the answer the sequential function gives.
\<close>
lemma claim_after_publish_refined:
  assumes "pc s i = P_published" "buffer s i = None" "claim_after_publish (running s) = (won, r)"
  shows "(producer_step True ops)\<^sup>*\<^sup>* s (s\<lparr>running := r, pc := (pc s)(i := if won then P_won else P_idle),
     abandoned := abandoned s \<and> \<not> won\<rparr>)"
proof -
  let ?f = "s\<lparr>pc := (pc s)(i := P_fenced)\<rparr>" and ?l = "s\<lparr>pc := (pc s)(i := P_loaded)\<rparr>"
  let ?t = "s\<lparr>running := r, pc := (pc s)(i := if won then P_won else P_idle), abandoned := abandoned s \<and> \<not> won\<rparr>"
  have f: "producer_step True ops s ?f" using assms by (intro producer_step.fence) auto
  have "(producer_step True ops)\<^sup>*\<^sup>* ?f ?t"
  proof (cases "running s")
    case True
    have "producer_step True ops ?f (?f\<lparr>pc := (pc ?f)(i := P_idle)\<rparr>)" using True by (intro producer_step.load_running) auto
    moreover have "?f\<lparr>pc := (pc ?f)(i := P_idle)\<rparr> = ?t" using True assms(3) by (cases s) (simp add: claim_after_publish_def)
    ultimately show ?thesis by (metis r_into_rtranclp)
  next
    case False
    have "producer_step True ops ?f (?f\<lparr>pc := (pc ?f)(i := P_loaded)\<rparr>)" using False by (intro producer_step.load_ended) auto
    then have l: "producer_step True ops ?f ?l" by simp
    have "?l\<lparr>running := True, pc := (pc ?l)(i := P_won), abandoned := False\<rparr> = ?t"
      using False assms(3) by (cases s) (simp add: claim_after_publish_def)
    moreover have "producer_step True ops ?l (?l\<lparr>running := True, pc := (pc ?l)(i := P_won), abandoned := False\<rparr>)"
      using False assms(2) by (intro producer_step.claim) auto
    ultimately have "producer_step True ops ?l ?t" by (rule subst)
    from rtranclp.rtrancl_into_rtrancl [OF r_into_rtranclp [of "producer_step True ops", OF l] this] show ?thesis .
  qed
  from converse_rtranclp_into_rtranclp [OF f this] show ?thesis .
qed

lemma claim_after_publish_refined_witness:
  "\<exists>s. schedule True list_queue [Sends 0 (7::nat), Moves 0, Flushes 0] (chain_init list_queue) = Some s
     \<and> (producer_step True list_queue)\<^sup>*\<^sup>* s (s\<lparr>running := True, pc := (pc s)(0 := P_won), abandoned := False\<rparr>)"
proof -
  obtain s where s: "schedule True list_queue [Sends 0 (7::nat), Moves 0, Flushes 0] (chain_init list_queue) = Some s"
      "pc s 0 = P_published" "buffer s 0 = None" "claim_after_publish (running s) = (True, True)"
    by (simp add: list_queue_def chain_init_def claim_after_publish_def)
  from claim_after_publish_refined [OF s(2-4), of list_queue] s(1) show ?thesis by auto
qed

text \<open>
  \<open>ended_or_reclaimed\<close> and \<open>abandon\<close> run on their own are the concurrent model's steps of an ending chain: the
  gate is left as the sequential function says, and the record the probe found is written exactly when the
  function returns true.
\<close>
lemma ended_or_reclaimed_refined:
  assumes "handler s = H_stored" "pending s"
    and "ended_or_reclaimed (q_read ops (queue s) (cursor s) \<noteq> None) (running s) = (goes_on, r)"
  shows "(chain_step True ops)\<^sup>*\<^sup>* s
     (if goes_on
      then s\<lparr>running := r, pending := False, handler := H_none, cursor := Suc (cursor s), writing := Suc (writing s),
             sent := sent s @ [the (q_read ops (queue s) (cursor s))], abandoned := False\<rparr>
      else s\<lparr>running := r, pending := False, handler := H_none\<rparr>)"
proof -
  let ?m = "s\<lparr>running := False, pending := False\<rparr>"
  let ?f = "?m\<lparr>handler := H_fenced\<rparr>" and ?h = "?m\<lparr>handler := H_hit\<rparr>"
  have "chain_step True ops s ?m" using assms(2) by (intro chain_steps_intro)
  moreover have "chain_step True ops ?m ?f" using assms(1) by (intro chain_steps_intro) auto
  ultimately have two: "(chain_step True ops)\<^sup>*\<^sup>* s ?f" by (metis r_into_rtranclp rtranclp.rtrancl_into_rtrancl)
  show ?thesis
  proof (cases "q_read ops (queue s) (cursor s)")
    case None
    then have "chain_step True ops ?f (?f\<lparr>handler := H_none\<rparr>)" by (intro chain_steps_intro) auto
    moreover have "?f\<lparr>handler := H_none\<rparr> = s\<lparr>running := r, pending := False, handler := H_none\<rparr>" "\<not> goes_on"
      using assms(3) None by (cases s; simp add: ended_or_reclaimed_def)+
    ultimately show ?thesis using two by (simp add: rtranclp.rtrancl_into_rtrancl)
  next
    case (Some x)
    have "chain_step True ops ?f (?f\<lparr>handler := H_hit\<rparr>)"
      by (rule chain_step.consumer, rule consumer_step.probe [where r = x]) (use Some in simp_all)
    then have "chain_step True ops ?f ?h" by simp
    moreover have "chain_step True ops ?h (?h\<lparr>running := True, cursor := Suc (cursor ?h), sent := sent ?h @ [x],
        writing := Suc (writing ?h), handler := H_none, abandoned := False\<rparr>)"
      by (rule chain_step.consumer, rule consumer_step.reclaim) (use Some in simp_all)
    moreover have "?h\<lparr>running := True, cursor := Suc (cursor ?h), sent := sent ?h @ [x],
        writing := Suc (writing ?h), handler := H_none, abandoned := False\<rparr>
      = s\<lparr>running := r, pending := False, handler := H_none, cursor := Suc (cursor s), writing := Suc (writing s),
          sent := sent s @ [the (q_read ops (queue s) (cursor s))], abandoned := False\<rparr>" "goes_on"
      using assms(3) Some by (cases s; simp add: ended_or_reclaimed_def)+
    ultimately show ?thesis using two by (simp add: rtranclp.rtrancl_into_rtrancl)
  qed
qed

definition ending_chain :: "nat move list" where
  "ending_chain = Connects True # one_send 0 7 @ [Wakes, Handles, Handles, Completes, Handles, Handles,
     Sends 1 8, Moves 1, Flushes 1]"

lemma ended_or_reclaimed_refined_witness:
  "\<exists>s. schedule True list_queue ending_chain (chain_init list_queue) = Some s \<and> sent s = [7]
     \<and> (\<exists>t. (chain_step True list_queue)\<^sup>*\<^sup>* s t \<and> running t \<and> sent t = [7, 8])"
proof -
  obtain s where s: "schedule True list_queue ending_chain (chain_init list_queue) = Some s"
      "handler s = H_stored" "pending s" "q_read list_queue (queue s) (cursor s) = Some 8" "sent s = [7]"
    by (simp add: ending_chain_def one_send_def list_queue_def chain_init_def)
  have "ended_or_reclaimed (q_read list_queue (queue s) (cursor s) \<noteq> None) (running s) = (True, True)"
    using s(4) by (simp add: ended_or_reclaimed_def)
  from ended_or_reclaimed_refined [OF s(2,3) this] s show ?thesis by (intro exI [of _ s]) auto
qed

end
