(* ===== verification/Logging.thy ===== *)
theory Logging
  imports Transitions "HOL-Library.Word"
begin

text \<open>
  \<open>src/logging.cpp\<close> and \<open>logging.hpp\<close>: the levels, the handler and level getter published as one immutable
  node, the stack of retired nodes, the two readers and the logging macros on any number of threads.  What a
  handler does and what a level getter answers is up to the application.
\<close>

section \<open>Levels and file names\<close>

datatype log_level = Trace | Debug | Info | Warn | Error | Fatal | Off

fun level_rank :: "log_level \<Rightarrow> nat" where
  "level_rank Trace = 0" | "level_rank Debug = 1" | "level_rank Info = 2" | "level_rank Warn = 3"
| "level_rank Error = 4" | "level_rank Fatal = 5" | "level_rank Off = 6"

lemma level_rank_inject: "level_rank a = level_rank b \<longleftrightarrow> a = b"
  by (cases a; cases b) simp_all

instantiation log_level :: linorder
begin

definition less_eq_log_level :: "log_level \<Rightarrow> log_level \<Rightarrow> bool" where
  "less_eq_log_level a b \<longleftrightarrow> level_rank a \<le> level_rank b"

definition less_log_level :: "log_level \<Rightarrow> log_level \<Rightarrow> bool" where
  "less_log_level a b \<longleftrightarrow> level_rank a < level_rank b"

instance
  by intro_classes (auto simp: less_eq_log_level_def less_log_level_def level_rank_inject)

end

text \<open>The walk keeps the rest of the path after the last separator seen; the path ends at its terminator.\<close>

fun file_name_loop :: "string \<Rightarrow> string \<Rightarrow> string" where
  "file_name_loop file_name [] = file_name"
| "file_name_loop file_name (c # rest) =
     (if c = CHR ''/'' \<or> c = CHR 0x5C then file_name_loop rest rest else file_name_loop file_name rest)"

definition file_name_from_path :: "string option \<Rightarrow> string option" where
  "file_name_from_path path = map_option (\<lambda>p. file_name_loop p p) path"

lemma file_name_loop_no_separator:
  "CHR ''/'' \<notin> set p \<Longrightarrow> CHR 0x5C \<notin> set p \<Longrightarrow> file_name_loop f p = f"
  by (induction p) auto

lemma file_name_loop_append:
  assumes "c = CHR ''/'' \<or> c = CHR 0x5C" "CHR ''/'' \<notin> set name" "CHR 0x5C \<notin> set name"
  shows "file_name_loop f (dir @ c # name) = name"
  using assms by (induction dir arbitrary: f) (auto simp: file_name_loop_no_separator)

section \<open>Hooks\<close>

text \<open>A node; an empty \<open>std::function\<close> is \<^term>\<open>None\<close>, and addresses are numbers.\<close>

record ('h, 'g) log_hooks =
  handler :: "'h option"
  get_level :: "'g option"
  retired_next :: "nat option"

text \<open>A handler without location, wrapped; \<^term>\<open>None\<close> is a call that throws.\<close>

type_synonym ('a, 'r) plain_handler = "log_level \<Rightarrow> string \<Rightarrow> 'a \<Rightarrow> 'r option"
type_synonym ('a, 'r) located_handler = "log_level \<Rightarrow> 32 word \<Rightarrow> string option \<Rightarrow> bool \<Rightarrow> string \<Rightarrow> 'a \<Rightarrow> 'r option"

definition drop_location :: "('a, 'r) plain_handler option \<Rightarrow> ('a, 'r) located_handler option" where
  "drop_location plain = Some (\<lambda>level line file is_static format_text args.
     case plain of None \<Rightarrow> None | Some f \<Rightarrow> f level format_text args)"

text \<open>
  \<open>should_log\<close> on the hooks it loaded, where \<open>answer\<close> is what \<open>get_level()\<close> returned (\<^term>\<open>None\<close> when it threw),
  and the handler that \<open>log_message_internal\<close> calls.
\<close>

definition should_log :: "('h, 'g) log_hooks option \<Rightarrow> log_level option \<Rightarrow> log_level \<Rightarrow> bool" where
  "should_log hooks answer level = (case hooks of
     None \<Rightarrow> False
   | Some k \<Rightarrow> if handler k = None \<or> get_level k = None then False
               else case answer of Some l \<Rightarrow> l \<le> level | None \<Rightarrow> False)"

definition handler_called :: "('h, 'g) log_hooks option \<Rightarrow> 'h option" where
  "handler_called hooks = (case hooks of None \<Rightarrow> None | Some k \<Rightarrow> handler k)"

text \<open>The same with handlers that are functions: an exception of the handler is swallowed.\<close>

definition log_message_internal ::
  "(('a, 'r) located_handler, 'g) log_hooks option \<Rightarrow> log_level \<Rightarrow> 32 word \<Rightarrow> string option \<Rightarrow> bool \<Rightarrow> string \<Rightarrow> 'a \<Rightarrow> 'r option" where
  "log_message_internal hooks level line file is_static format_text args = (case handler_called hooks of
     None \<Rightarrow> None
   | Some h \<Rightarrow> (case h level line file is_static format_text args of None \<Rightarrow> None | Some r \<Rightarrow> Some r))"

text \<open>
  The two \<open>log_message\<close> templates.  Their handlers for an exception call the same function again without
  arguments; as it never throws they are not reached.
\<close>

definition log_message ::
  "(('a, 'r) located_handler, 'g) log_hooks option \<Rightarrow> log_level \<Rightarrow> string \<Rightarrow> 'a \<Rightarrow> 'r option" where
  "log_message hooks level format_text args = log_message_internal hooks level 0 None True format_text args"

definition log_message_at ::
  "(('a, 'r) located_handler, 'g) log_hooks option \<Rightarrow> log_level \<Rightarrow> 32 word \<Rightarrow> string option \<Rightarrow> bool \<Rightarrow> string \<Rightarrow> 'a \<Rightarrow> 'r option" where
  "log_message_at hooks level line file is_static format_text args =
     log_message_internal hooks level line file is_static format_text args"

lemma log_message_plain_handler:
  "log_message (Some \<lparr>handler = drop_location (Some f), get_level = g, retired_next = n\<rparr>) level text args = f level text args"
  by (simp add: log_message_def log_message_internal_def handler_called_def drop_location_def split: option.splits)

section \<open>Publishing, retiring and logging concurrently\<close>

text \<open>
  A thread publishes a node (or the null pointer), retires the node it replaced, or logs: the macros call
  \<open>should_log\<close> and then \<open>log_message_internal\<close>, each with its own load.
\<close>

datatype log_pc = Idle
  | Publishing "nat option"             \<comment> \<open>in \<open>publish\<close>, before the exchange\<close>
  | Retiring nat                        \<comment> \<open>in \<open>retire\<close>, before the load\<close>
  | Pushing nat                         \<comment> \<open>before the compare-exchange\<close>
  | Asking log_level "nat option"       \<comment> \<open>in \<open>should_log\<close>, with the node loaded\<close>
  | Passed log_level                    \<comment> \<open>the level was high enough\<close>
  | Delivering log_level "nat option"   \<comment> \<open>in \<open>log_message_internal\<close>, with the node loaded\<close>

datatype log_event = Asked nat log_level | Handled nat log_level

record ('h, 'g) logger =
  g_hooks :: "nat option"
  g_retired :: "nat option"
  node :: "nat \<Rightarrow> ('h, 'g) log_hooks option"   \<comment> \<open>the nodes in memory\<close>
  pc :: "nat \<Rightarrow> log_pc"
  events :: "log_event list"

definition logger_init :: "('h, 'g) logger" where
  "logger_init = \<lparr>g_hooks = None, g_retired = None, node = (\<lambda>_. None), pc = (\<lambda>_. Idle), events = []\<rparr>"

definition at :: "nat \<Rightarrow> log_pc \<Rightarrow> ('h, 'g) logger \<Rightarrow> ('h, 'g) logger" where
  "at i p w = w\<lparr>pc := (pc w)(i := p)\<rparr>"

definition hooks_at :: "('h, 'g) logger \<Rightarrow> nat option \<Rightarrow> ('h, 'g) log_hooks option" where
  "hooks_at w p = (case p of None \<Rightarrow> None | Some n \<Rightarrow> node w n)"

definition set_next :: "nat \<Rightarrow> ('h, 'g) logger \<Rightarrow> ('h, 'g) logger" where
  "set_next n w = w\<lparr>node := (node w)(n := map_option (\<lambda>k. k\<lparr>retired_next := g_retired w\<rparr>) (node w n))\<rparr>"

definition next_is_top :: "nat \<Rightarrow> ('h, 'g) logger \<Rightarrow> bool" where
  "next_is_top n w \<longleftrightarrow> (case node w n of None \<Rightarrow> False | Some k \<Rightarrow> retired_next k = g_retired w)"

inductive log_step :: "('h, 'g) logger \<Rightarrow> ('h, 'g) logger \<Rightarrow> bool" where
  set_handler: "pc w i = Idle \<Longrightarrow> node w n = None \<Longrightarrow>
     log_step w (at i (Publishing (Some n)) (w\<lparr>node := (node w)(n := Some \<lparr>handler = h, get_level = g, retired_next = None\<rparr>)\<rparr>))"
| clear_handler: "pc w i = Idle \<Longrightarrow> log_step w (at i (Publishing None) w)"
| exchange: "pc w i = Publishing p \<Longrightarrow>
     log_step w (at i (case g_hooks w of None \<Rightarrow> Idle | Some old \<Rightarrow> Retiring old) (w\<lparr>g_hooks := p\<rparr>))"
| load_top: "pc w i = Retiring n \<Longrightarrow> log_step w (at i (Pushing n) (set_next n w))"
| push: "pc w i = Pushing n \<Longrightarrow> next_is_top n w \<Longrightarrow> log_step w (at i Idle (w\<lparr>g_retired := Some n\<rparr>))"
| push_again: "pc w i = Pushing n \<Longrightarrow> log_step w (set_next n w)"
| ask: "pc w i = Idle \<Longrightarrow> log_step w (at i (Asking level (g_hooks w)) w)"
| answered: "pc w i = Asking level p \<Longrightarrow> should_log (hooks_at w p) answer level \<Longrightarrow> p = Some n \<Longrightarrow>
     log_step w (at i (Passed level) (w\<lparr>events := events w @ [Asked n level]\<rparr>))"
| filtered: "pc w i = Asking level p \<Longrightarrow> \<not> should_log (hooks_at w p) answer level \<Longrightarrow> log_step w (at i Idle w)"
| load_hooks: "pc w i = Passed level \<or> pc w i = Idle \<Longrightarrow> log_step w (at i (Delivering level (g_hooks w)) w)"
| deliver: "pc w i = Delivering level (Some n) \<Longrightarrow> handler_called (node w n) \<noteq> None \<Longrightarrow>
     log_step w (at i Idle (w\<lparr>events := events w @ [Handled n level]\<rparr>))"
| no_handler: "pc w i = Delivering level p \<Longrightarrow> handler_called (hooks_at w p) = None \<Longrightarrow> log_step w (at i Idle w)"


section \<open>No node is lost or freed\<close>

text \<open>The stack of retired nodes, as the list its links spell.\<close>

fun linked :: "(nat \<Rightarrow> ('h, 'g) log_hooks option) \<Rightarrow> nat option \<Rightarrow> nat list \<Rightarrow> bool" where
  "linked m p [] \<longleftrightarrow> p = None"
| "linked m p (n # ns) \<longleftrightarrow> p = Some n \<and> (case m n of None \<Rightarrow> False | Some k \<Rightarrow> linked m (retired_next k) ns)"

lemma linked_other: "n \<notin> set ns \<Longrightarrow> linked (m(n := x)) p ns = linked m p ns"
  by (induction ns arbitrary: p) (auto split: option.splits)

lemma linked_in_memory: "linked m p ns \<Longrightarrow> n \<in> set ns \<Longrightarrow> m n \<noteq> None"
  by (induction ns arbitrary: p) (auto split: option.splits)

text \<open>The node a thread has taken out of circulation, and the one it reads.\<close>

fun owned :: "log_pc \<Rightarrow> nat option" where
  "owned (Publishing p) = p"
| "owned (Retiring n) = Some n"
| "owned (Pushing n) = Some n"
| "owned _ = None"

fun reading :: "log_pc \<Rightarrow> nat option" where
  "reading (Asking _ p) = p"
| "reading (Delivering _ p) = p"
| "reading _ = None"

definition log_inv_at :: "('h, 'g) logger \<Rightarrow> nat list \<Rightarrow> bool" where
  "log_inv_at w ns \<longleftrightarrow> linked (node w) (g_retired w) ns \<and> distinct ns
     \<and> (\<forall>i n. owned (pc w i) = Some n \<longrightarrow> node w n \<noteq> None \<and> n \<notin> set ns \<and> g_hooks w \<noteq> Some n)
     \<and> (\<forall>i j n. owned (pc w i) = Some n \<longrightarrow> owned (pc w j) = Some n \<longrightarrow> i = j)
     \<and> (\<forall>n. g_hooks w = Some n \<longrightarrow> node w n \<noteq> None \<and> n \<notin> set ns)
     \<and> (\<forall>n. node w n \<noteq> None \<longrightarrow> g_hooks w = Some n \<or> n \<in> set ns \<or> (\<exists>i. owned (pc w i) = Some n))
     \<and> (\<forall>i n. reading (pc w i) = Some n \<longrightarrow> node w n \<noteq> None)"

definition log_inv :: "('h, 'g) logger \<Rightarrow> bool" where
  "log_inv w \<longleftrightarrow> (\<exists>ns. log_inv_at w ns)"

lemma log_inv_atD:
  assumes "log_inv_at w ns"
  shows "linked (node w) (g_retired w) ns" and "distinct ns"
    and "owned (pc w i) = Some n \<Longrightarrow> node w n \<noteq> None"
    and "owned (pc w i) = Some n \<Longrightarrow> n \<notin> set ns"
    and "owned (pc w i) = Some n \<Longrightarrow> g_hooks w \<noteq> Some n"
    and "owned (pc w i) = Some n \<Longrightarrow> owned (pc w j) = Some n \<Longrightarrow> i = j"
    and "g_hooks w = Some n \<Longrightarrow> node w n \<noteq> None" and "g_hooks w = Some n \<Longrightarrow> n \<notin> set ns"
    and "node w n \<noteq> None \<Longrightarrow> g_hooks w = Some n \<or> n \<in> set ns \<or> (\<exists>i. owned (pc w i) = Some n)"
    and "reading (pc w i) = Some n \<Longrightarrow> node w n \<noteq> None"
  using assms unfolding log_inv_at_def by blast+

lemma log_inv_atI:
  assumes "linked (node w) (g_retired w) ns" "distinct ns"
    and "\<And>i n. owned (pc w i) = Some n \<Longrightarrow> node w n \<noteq> None \<and> n \<notin> set ns \<and> g_hooks w \<noteq> Some n"
    and "\<And>i j n. owned (pc w i) = Some n \<Longrightarrow> owned (pc w j) = Some n \<Longrightarrow> i = j"
    and "\<And>n. g_hooks w = Some n \<Longrightarrow> node w n \<noteq> None \<and> n \<notin> set ns"
    and "\<And>n. node w n \<noteq> None \<Longrightarrow> g_hooks w \<noteq> Some n \<Longrightarrow> n \<notin> set ns \<Longrightarrow> \<exists>i. owned (pc w i) = Some n"
    and "\<And>i n. reading (pc w i) = Some n \<Longrightarrow> node w n \<noteq> None"
  shows "log_inv_at w ns"
  using assms unfolding log_inv_at_def by blast

text \<open>
  A step of the readers moves one program counter and writes nothing.
\<close>

lemma log_inv_reader:
  assumes inv: "log_inv_at w ns" and pcs: "pc v = (pc w)(i := p)" "owned p = owned (pc w i)"
    and reads: "\<And>n. reading p = Some n \<Longrightarrow> node w n \<noteq> None"
    and frame: "g_hooks v = g_hooks w" "g_retired v = g_retired w" "node v = node w"
  shows "log_inv_at v ns"
proof -
  have owned: "owned (pc v j) = owned (pc w j)" for j by (simp add: pcs)
  have reading: "node w n \<noteq> None" if "reading (pc v j) = Some n" for j n
    using that reads log_inv_atD(10) [OF inv, of j n] by (simp add: pcs split: if_splits)
  show ?thesis
    using inv reading unfolding log_inv_at_def frame owned by blast
qed

lemma set_next_simps [simp]:
  "node (set_next n w) m = None \<longleftrightarrow> node w m = None" "g_hooks (set_next n w) = g_hooks w"
  "g_retired (set_next n w) = g_retired w" "pc (set_next n w) = pc w" "events (set_next n w) = events w"
  by (auto simp: set_next_def)

lemma at_simps [simp]:
  "pc (at i p w) = (pc w)(i := p)" "g_hooks (at i p w) = g_hooks w" "g_retired (at i p w) = g_retired w"
  "node (at i p w) = node w" "events (at i p w) = events w"
  by (simp_all add: at_def)

lemma log_inv_set_next:
  assumes inv: "log_inv_at w ns" and pcs: "pc v = (pc w)(i := p)" "owned p = Some n" "owned (pc w i) = Some n" "reading p = None"
    and frame: "g_hooks v = g_hooks w" "g_retired v = g_retired w" "node v = node (set_next n w)"
  shows "log_inv_at v ns"
proof -
  have owned: "owned (pc v j) = owned (pc w j)" for j by (simp add: pcs)
  have reading: "reading (pc v j) = Some m \<Longrightarrow> reading (pc w j) = Some m" for j m
    by (simp add: pcs split: if_splits)
  have "linked (node v) (g_retired w) ns"
    using log_inv_atD(1) [OF inv] log_inv_atD(4) [OF inv pcs(3)] by (simp add: frame set_next_def linked_other)
  then show ?thesis
    using inv reading unfolding log_inv_at_def frame(1,2) owned by (simp add: frame(3)) blast
qed

lemma log_inv_exchange:
  assumes inv: "log_inv_at w ns" and pc: "pc w i = Publishing p"
  shows "log_inv_at (at i (case g_hooks w of None \<Rightarrow> Idle | Some old \<Rightarrow> Retiring old) (w\<lparr>g_hooks := p\<rparr>)) ns" (is "log_inv_at ?v ns")
proof (rule log_inv_atI)
  note i = log_inv_atD [OF inv]
  have owned: "owned (pc ?v j) = (if j = i then g_hooks w else owned (pc w j))" for j
    by (simp split: option.split)
  show "linked (node ?v) (g_retired ?v) ns" "distinct ns" using i(1,2) by simp_all
  show "node ?v n \<noteq> None \<and> n \<notin> set ns \<and> g_hooks ?v \<noteq> Some n" if "owned (pc ?v j) = Some n" for j n
  proof (cases "j = i")
    case True
    then have "g_hooks w = Some n" using that [unfolded owned] by simp
    then show ?thesis using i(7,8) [of n] i(5) [of i n] pc by auto
  next
    case False
    then have "owned (pc w j) = Some n" using that by (simp only: owned if_False)
    then show ?thesis using i(3,4) [of j n] i(6) [of j n i] pc False by auto
  qed
  show "j = k" if "owned (pc ?v j) = Some n" "owned (pc ?v k) = Some n" for j k n
    using that [unfolded owned] i(5) [of j n] i(5) [of k n] i(6) [of j n k] by (simp split: if_splits)
  show "node ?v n \<noteq> None \<and> n \<notin> set ns" if "g_hooks ?v = Some n" for n
    using that i(3,4) [of i n] pc by simp
  show "\<exists>j. owned (pc ?v j) = Some n" if new: "node ?v n \<noteq> None" "g_hooks ?v \<noteq> Some n" "n \<notin> set ns" for n
  proof -
    have "g_hooks w = Some n \<or> (\<exists>j. owned (pc w j) = Some n)" using i(9) [of n] new by simp
    then show ?thesis
    proof
      assume "g_hooks w = Some n"
      then show ?thesis by (intro exI [of _ i]) simp
    next
      assume "\<exists>j. owned (pc w j) = Some n"
      then obtain j where j: "owned (pc w j) = Some n" ..
      then have "j \<noteq> i" using pc new(2) by auto
      with j show ?thesis by (intro exI [of _ j]) (simp only: owned if_False)
    qed
  qed
  show "node ?v n \<noteq> None" if "reading (pc ?v j) = Some n" for j n
    using that i(10) [of j n] by (auto split: if_splits option.splits)
qed

lemma log_inv_push:
  assumes inv: "log_inv_at w ns" and pc: "pc w i = Pushing n" and top: "next_is_top n w"
  shows "log_inv_at (at i Idle (w\<lparr>g_retired := Some n\<rparr>)) (n # ns)" (is "log_inv_at ?v _")
proof (rule log_inv_atI)
  note i = log_inv_atD [OF inv]
  have owned: "owned (pc ?v j) = (if j = i then None else owned (pc w j))" for j by simp
  show "linked (node ?v) (g_retired ?v) (n # ns)"
    using i(1) top by (auto simp: next_is_top_def split: option.splits)
  show "distinct (n # ns)" using i(2) i(4) [of i n] pc by simp
  show "node ?v m \<noteq> None \<and> m \<notin> set (n # ns) \<and> g_hooks ?v \<noteq> Some m" if "owned (pc ?v j) = Some m" for j m
    using that [unfolded owned] i(3-5) [of j m] i(6) [of j m i] pc by (auto split: if_splits)
  show "j = k" if "owned (pc ?v j) = Some m" "owned (pc ?v k) = Some m" for j k m
    using that [unfolded owned] i(6) [of j m k] by (simp split: if_splits)
  show "node ?v m \<noteq> None \<and> m \<notin> set (n # ns)" if "g_hooks ?v = Some m" for m
    using that i(7,8) [of m] i(5) [of i n] pc by auto
  show "\<exists>j. owned (pc ?v j) = Some m" if new: "node ?v m \<noteq> None" "g_hooks ?v \<noteq> Some m" "m \<notin> set (n # ns)" for m
  proof -
    obtain j where j: "owned (pc w j) = Some m" using i(9) [of m] new by auto
    then have "j \<noteq> i" using pc new(3) by auto
    with j show ?thesis by (intro exI [of _ j]) (simp only: owned if_False)
  qed
  show "node ?v m \<noteq> None" if "reading (pc ?v j) = Some m" for j m
    using that i(10) [of j m] by (auto split: if_splits)
qed

lemma log_inv_new:
  assumes inv: "log_inv_at w ns" and pc: "pc w i = Idle" and fresh: "node w n = None"
  shows "log_inv_at (at i (Publishing (Some n)) (w\<lparr>node := (node w)(n := Some k)\<rparr>)) ns" (is "log_inv_at ?v ns")
proof (rule log_inv_atI)
  note i = log_inv_atD [OF inv]
  have owned: "owned (pc ?v j) = (if j = i then Some n else owned (pc w j))" for j by simp
  have unused: "n \<notin> set ns" "g_hooks w \<noteq> Some n" "owned (pc w j) \<noteq> Some n" for j
    using linked_in_memory [OF i(1), of n] i(7) [of n] i(3) [of j n] fresh by auto
  show "linked (node ?v) (g_retired ?v) ns" "distinct ns" using i(1,2) unused(1) by (simp_all add: linked_other)
  show "node ?v m \<noteq> None \<and> m \<notin> set ns \<and> g_hooks ?v \<noteq> Some m" if "owned (pc ?v j) = Some m" for j m
    using that [unfolded owned] i(3-5) [of j m] unused by (auto split: if_splits)
  show "j = k" if "owned (pc ?v j) = Some m" "owned (pc ?v k) = Some m" for j k m
    using that [unfolded owned] i(6) [of j m k] unused(3) [of j] unused(3) [of k] by (auto split: if_splits)
  show "node ?v m \<noteq> None \<and> m \<notin> set ns" if "g_hooks ?v = Some m" for m
    using that i(7,8) [of m] by simp
  show "\<exists>j. owned (pc ?v j) = Some m" if new: "node ?v m \<noteq> None" "g_hooks ?v \<noteq> Some m" "m \<notin> set ns" for m
  proof (cases "m = n")
    case True
    then show ?thesis by (intro exI [of _ i]) simp
  next
    case False
    then obtain j where j: "owned (pc w j) = Some m" using i(9) [of m] new by auto
    then have "j \<noteq> i" using pc by auto
    with j show ?thesis by (intro exI [of _ j]) (simp only: owned if_False)
  qed
  show "node ?v m \<noteq> None" if "reading (pc ?v j) = Some m" for j m
    using that i(10) [of j m] by (auto split: if_splits)
qed

lemma log_inv_step:
  assumes "log_inv w" "log_step w v"
  shows "log_inv v"
proof -
  obtain ns where inv: "log_inv_at w ns" using assms(1) unfolding log_inv_def by blast
  have "\<exists>ns. log_inv_at v ns"
    using assms(2)
  proof (cases rule: log_step.cases)
    case (set_handler i n h g)
    with log_inv_new [OF inv] show ?thesis by blast
  next
    case (clear_handler i)
    show ?thesis by (rule exI [of _ ns], rule log_inv_reader [OF inv, of _ i "Publishing None"]) (simp_all add: clear_handler)
  next
    case (exchange i p)
    with log_inv_exchange [OF inv] show ?thesis by blast
  next
    case (load_top i n)
    show ?thesis by (rule exI [of _ ns], rule log_inv_set_next [OF inv, of _ i "Pushing n" n]) (simp_all add: load_top)
  next
    case (push i n)
    with log_inv_push [OF inv] show ?thesis by blast
  next
    case (push_again i n)
    then have "pc v = (pc w)(i := Pushing n)" by auto
    then show ?thesis
      by (intro exI [of _ ns], rule log_inv_set_next [OF inv, of _ i "Pushing n" n]) (simp_all add: push_again)
  next
    case (ask i level)
    show ?thesis using log_inv_atD(7) [OF inv]
      by (intro exI [of _ ns], intro log_inv_reader [OF inv, of _ i "Asking level (g_hooks w)"]) (simp_all add: ask)
  next
    case (answered i level p answer n)
    show ?thesis by (rule exI [of _ ns], rule log_inv_reader [OF inv, of _ i "Passed level"]) (simp_all add: answered)
  next
    case (filtered i level p answer)
    show ?thesis by (rule exI [of _ ns], rule log_inv_reader [OF inv, of _ i Idle]) (simp_all add: filtered)
  next
    case (load_hooks i level)
    show ?thesis using log_inv_atD(7) [OF inv] load_hooks(2)
      by (intro exI [of _ ns], intro log_inv_reader [OF inv, of _ i "Delivering level (g_hooks w)"]) (auto simp: load_hooks(1))
  next
    case (deliver i level n)
    show ?thesis by (rule exI [of _ ns], rule log_inv_reader [OF inv, of _ i Idle]) (simp_all add: deliver)
  next
    case (no_handler i level p)
    show ?thesis by (rule exI [of _ ns], rule log_inv_reader [OF inv, of _ i Idle]) (simp_all add: no_handler)
  qed
  then show ?thesis by (simp add: log_inv_def)
qed

lemma log_inv_init: "log_inv logger_init"
  unfolding log_inv_def by (rule exI [of _ "[]"]) (simp add: log_inv_at_def logger_init_def)

interpretation log_nodes: inductive_invariant logger_init log_step log_inv
  by unfold_locales (auto intro: log_inv_init log_inv_step)

definition same_pair :: "('h, 'g) log_hooks option \<Rightarrow> ('h, 'g) log_hooks option \<Rightarrow> bool" where
  "same_pair a b \<longleftrightarrow> (case (a, b) of
     (Some k, Some l) \<Rightarrow> handler k = handler l \<and> get_level k = get_level l | _ \<Rightarrow> False)"

lemma same_pair_refl: "x \<noteq> None \<Longrightarrow> same_pair x x"
  by (auto simp: same_pair_def)

lemma same_pair_trans: "same_pair x y \<Longrightarrow> same_pair y z \<Longrightarrow> same_pair x z"
  by (auto simp: same_pair_def split: option.splits)

lemma log_step_same_pair: "log_step w v \<Longrightarrow> node w n \<noteq> None \<Longrightarrow> same_pair (node w n) (node v n)"
  by (induction rule: log_step.cases) (auto simp: same_pair_def set_next_def)

lemma log_steps_same_pair: "log_step\<^sup>*\<^sup>* w v \<Longrightarrow> node w n \<noteq> None \<Longrightarrow> same_pair (node w n) (node v n)"
proof (induction rule: rtranclp_induct)
  case base
  then show ?case by (rule same_pair_refl)
next
  case (step u v)
  from step.IH [OF step.prems] have "node u n \<noteq> None" by (auto simp: same_pair_def split: option.splits)
  from same_pair_trans [OF step.IH [OF step.prems] log_step_same_pair [OF step.hyps(2) this]] show ?case .
qed

section \<open>Properties\<close>

text \<open>
  C36. However the threads interleave, every node in memory is the installed one, in the retired stack, or held by
  the one thread about to retire or install it, never two of these; the links of the stack spell a list without
  repetition, so no replaced node is lost or pushed twice.
\<close>
theorem no_node_lost:
  assumes "reachable logger_init log_step w"
  shows "\<exists>ns. linked (node w) (g_retired w) ns \<and> distinct ns
     \<and> (\<forall>n. node w n \<noteq> None \<longleftrightarrow> g_hooks w = Some n \<or> n \<in> set ns \<or> (\<exists>i. owned (pc w i) = Some n))
     \<and> (\<forall>i n. owned (pc w i) = Some n \<longrightarrow> n \<notin> set ns \<and> g_hooks w \<noteq> Some n \<and> (\<forall>j. owned (pc w j) = Some n \<longrightarrow> j = i))
     \<and> (\<forall>n \<in> set ns. g_hooks w \<noteq> Some n)"
proof -
  obtain ns where inv: "log_inv_at w ns" using log_nodes.reachable_inv [OF assms] unfolding log_inv_def by blast
  show ?thesis
    using log_inv_atD [OF inv] linked_in_memory [OF log_inv_atD(1) [OF inv]] by (intro exI [of _ ns]) blast
qed

text \<open>A run that installs a handler, lets another thread start a log line, and replaces the handler.\<close>

definition first_hook :: "(nat, log_level) log_hooks" where
  "first_hook = \<lparr>handler = Some 7, get_level = Some Debug, retired_next = None\<rparr>"

definition second_hook :: "(nat, log_level) log_hooks" where
  "second_hook = \<lparr>handler = Some 8, get_level = Some Error, retired_next = None\<rparr>"

definition asking :: "(nat, log_level) logger" where
  "asking = logger_init\<lparr>g_hooks := Some 0, node := (\<lambda>_. None)(0 := Some first_hook), pc := (\<lambda>_. Idle)(1 := Asking Debug (Some 0))\<rparr>"

definition replaced :: "(nat, log_level) logger" where
  "replaced = logger_init\<lparr>g_hooks := Some 1, node := (\<lambda>_. None)(0 := Some first_hook, 1 := Some second_hook),
     pc := (\<lambda>_. Idle)(0 := Retiring 0, 1 := Passed Debug), events := [Asked 0 Debug]\<rparr>"

lemma asking_reachable: "reachable logger_init log_step asking"
proof -
  define a :: "(nat, log_level) logger" where "a = at 0 (Publishing (Some 0)) (logger_init\<lparr>node := (node logger_init)(0 := Some first_hook)\<rparr>)"
  define b where "b = at 0 Idle (a\<lparr>g_hooks := Some 0\<rparr>)"
  have idle: "(\<lambda>_. Idle)(0 := Idle) = (\<lambda>_ :: nat. Idle)" by auto
  have "log_step logger_init a" unfolding a_def first_hook_def by (rule log_step.set_handler) (simp_all add: logger_init_def)
  moreover have "log_step a b"
    using log_step.exchange [of a 0 "Some 0"] by (simp add: a_def b_def logger_init_def)
  moreover have "log_step b asking"
    using log_step.ask [of b 1 Debug]
    by (simp add: asking_def a_def b_def logger_init_def at_def idle)
  ultimately show ?thesis by (meson reachable.start reachable.next_step)
qed

lemma asking_replaced: "log_step\<^sup>*\<^sup>* asking replaced"
proof -
  define a where "a = at 0 (Publishing (Some 1)) (asking\<lparr>node := (node asking)(1 := Some second_hook)\<rparr>)"
  define b where "b = at 0 (Retiring 0) (a\<lparr>g_hooks := Some 1\<rparr>)"
  have "log_step asking a" unfolding a_def second_hook_def
    by (rule log_step.set_handler) (simp_all add: asking_def logger_init_def)
  moreover have "log_step a b"
    using log_step.exchange [of a 0 "Some 1"] by (simp add: a_def b_def asking_def logger_init_def)
  moreover have "log_step b replaced"
    using log_step.answered [of b 1 Debug "Some 0" "Some Debug" 0]
    by (simp add: a_def b_def asking_def replaced_def logger_init_def at_def hooks_at_def should_log_def first_hook_def fun_upd_twist)
  ultimately show ?thesis by (meson rtranclp.rtrancl_refl rtranclp.rtrancl_into_rtrancl)
qed

lemma replaced_reachable: "reachable logger_init log_step replaced"
  by (rule steps_reachable [OF asking_replaced asking_reachable])

theorem no_node_lost_witness: "\<exists>ns. linked (node replaced) None ns \<and> 0 \<notin> set ns"
proof -
  obtain ns where "linked (node replaced) (g_retired replaced) ns" "\<forall>i n. owned (pc replaced i) = Some n \<longrightarrow> n \<notin> set ns"
    using no_node_lost [OF replaced_reachable] by blast
  moreover have "owned (pc replaced 0) = Some 0" "g_retired replaced = None" by (simp_all add: replaced_def logger_init_def)
  ultimately show ?thesis by auto
qed

text \<open>
  C37. The hooks a reader has loaded stay in memory with the handler and the getter they were installed with, whatever
  the other threads install, clear or retire meanwhile.
\<close>
theorem reader_keeps_its_pair:
  assumes "reachable logger_init log_step w" "reading (pc w i) = Some n" "log_step\<^sup>*\<^sup>* w v"
  shows "same_pair (node w n) (node v n)"
proof -
  obtain ns where inv: "log_inv_at w ns" using log_nodes.reachable_inv [OF assms(1)] unfolding log_inv_def by blast
  show ?thesis by (rule log_steps_same_pair [OF assms(3) log_inv_atD(10) [OF inv assms(2)]])
qed

theorem reader_keeps_its_pair_witness: "same_pair (node asking 0) (node replaced 0)"
  by (rule reader_keeps_its_pair [OF asking_reachable _ asking_replaced, of 1]) (simp add: asking_def)

text \<open>
  The pair is consistent for each call, not for a logging macro: this run of one \<open>LOG_DEBUG\<close> asks the getter
  of the replaced handler and then delivers the message to the new handler, whose own getter (Error) would have
  filtered it.
\<close>
lemma macro_mixes_hooks:
  "\<exists>w :: (nat, log_level) logger. reachable logger_init log_step w \<and> events w = [Asked 0 Debug, Handled 1 Debug]
     \<and> map_option get_level (node w 1) = Some (Some Error) \<and> \<not> should_log (node w 1) (Some Error) Debug"
proof -
  define a where "a = at 1 (Delivering Debug (Some 1)) replaced"
  define b where "b = at 1 Idle (a\<lparr>events := events a @ [Handled 1 Debug]\<rparr>)"
  have "log_step replaced a"
    using log_step.load_hooks [of replaced 1 Debug] by (simp add: a_def replaced_def logger_init_def)
  moreover have "log_step a b" unfolding b_def
    by (rule log_step.deliver) (simp_all add: a_def replaced_def logger_init_def handler_called_def second_hook_def)
  ultimately have "reachable logger_init log_step b"
    using replaced_reachable by (meson reachable.next_step)
  then show ?thesis
    by (intro exI [of _ b])
      (simp add: b_def a_def replaced_def logger_init_def should_log_def second_hook_def less_eq_log_level_def)
qed

end
