(* ===== verification/Spec2Isabelle.thy ===== *)
theory Spec2Isabelle
  imports Http_Delivery Delivery_Object Sync_Contexts Ws_System_Props Stream_Connect Ws_Connect Stream_Service_Props
    Ws_Object Write_Chain
    Sse_Parser Url Tls Logging
begin

text \<open>
  A verification of slick-net, a C++20 library of asynchronous network clients on Boost.Asio and Boost.Beast: one-shot
  HTTP requests (\<open>Http\<close>), server-sent events and other endless responses (\<open>HttpStream\<close>), and WebSockets (\<open>Websocket\<close>).

  The parts and how they interact.  A URL is parsed (\<open>detail/url.hpp\<close>) into host, port, target and TLS or not; a
  session resolves, connects and, over TLS, shakes hands with the peer the URL names (\<open>tls.cpp\<close>), on a context all
  sessions share.  \<open>http.cpp\<close> runs a request as a coroutine: the blocking form on an \<open>io_context\<close> of a small pool, the
  callback form on a service with one I/O thread and a configurable number of callback threads, the awaited form on the
  caller's executor.  \<open>http_stream.cpp\<close> runs one session of a stream at a time, feeds the body to the SSE parser
  (\<open>detail/sse_parser.hpp\<close>) and reports through four callbacks.  \<open>detail/websocket_impl.hpp\<close> runs sessions on the one
  service thread of \<open>websocket.cpp\<close>; senders on any thread queue records, which a chain of writes drains
  (\<open>detail/write_chain_gate.hpp\<close>).  All of them log through \<open>logging.cpp\<close>.

  Which theory models what (file names under \<open>src/\<close> and \<open>include/slick/net/\<close>):

  \<^item> \<open>Prelude\<close>: byte strings, \<open>string_view\<close> operations, the interface of an incremental consumer.  \<open>Transitions\<close>: reachable
    states, inductive invariants, systems that come to rest, refinement of an abstract machine, a resource with one owner,
    compare-and-swap loops.
  \<^item> \<open>Sse_Parser\<close> (\<open>sse_parser.hpp\<close>): \<open>feed\<close>, \<open>reset\<close> and the private steps as executable functions, with a callback that
    may throw.  The lemmas: the parser equals a specification by lines, pieces do not matter, what is written is read
    back, and no byte of the field name is read out of bounds.
  \<^item> \<open>Url\<close> (\<open>url.hpp\<close>, \<open>utils.hpp\<close>, \<open>parse_websocket_url\<close>): the parser and the Host header; every result is well-formed, and
    scheme, Host header and target lead back to it.
  \<^item> \<open>Tls\<close> (\<open>tls.cpp\<close>): the one-time context, the trust roots of the Unix and Windows builds, the identity of the peer.
  \<^item> \<open>Http_Request\<close> (\<open>http.cpp\<close>, \<open>http.hpp\<close>): the message, both session coroutines as the list of their network calls and a
    result, the responses made of exceptions, all fifteen methods.  The contract \<open>identified_peers\<close> is what every client
    of \<open>set_tls_peer_host\<close> owes; it is given here, in \<open>Stream_Connect\<close> and in \<open>Ws_Connect\<close>.
  \<^item> \<open>Service_Pool\<close>, \<open>Service_Pool_Safety\<close>, \<open>Service_Pool_Ends\<close> (\<open>http.cpp\<close>, \<open>http_stream.cpp\<close>): \<open>start_service\<close>,
    \<open>shutdown\<close> and the service threads; the two sources share one protocol, the contract \<open>service_protocol\<close>, and differ
    in the actions between its states (\<open>http_code\<close>, \<open>stream_code\<close>).
  \<^item> \<open>Http_Service\<close>, \<open>Http_Service_Props\<close>, \<open>Http_Delivery\<close> (\<open>http.cpp\<close>): \<open>response_delivery\<close>, \<open>spawn_async_request\<close> and
    the callback threads over that pool.  A request is counted in one place at a time, from which follows how often
    \<open>on_response\<close> is called and what a shutdown abandons.  \<open>Delivery_Object\<close>: the executor in the union of
    \<open>response_delivery\<close>, which is constructed and destroyed by hand.
  \<^item> \<open>Sync_Contexts\<close> (\<open>http.cpp\<close>): \<open>sync_context_pool\<close>; every context is in one place.
  \<^item> \<open>Stream_State\<close>, \<open>Http_Stream\<close>, \<open>Http_Stream_Moves\<close>, \<open>Http_Stream_Safety\<close>, \<open>Http_Stream_Ends\<close>, \<open>Http_Stream_Props\<close>
    (\<open>http_stream.cpp\<close>): the packed state word, the coroutines of a stream as a step function, its invariants, the order
    and number of its callbacks, and that a closed stream comes to rest.  \<open>Http_Stream_Spec\<close>: the abstract machine a user
    sees, which the step function refines.  \<open>Stream_Connect\<close>: the constructor, the request and the session up to the
    response header over a network, which the step function simulates whenever other threads close the stream.  \<open>Stream_Service\<close>, \<open>Stream_Service_Props\<close>: any
    number of streams over the service pool; what holds of one stream holds of each of them, and its code runs on one
    thread at a time and never while the service is stopped.
  \<^item> \<open>Ws_Session\<close>, \<open>Ws_Session_Safety\<close>, \<open>Ws_Session_Ends\<close>, \<open>Ws_Session_Props\<close> (\<open>websocket_impl.hpp\<close>): \<open>Impl\<close> without its
    write chain: the coroutine, its completion handler, \<open>on_read\<close>, \<open>on_write\<close>, \<open>on_close\<close>, \<open>close\<close> and the hand-over
    of the read buffer.  \<open>Ws_Connect\<close>: the constructor and the connection over a network, which the step function
    simulates.
  \<^item> \<open>Ws_Object\<close> (\<open>websocket_impl.hpp\<close>): the outer class over the sessions it has had, and the record and frame of \<open>send\<close>.
  \<^item> \<open>Write_Chain\<close> (\<open>write_chain_gate.hpp\<close>, \<open>websocket_impl.hpp\<close>): gate, producers and consumer with store buffers; the
    queue is a parameter with the laws of a multi-producer queue.
  \<^item> \<open>Ws_Service\<close>, \<open>Ws_Service_Safety\<close>, \<open>Ws_Service_Props\<close>, \<open>Ws_Service_Ends\<close> (\<open>websocket.cpp\<close>): start, stop and busy
    polling of the service thread, from application threads and from callbacks; one owner, no lost wake-up, and that a
    start or stop ends.  \<open>Ws_System\<close>, \<open>Ws_System_Props\<close>: the sessions of \<open>Ws_Session\<close>, any number of them, on that
    thread; one handler runs at a time, and none while the service is stopped.
  \<^item> \<open>Logging\<close> (\<open>logging.cpp\<close>, \<open>logging.hpp\<close>): publishing, retiring and reading the hooks, and the macros.

  How the code is modelled.  Sequential code is a function, an exception the left side of a sum.  Concurrent code is a
  state record with a step function from moves to \<open>option\<close> (or step rules), one move per atomic operation of one thread or
  per completed asynchronous operation; all interleavings are allowed, and what the network, the other end, the
  callbacks and the application do is chosen by the environment.  Schedules of moves are evaluated to show that the
  hypotheses of a property can be met, or that an unwanted behaviour is reachable.  Fields marked history are not in the
  code.  Integers that can wrap are words.

  Bounds.  The generation of a stream has 62 bits of its state word, so its properties speak of fewer than \<open>2 ^ 62\<close>
  successful \<open>open()\<close> calls; epochs are 64-bit, so delivery after a shutdown speaks of fewer than \<open>2 ^ 64\<close> shutdowns.
  \<open>loop_alone\<close> takes six steps of the WebSocket service loop, the longest way from any point of it to its end.  No other
  fuel is used: that something ends is stated by a measure that bounds every run.

  Third-party behaviour is a parameter.  Boost.Beast's fields and \<open>prepare_payload\<close> (\<open>beast_contract\<close>: \<open>set\<close> replaces the
  fields of that name, payload preparation touches payload fields only), OpenSSL and Asio (\<open>tls_calls\<close>, \<open>network\<close>;
  \<open>verifies_peers\<close>: with \<open>SSL_VERIFY_PEER\<close> a handshake succeeds only with a certificate good for the expected identity),
  \<open>slick::queue\<close> in \<open>Write_Chain\<close>, and Asio's strands in \<open>Stream_Service\<close>, which one thread at a time runs.

  Simplifications.  Creating a thread succeeds.  \<open>Http::shutdown\<close> and \<open>HttpStream::shutdown\<close> are not called from a
  service thread, which their documentation forbids; \<open>Websocket::shutdown\<close> may be.  An exception that is not a
  \<open>std::exception\<close> is modelled where the code catches it; out of a service thread's handler it ends the process.  Atomic
  operations are sequentially consistent except in \<open>Write_Chain\<close>, whose fences are its subject.  Timeouts are
  failures the network may choose.

  Not modelled: \<open>websocket_stream_buffer*.cpp\<close>, which only instantiate
  templates; the other object lifetimes and move operations, left to C++; the static objects that shut the services down at
  program exit; message formatting; the write-wakeup and loop counters and the accessors that are a single load; tests, examples, the benchmark and the build files.
\<close>

section \<open>Properties that span components\<close>

text \<open>
  C9. No stream and no WebSocket talks to an unverified peer: the request of an \<open>HttpStream\<close> and the upgrade of a
  \<open>Websocket\<close> go over TLS exactly when the URL says so, then only after a handshake with a peer whose certificate is good
  for the host of the URL, and they carry the target of the URL.
\<close>
theorem streaming_only_to_verified_peer:
  assumes "verifies_peers n" "net (stream_client w) = n" "net (ws_client v) = n"
    and "new_stream url headers = Inr cfg" "new_impl shared ws_url = Inr (parts, session)"
  shows "(Http_Request.Writes tls m \<in> set (fst (stream_session w cfg)) \<longrightarrow>
      (\<exists>host target port header. parse_url url = Inr (host, target, port, tls, header) \<and> msg_target m = target
        \<and> (tls \<longrightarrow> host \<in> certificate n \<and> host \<noteq> [])))
    \<and> (Ws_upgrades tls' header path agent \<in> set (fst (ws_session_connect v parts)) \<longrightarrow>
      (tls' \<longleftrightarrow> wsu_use_ssl parts) \<and> tls' = uses_tls session \<and> path = wsu_path parts \<and> header = format_authority (wsu_host parts) (endpoint_port v)
        \<and> (tls' \<longrightarrow> wsu_host parts \<in> certificate n \<and> wsu_host parts \<noteq> []))"
proof (intro conjI impI)
  assume m: "Http_Request.Writes tls m \<in> set (fst (stream_session w cfg))"
  obtain host target port ssl header where url: "parse_url url = Inr (host, target, port, ssl, header)"
      "cfg_host cfg = host" "cfg_target cfg = target" "cfg_use_ssl cfg = ssl"
    using assms(4) by (auto simp: new_stream_def split: sum.splits)
  then show "\<exists>host target port header. parse_url url = Inr (host, target, port, tls, header) \<and> msg_target m = target
      \<and> (tls \<longrightarrow> host \<in> certificate n \<and> host \<noteq> [])"
    using stream_peers.sent_to_verified_peer [of "(w, cfg)" "Http_Request.Writes tls m"] m stream_Writes [OF m] assms(1,2)
    by (auto simp: stream_request_def Let_def)
next
  assume u: "Ws_upgrades tls' header path agent \<in> set (fst (ws_session_connect v parts))"
  show "tls' \<longleftrightarrow> wsu_use_ssl parts" "path = wsu_path parts" "header = format_authority (wsu_host parts) (endpoint_port v)"
    using ws_Upgrades [OF u] by simp_all
  then show "tls' = uses_tls session" using assms(5) by (auto simp: new_impl_def ws_init_def split: sum.splits)
  assume tls'
  then show "wsu_host parts \<in> certificate n" "wsu_host parts \<noteq> []"
    using ws_peers.sent_to_verified_peer [of "(v, parts)" "Ws_upgrades tls' header path agent"] u assms(1,3) by auto
qed

lemma new_impl_h: "new_impl False ''wss://h/a'' = Inr (h_parts, ws_init False True False)"
proof -
  have "parse_url_parts ''wss://h/a'' ''ws'' ''wss'' =
     Inr \<lparr>url_host = ''h'', url_target = ''/a'', url_port = 443, url_use_ssl = True\<rparr>"
    by (simp add: url_eval)
  then show ?thesis by (simp add: new_impl_def parse_websocket_url_def h_parts_def)
qed

theorem streaming_only_to_verified_peer_witness:
  "(\<exists>m. Http_Request.Writes True m \<in> set (fst (stream_session sse_world h_config)))
   \<and> ''h'' \<in> certificate (net (stream_client sse_world))"
proof -
  have new: "new_stream ''https://h/a'' [] = Inr h_config" by (simp add: new_stream_def parse_h h_config_def)
  have "Write_request \<in> set (map io_of (fst (stream_session sse_world h_config)))" using sse_session by auto
  then obtain c where c: "c \<in> set (fst (stream_session sse_world h_config))" "io_of c = Write_request"
    by (metis (no_types, lifting) imageE list.set_map)
  obtain tls m where "c = Http_Request.Writes tls m" using c(2) by (cases c) simp_all
  then have m: "Http_Request.Writes tls m \<in> set (fst (stream_session sse_world h_config))" using c(1) by simp
  have net: "net (stream_client sse_world) = net ok_client" "net (ws_client refusing_world) = net ok_client"
    by (simp_all add: sse_world_def refusing_world_def)
  from conjunct1 [OF streaming_only_to_verified_peer [OF ok_client_verifies net new new_impl_h], THEN mp, OF m]
  have "''h'' \<in> certificate (net ok_client) \<and> tls" by (auto simp: parse_h)
  then show ?thesis using m net by auto
qed

end
